(* ===== verification/C_Prelude.thy ===== *)
theory C_Prelude
  imports Main "HOL-Library.Word"
begin

text \<open>
  The vocabulary shared by every component of the development: how C is read.

  \<^item> Machine integers.  \<open>uint8_t\<close> and \<open>uint32_t\<close> are \<open>8 word\<close> and \<open>32 word\<close>; where a program
    computes with signed integers the component says how overflow is treated.
  \<^item> Counting loops.  \<open>for (int i = a; i < b; i++) body\<close> is \<open>for_to a b (\<lambda>i. body)\<close>, a fold of
    the body, a state transformer, over the indices; \<open>for_down\<close> is the loop that counts down.
  \<^item> Memory.  A C array is a list; a store with an index is \<open>xs[i := v]\<close> where the index is known
    to be in range, and \<open>mem_write\<close>, which fails with a \<open>c_error\<close>, where the program itself has to
    keep the index in range.
  \<^item> Failing code.  A step that the C standard leaves undefined, or that ends the process, is a
    value \<open>Inl e\<close> of \<open>c_error + 'a\<close>; \<open>rbind\<close> runs the continuation of a step that succeeded.

  The lemmas on loops, lists and exclusive or collected here carry the proofs of the components.
\<close>

unbundle bit_operations_syntax

type_synonym byte = "8 word"
type_synonym word32 = "32 word"

named_theorems c_loops \<open>unfolding of the counting loops with constant bounds\<close>
named_theorems xor_cancel \<open>cancellation in exclusive ors\<close>

section \<open>Failing code\<close>

datatype c_error =
    Out_of_bounds      \<comment> \<open>a read or a write outside the object a pointer points into\<close>
  | Null_pointer       \<comment> \<open>a null pointer is dereferenced\<close>
  | Uninitialised      \<comment> \<open>an indeterminate value is used\<close>
  | Overflow           \<comment> \<open>a signed operation leaves the range of its type\<close>
  | Division_by_zero   \<comment> \<open>the second operand of \<open>/\<close> or \<open>%\<close> is zero\<close>
  | Exhausted          \<comment> \<open>a loop has not ended on the inputs or the fuel it was given\<close>
  | Exit_failure       \<comment> \<open>the code calls \<open>exit(EXIT_FAILURE)\<close> or \<open>exit(1)\<close>\<close>
  | Dangling           \<comment> \<open>memory that has been freed is used\<close>
  | Broken_pipe        \<comment> \<open>a write to a connection that is gone ends the process with \<open>SIGPIPE\<close>\<close>

definition rbind :: "'e + 'a \<Rightarrow> ('a \<Rightarrow> 'e + 'b) \<Rightarrow> 'e + 'b" where
  "rbind r k = (case r of Inl e \<Rightarrow> Inl e | Inr x \<Rightarrow> k x)"

lemma rbind_simps [simp]:
  "rbind (Inl e) k = Inl e"
  "rbind (Inr x) k = k x"
  by (simp_all add: rbind_def)

lemma rbind_assoc: "rbind (rbind r f) g = rbind r (\<lambda>x. rbind (f x) g)"
  by (cases r) simp_all

lemma rbind_eq_Inr: "rbind r k = Inr y \<longleftrightarrow> (\<exists>x. r = Inr x \<and> k x = Inr y)"
  by (cases r) auto

lemma rbind_eq_Inl: "rbind r k = Inl e \<longleftrightarrow> r = Inl e \<or> (\<exists>x. r = Inr x \<and> k x = Inl e)"
  by (cases r) auto

lemma rbind_cong [fundef_cong]:
  "r = r' \<Longrightarrow> (\<And>x. r' = Inr x \<Longrightarrow> k x = k' x) \<Longrightarrow> rbind r k = rbind r' k'"
  by (cases r') simp_all

text \<open>A store through a pointer into an object of \<open>length xs\<close> elements.\<close>

definition mem_write :: "'a list \<Rightarrow> nat \<Rightarrow> 'a \<Rightarrow> c_error + 'a list" where
  "mem_write xs i v = (if i < length xs then Inr (xs[i := v]) else Inl Out_of_bounds)"

definition mem_read :: "'a list \<Rightarrow> nat \<Rightarrow> c_error + 'a" where
  "mem_read xs i = (if i < length xs then Inr (xs ! i) else Inl Out_of_bounds)"

text \<open>\<open>memcpy\<close> of \<open>src\<close> into an object, from \<open>off\<close> on; the part behind it stays.\<close>

definition memcpy_at :: "'a list \<Rightarrow> nat \<Rightarrow> 'a list \<Rightarrow> c_error + 'a list" where
  "memcpy_at xs off src =
    (if off + length src \<le> length xs then Inr (take off xs @ src @ drop (off + length src) xs)
     else Inl Out_of_bounds)"

section \<open>Counting loops\<close>

definition for_to :: "nat \<Rightarrow> nat \<Rightarrow> (nat \<Rightarrow> 's \<Rightarrow> 's) \<Rightarrow> 's \<Rightarrow> 's" where
  "for_to a b body s = fold body [a..<b] s"

definition for_down :: "nat \<Rightarrow> nat \<Rightarrow> (nat \<Rightarrow> 's \<Rightarrow> 's) \<Rightarrow> 's \<Rightarrow> 's" where
  "for_down a b body s = fold body (rev [b..<Suc a]) s"

lemma for_to_empty [simp]: "b \<le> a \<Longrightarrow> for_to a b body s = s"
  by (simp add: for_to_def)

lemma for_to_Suc: "a \<le> b \<Longrightarrow> for_to a (Suc b) body s = body b (for_to a b body s)"
  by (simp add: for_to_def)

lemma for_to_split:
  assumes "a \<le> b" and "b \<le> c"
  shows "for_to a c body s = for_to b c body (for_to a b body s)"
proof -
  have "[a..<c] = [a..<b] @ [b..<c]"
    using assms by (metis le_add_diff_inverse upt_add_eq_append)
  then show ?thesis by (simp add: for_to_def)
qed

lemma for_to_4 [c_loops]: "for_to 0 4 body s = body 3 (body 2 (body 1 (body 0 s)))"
  by (simp add: for_to_def upt_rec numeral_eq_Suc)

lemma for_to_8 [c_loops]:
  "for_to 0 8 body s = body 7 (body 6 (body 5 (body 4 (body 3 (body 2 (body 1 (body 0 s)))))))"
  by (simp add: for_to_def upt_rec numeral_eq_Suc)

lemma for_to_cong:
  assumes "\<And>i t. a \<le> i \<Longrightarrow> i < b \<Longrightarrow> body i t = body' i t"
  shows "for_to a b body s = for_to a b body' s"
  unfolding for_to_def by (rule fold_cong) (use assms in auto)

text \<open>An invariant of the body, indexed by the counter, is an invariant of the loop.\<close>

lemma for_to_invariant:
  assumes "a \<le> b" and "P a s"
    and "\<And>i t. a \<le> i \<Longrightarrow> i < b \<Longrightarrow> P i t \<Longrightarrow> P (Suc i) (body i t)"
  shows "P b (for_to a b body s)"
  using assms(1,3)
proof (induction b rule: dec_induct)
  case base
  then show ?case using assms(2) by simp
next
  case (step n)
  then show ?case by (simp add: for_to_Suc)
qed

lemma for_to_preserves:
  assumes "P s" and "\<And>i t. a \<le> i \<Longrightarrow> i < b \<Longrightarrow> P t \<Longrightarrow> P (body i t)"
  shows "P (for_to a b body s)"
proof (cases "a \<le> b")
  case True
  then show ?thesis
    using for_to_invariant [where P = "\<lambda>_. P", OF True] assms by blast
qed (simp add: assms)

text \<open>The same for a loop whose body can fail: no iteration fails, and the invariant holds at the end.\<close>

lemma for_to_succeeds:
  assumes "P 0 s" and "\<And>i t. i < n \<Longrightarrow> P i t \<Longrightarrow> \<exists>u. body i t = Inr u \<and> P (Suc i) u"
  shows "\<exists>u. for_to 0 n (\<lambda>i r. rbind r (body i)) (Inr s) = Inr u \<and> P n u"
  using assms
proof (induction n)
  case (Suc n)
  then obtain u where "for_to 0 n (\<lambda>i r. rbind r (body i)) (Inr s) = Inr u" "P n u" by fastforce
  then show ?case using Suc.prems(2) [of n u] by (auto simp: for_to_Suc)
qed simp

text \<open>Undoing the iterations of a loop one by one, last first, gives back its start state.\<close>

lemma fold_rev_undo:
  assumes "good s"
    and "\<And>i t. i \<in> set ks \<Longrightarrow> good t \<Longrightarrow> good (f i t)"
    and "\<And>i t. i \<in> set ks \<Longrightarrow> good t \<Longrightarrow> g i (f i t) = t"
  shows "fold g (rev ks) (fold f ks s) = s"
  using assms by (induction ks arbitrary: s) simp_all

lemma for_down_undo:
  assumes "good s"
    and "\<And>i t. b \<le> i \<Longrightarrow> i \<le> a \<Longrightarrow> good t \<Longrightarrow> good (f i t)"
    and "\<And>i t. b \<le> i \<Longrightarrow> i \<le> a \<Longrightarrow> good t \<Longrightarrow> g i (f i t) = t"
  shows "for_down a b g (for_to b (Suc a) f s) = s"
  unfolding for_down_def for_to_def
  by (rule fold_rev_undo [where good = good]) (use assms in auto)

lemma for_to_undo:
  assumes "good s"
    and "\<And>i t. b \<le> i \<Longrightarrow> i \<le> a \<Longrightarrow> good t \<Longrightarrow> good (g i t)"
    and "\<And>i t. b \<le> i \<Longrightarrow> i \<le> a \<Longrightarrow> good t \<Longrightarrow> f i (g i t) = t"
  shows "for_to b (Suc a) f (for_down a b g s) = s"
proof -
  have "fold f (rev (rev [b..<Suc a])) (fold g (rev [b..<Suc a]) s) = s"
    by (rule fold_rev_undo [where good = good]) (use assms in auto)
  then show ?thesis by (simp only: for_down_def for_to_def rev_rev_ident)
qed

text \<open>Arrays copied into, block by block: \<open>memcpy(out + i, src, n)\<close> with \<open>n = length src\<close>.\<close>

definition splice :: "'a list \<Rightarrow> nat \<Rightarrow> 'a list \<Rightarrow> 'a list" where
  "splice out i src = take i out @ src @ drop (i + length src) out"

lemma length_splice [simp]: "i + length src \<le> length out \<Longrightarrow> length (splice out i src) = length out"
  by (simp add: splice_def)

lemma for_to_splice:
  assumes "length out = n * k" and "\<And>i. i < n \<Longrightarrow> length (f i) = k"
  shows "for_to 0 n (\<lambda>i out. splice out (i * k) (f i)) out = concat (map f [0..<n])"
proof -
  have "m \<le> n \<Longrightarrow> for_to 0 m (\<lambda>i out. splice out (i * k) (f i)) out
      = concat (map f [0..<m]) @ drop (m * k) out" for m
  proof (induction m)
    case (Suc m)
    have "length (concat (map f [0..<m])) = m * k"
      using Suc.prems assms(2) by (induction m) auto
    then show ?case
      using Suc assms by (simp add: for_to_Suc splice_def add.commute)
  qed simp
  from this [of n] assms(1) show ?thesis by simp
qed

lemma upt_split: "i < n \<Longrightarrow> [0..<n] = [0..<i] @ i # [Suc i..<n]"
  using upt_add_eq_append [of 0 i "n - i"] by (simp add: upt_conv_Cons)

section \<open>Arrays written by loops\<close>

text \<open>A loop that stores \<open>f i\<close> at each index from \<open>a\<close> up fills that part of the array.\<close>

lemma for_to_fill:
  assumes "a \<le> b" and "b \<le> length xs"
  shows "for_to a b (\<lambda>i ys. ys[i := f i]) xs = take a xs @ map f [a..<b] @ drop b xs"
  using assms
proof (induction b)
  case 0
  then show ?case by simp
next
  case (Suc b)
  show ?case
  proof (cases "a = Suc b")
    case False
    then have "a \<le> b" using Suc.prems by simp
    then have "for_to a (Suc b) (\<lambda>i ys. ys[i := f i]) xs
        = (take a xs @ map f [a..<b] @ drop b xs)[b := f b]"
      using Suc by (simp add: for_to_Suc)
    also have "\<dots> = take a xs @ map f [a..<b] @ (drop b xs)[0 := f b]"
      using \<open>a \<le> b\<close> Suc.prems by (simp add: list_update_append)
    also have "(drop b xs)[0 := f b] = f b # drop (Suc b) xs"
      using Suc.prems by (simp add: Cons_nth_drop_Suc [symmetric])
    finally show ?thesis using \<open>a \<le> b\<close> by simp
  qed simp
qed

corollary for_to_fill_all:
  "length xs = n \<Longrightarrow> for_to 0 n (\<lambda>i ys. ys[i := f i]) xs = map f [0..<n]"
  by (simp add: for_to_fill)

text \<open>The same loop through a pointer \<open>off\<close> into an array, with every store checked.\<close>

abbreviation write_loop :: "nat \<Rightarrow> nat \<Rightarrow> nat \<Rightarrow> (nat \<Rightarrow> 'a) \<Rightarrow> 'a list \<Rightarrow> c_error + 'a list" where
  "write_loop off a b f xs \<equiv>
    for_to a b (\<lambda>i r. rbind r (\<lambda>ys. mem_write ys (off + i) (f i))) (Inr xs)"

lemma write_loop_ok:
  assumes "a \<le> b" and "off + b \<le> length xs"
  shows "write_loop off a b f xs
    = Inr (take (off + a) xs @ map f [a..<b] @ drop (off + b) xs)"
  using assms
proof (induction b rule: dec_induct)
  case (step b)
  have "drop (off + b) xs = xs ! (off + b) # drop (Suc (off + b)) xs"
    using step.prems by (simp add: Cons_nth_drop_Suc)
  then show ?case
    using step by (simp add: for_to_Suc mem_write_def list_update_append)
qed simp

lemma write_loop_overrun:
  assumes "a < b" and "length xs < off + b"
  shows "write_loop off a b f xs = Inl Out_of_bounds"
proof -
  obtain b' where b: "b = Suc b'" "a \<le> b'" using assms(1) by (cases b) auto
  have "(case for_to a b' (\<lambda>i r. rbind r (\<lambda>ys. mem_write ys (off + i) (f i))) (Inr xs) of
      Inl e \<Rightarrow> e = Out_of_bounds | Inr ys \<Rightarrow> length ys = length xs)"
    by (rule for_to_preserves) (auto simp: mem_write_def split: sum.splits)
  then show ?thesis
    using assms b by (auto simp: for_to_Suc mem_write_def split: sum.splits)
qed

lemma list_4_eq: "length xs = 4 \<Longrightarrow> xs = [xs ! 0, xs ! 1, xs ! 2, xs ! 3]"
  by (simp add: list_eq_iff_nth_eq numeral_eq_Suc nth_Cons split: nat.split)

lemma length_4_cases: "length xs = 4 \<Longrightarrow> \<exists>a b c d. xs = [a, b, c, d]"
  using list_4_eq by metis

section \<open>Bytes\<close>

lemmas xor_ac = xor.assoc xor.commute xor.left_commute

lemma xor_twice [simp, xor_cancel]:
  fixes a :: "'a::len word"
  shows "a XOR (a XOR b) = b" and "(b XOR a) XOR a = b"
  by (simp_all add: xor.assoc flip: xor.assoc [of a a])

lemma xor_cancel_left [xor_cancel]:
  fixes a :: "'a::len word"
  shows "a XOR b = a XOR c \<longleftrightarrow> b = c"
  by (metis xor_twice(1))

lemma unat_byte_less [simp]: "unat (x :: byte) < 256"
  using unsigned_less [of x] by simp

text \<open>Every byte is one of 256, so that a property of all bytes is checked by evaluation.\<close>

lemma all_bytesI:
  assumes "\<forall>i \<in> set [0..<256]. P (word_of_nat i :: byte)"
  shows "P x"
proof -
  have "unat x \<in> set [0..<256]" by simp
  with assms have "P (word_of_nat (unat x))" by blast
  then show ?thesis by simp
qed

text \<open>The exclusive or of a family of values, and how the accumulating loop computes it.\<close>

primrec xor_sum :: "('i \<Rightarrow> 'a::len word) \<Rightarrow> 'i list \<Rightarrow> 'a word" where
  "xor_sum F [] = 0"
| "xor_sum F (i # is) = F i XOR xor_sum F is"

lemma xor_sum_xor: "xor_sum (\<lambda>i. F i XOR G i) is = xor_sum F is XOR xor_sum G is"
  by (induction "is") (simp_all add: xor_ac)

lemma xor_sum_append: "xor_sum F (is @ js) = xor_sum F is XOR xor_sum F js"
  by (induction "is") (simp_all add: xor_ac)

lemma xor_sum_single:
  "distinct is \<Longrightarrow> xor_sum (\<lambda>i. if i = k then F i else 0) is = (if k \<in> set is then F k else 0)"
  by (induction "is") auto

lemma fold_xor_if:
  "fold (\<lambda>i r. if P i then r XOR F i else r) is r = r XOR xor_sum (\<lambda>i. if P i then F i else 0) is"
  by (induction "is" arbitrary: r) (simp_all add: xor_ac)

text \<open>
  A map on bytes that distributes over exclusive or is determined by its values on the eight bytes
  with a single bit: the evaluation of a linear identity needs eight cases, not 256.
\<close>

definition xor_linear :: "(byte \<Rightarrow> byte) \<Rightarrow> bool" where
  "xor_linear f \<longleftrightarrow> (\<forall>a b. f (a XOR b) = f a XOR f b)"

lemma xor_linearI: "(\<And>a b. f (a XOR b) = f a XOR f b) \<Longrightarrow> xor_linear f"
  by (simp add: xor_linear_def)

lemma xor_linearD: "xor_linear f \<Longrightarrow> f (a XOR b) = f a XOR f b"
  by (simp add: xor_linear_def)

lemma xor_linear_0: "xor_linear f \<Longrightarrow> f 0 = 0"
  using xor_linearD [of f 0 0] by simp

lemma xor_linear_id: "xor_linear (\<lambda>x. x)"
  by (simp add: xor_linear_def)

lemma xor_linear_const_0: "xor_linear (\<lambda>x. 0)"
  by (simp add: xor_linear_def)

lemma xor_linear_xor: "xor_linear f \<Longrightarrow> xor_linear g \<Longrightarrow> xor_linear (\<lambda>x. f x XOR g x)"
  by (simp add: xor_linear_def xor_ac)

lemma xor_linear_comp: "xor_linear f \<Longrightarrow> xor_linear g \<Longrightarrow> xor_linear (\<lambda>x. f (g x))"
  by (simp add: xor_linear_def)

lemmas xor_linear_intros = xor_linear_id xor_linear_const_0 xor_linear_xor xor_linear_comp

lemma take_bit_Suc_xor:
  "take_bit (Suc n) x = take_bit n x XOR (if bit x n then 2 ^ n else 0)"
  for x :: byte
  by (rule bit_eqI) (auto simp: bit_simps less_Suc_eq)

lemma xor_linear_eqI:
  assumes f: "xor_linear f" and g: "xor_linear g"
    and basis: "\<forall>k \<in> set [0..<8]. f (2 ^ k) = g (2 ^ k)"
  shows "f x = g x"
proof -
  have "n \<le> 8 \<Longrightarrow> f (take_bit n x) = g (take_bit n x)" for n
  proof (induction n)
    case 0
    then show ?case using f g by (simp add: xor_linear_0)
  next
    case (Suc n)
    then have "f (2 ^ n) = g (2 ^ n)" using basis by simp
    then show ?case
      using Suc f g by (simp add: take_bit_Suc_xor xor_linearD xor_linear_0)
  qed
  from this [of 8] show ?thesis by (simp add: take_bit_word_eq_self)
qed

end
