(* ===== verification/AES_Field.thy ===== *)
theory AES_Field
  imports C_Prelude
begin

text \<open>
  The byte arithmetic of \<^verbatim>\<open>cryptography/AES_Algo\<close>: the two versions of \<open>xtime\<close> (the one of
  aes_encrypt.c tests the top bit, the one of aes_decrypt.c multiplies by it) and the shift-and-add
  multiplication \<open>mul\<close> of aes_decrypt.c.  The reference is multiplication of polynomials over the
  two-element field modulo \<open>x^8 + x^4 + x^3 + x + 1\<close>, which the comments of both files name; the
  lemmas show that \<open>mul\<close> computes it and that the bytes form a field under it.
\<close>

section \<open>The code\<close>

definition xtime_enc :: "byte \<Rightarrow> byte" where
  "xtime_enc x = push_bit 1 x XOR (if x AND 0x80 \<noteq> 0 then 0x1B else 0x00)"

definition xtime_dec :: "byte \<Rightarrow> byte" where
  "xtime_dec x = push_bit 1 x XOR (drop_bit 7 x * 0x1b)"

definition mul_step :: "nat \<Rightarrow> byte \<times> byte \<times> byte \<Rightarrow> byte \<times> byte \<times> byte" where
  "mul_step i = (\<lambda>(a, b, result).
     let result = (if b AND 1 \<noteq> 0 then result XOR a else result);
         hi_bit = a AND 0x80;
         a = push_bit 1 a;
         a = (if hi_bit \<noteq> 0 then a XOR 0x1b else a);
         b = drop_bit 1 b
     in (a, b, result))"

definition mul :: "byte \<Rightarrow> byte \<Rightarrow> byte" where
  "mul a b = (case for_to 0 8 mul_step (a, b, 0) of (_, _, result) \<Rightarrow> result)"

section \<open>The reference: polynomials over GF(2) modulo \<open>0x11B\<close>\<close>

definition poly_product :: "byte \<Rightarrow> byte \<Rightarrow> 16 word" where
  "poly_product a b =
     fold (\<lambda>i p. if bit b i then p XOR push_bit i (ucast a) else p) [0..<8] 0"

definition poly_reduce :: "16 word \<Rightarrow> 16 word" where
  "poly_reduce p =
     fold (\<lambda>i p. if bit p (i + 8) then p XOR push_bit i 0x11B else p) (rev [0..<7]) p"

definition gf_mul :: "byte \<Rightarrow> byte \<Rightarrow> byte" where
  "gf_mul a b = ucast (poly_reduce (poly_product a b))"

section \<open>Linearity\<close>

lemma and_0x80_iff_bit: "(a :: byte) AND 0x80 \<noteq> 0 \<longleftrightarrow> bit a 7"
  using and_exp_eq_0_iff_not_bit [of a 7] by simp

lemma and_1_iff_bit: "(a :: byte) AND 1 \<noteq> 0 \<longleftrightarrow> bit a 0"
  using and_exp_eq_0_iff_not_bit [of a 0] by simp

lemma xtime_enc_linear: "xor_linear xtime_enc"
  by (rule xor_linearI) (auto simp: xtime_enc_def and_0x80_iff_bit bit_xor_iff push_bit_xor xor_ac)

lemma mul_step_xtime:
  "mul_step i (a, b, r) = (xtime_enc a, drop_bit 1 b, if bit b 0 then r XOR a else r)"
  by (simp add: mul_step_def xtime_enc_def and_0x80_iff_bit and_1_iff_bit Let_def)

lemma mul_unfold: "mul a b = xor_sum (\<lambda>i. if bit b i then (xtime_enc ^^ i) a else 0) [0..<8]"
proof -
  have "fold mul_step [0..<n] (a, b, 0)
      = ((xtime_enc ^^ n) a, drop_bit n b,
         fold (\<lambda>i r. if bit b i then r XOR (xtime_enc ^^ i) a else r) [0..<n] 0)" for n
    by (induction n) (simp_all add: mul_step_xtime bit_drop_bit_eq add.commute)
  then show ?thesis by (simp add: mul_def for_to_def fold_xor_if)
qed

lemma xtime_enc_funpow_linear: "xor_linear (xtime_enc ^^ n)"
  using xtime_enc_linear by (induction n) (auto simp: xor_linear_def)

lemma mul_linear_right: "xor_linear (mul a)"
proof (rule xor_linearI)
  fix b c :: byte
  have "(\<lambda>i. if bit (b XOR c) i then (xtime_enc ^^ i) a else 0)
      = (\<lambda>i. (if bit b i then (xtime_enc ^^ i) a else 0)
           XOR (if bit c i then (xtime_enc ^^ i) a else 0))"
    by (auto simp: bit_xor_iff)
  then show "mul a (b XOR c) = mul a b XOR mul a c"
    by (simp add: mul_unfold xor_sum_xor)
qed

lemma mul_linear_left: "xor_linear (\<lambda>a. mul a b)"
proof (rule xor_linearI)
  fix a c :: byte
  have "(\<lambda>i. if bit b i then (xtime_enc ^^ i) (a XOR c) else 0)
      = (\<lambda>i. (if bit b i then (xtime_enc ^^ i) a else 0)
           XOR (if bit b i then (xtime_enc ^^ i) c else 0))"
    by (auto simp: xtime_enc_funpow_linear [THEN xor_linearD])
  then show "mul (a XOR c) b = mul a b XOR mul c b"
    by (simp add: mul_unfold xor_sum_xor)
qed

lemma xtime_dec_linear: "xor_linear xtime_dec"
proof (rule xor_linearI)
  fix a b :: byte
  have top: "drop_bit 7 x = (if bit x 7 then 1 else 0)" for x :: byte
  proof (rule bit_eqI)
    fix n
    show "bit (drop_bit 7 x) n = bit (if bit x 7 then 1 else 0 :: byte) n"
      using bit_imp_le_length [of x "7 + n"] by (cases n) (auto simp: bit_simps bit_1_iff)
  qed
  show "xtime_dec (a XOR b) = xtime_dec a XOR xtime_dec b"
    by (auto simp: xtime_dec_def top bit_xor_iff push_bit_xor xor_ac)
qed

lemma poly_product_unfold:
  "poly_product a b = xor_sum (\<lambda>i. if bit b i then push_bit i (ucast a) else 0) [0..<8]"
  by (simp add: poly_product_def fold_xor_if)

text \<open>Evaluation at the bytes of one bit.\<close>

lemmas mul_eval = mul_def c_loops mul_step_def Let_def

lemma bit_basis: "[0..<8] = [0, 1, 2, 3, 4, 5, 6, 7 :: nat]"
  by (simp add: upt_rec numeral_eq_Suc)

text \<open>The tables and tests of the two programs differ, their \<open>xtime\<close> does not.\<close>

lemma xtime_dec_eq_enc: "xtime_dec x = xtime_enc x"
  by (rule xor_linear_eqI [OF xtime_dec_linear xtime_enc_linear])
    (simp add: bit_basis xtime_enc_def xtime_dec_def)

lemma poly_product_xor_right: "poly_product a (b XOR c) = poly_product a b XOR poly_product a c"
proof -
  have "(\<lambda>i. if bit (b XOR c) i then push_bit i (ucast a) else (0 :: 16 word))
      = (\<lambda>i. (if bit b i then push_bit i (ucast a) else 0)
           XOR (if bit c i then push_bit i (ucast a) else 0))"
    by (auto simp: bit_xor_iff)
  then show ?thesis by (simp add: poly_product_unfold xor_sum_xor)
qed

lemma poly_product_xor_left: "poly_product (a XOR c) b = poly_product a b XOR poly_product c b"
proof -
  have "(\<lambda>i. if bit b i then push_bit i (ucast (a XOR c)) else (0 :: 16 word))
      = (\<lambda>i. (if bit b i then push_bit i (ucast a) else 0)
           XOR (if bit b i then push_bit i (ucast c) else 0))"
    by (auto simp: unsigned_xor_eq push_bit_xor)
  then show ?thesis by (simp add: poly_product_unfold xor_sum_xor)
qed

lemma poly_reduce_xor: "poly_reduce (p XOR q) = poly_reduce p XOR poly_reduce q"
proof -
  have "fold (\<lambda>i p. if bit p (i + 8) then p XOR push_bit i 0x11B else p) is (p XOR q)
      = fold (\<lambda>i p. if bit p (i + 8) then p XOR push_bit i 0x11B else p) is p
        XOR fold (\<lambda>i p. if bit p (i + 8) then p XOR push_bit i 0x11B else p) is q"
    for "is" and p q :: "16 word"
  proof (induction "is" arbitrary: p q)
    case (Cons i "is")
    have "(if bit (p XOR q) (i + 8) then (p XOR q) XOR push_bit i 0x11B else p XOR q)
        = (if bit p (i + 8) then p XOR push_bit i 0x11B else p)
          XOR (if bit q (i + 8) then q XOR push_bit i 0x11B else q)"
      by (auto simp: bit_xor_iff xor_ac)
    then show ?case using Cons by simp
  qed simp
  then show ?thesis by (simp add: poly_reduce_def)
qed

lemma gf_mul_linear_right: "xor_linear (gf_mul a)"
  by (simp add: xor_linear_def gf_mul_def poly_product_xor_right poly_reduce_xor unsigned_xor_eq)

lemma gf_mul_linear_left: "xor_linear (\<lambda>a. gf_mul a b)"
  by (simp add: xor_linear_def gf_mul_def poly_product_xor_left poly_reduce_xor unsigned_xor_eq)

lemma xor_bilinear_eqI:
  assumes "\<And>a. xor_linear (F a)" and "\<And>b. xor_linear (\<lambda>a. F a b)"
    and "\<And>a. xor_linear (G a)" and "\<And>b. xor_linear (\<lambda>a. G a b)"
    and "\<And>j k. j < 8 \<Longrightarrow> k < 8 \<Longrightarrow> F (2 ^ j) (2 ^ k) = G (2 ^ j) (2 ^ k)"
  shows "F a b = G a b"
proof (rule xor_linear_eqI [OF assms(2,4)], intro ballI)
  fix j :: nat assume "j \<in> set [0..<8]"
  then show "F (2 ^ j) b = G (2 ^ j) b"
    using assms(5) by (intro xor_linear_eqI [OF assms(1,3)]) simp
qed

text \<open>
  On the bytes of one bit both products are powers of \<open>xtime\<close>, so that fourteen evaluations settle
  that \<open>mul\<close> is the reference.
\<close>

lemma bit_byte_exp: "k < 8 \<Longrightarrow> bit (2 ^ k :: byte) i \<longleftrightarrow> i = k"
  by (auto simp: bit_simps)

lemma mul_exp: "k < 8 \<Longrightarrow> mul a (2 ^ k) = (xtime_enc ^^ k) a"
  by (simp add: mul_unfold bit_byte_exp xor_sum_single)

lemma poly_product_exp: "k < 8 \<Longrightarrow> poly_product a (2 ^ k) = push_bit k (ucast a)"
  by (simp add: poly_product_unfold bit_byte_exp xor_sum_single)

lemma upt_14: "[0..<14] = [0, 1, 2, 3, 4, 5, 6, 7, 8, 9, 10, 11, 12, 13 :: nat]"
  by (simp add: upt_rec numeral_eq_Suc)

lemma rev_upt_7: "rev [0..<7] = [6, 5, 4, 3, 2, 1, 0 :: nat]"
  by (simp add: upt_rec numeral_eq_Suc)

lemma poly_reduce_step:
  "\<forall>n \<in> set [0..<14]. xtime_enc (ucast (poly_reduce (2 ^ n))) = ucast (poly_reduce (2 ^ (n + 1)))"
  by (simp add: upt_14 poly_reduce_def rev_upt_7 xtime_enc_def)

lemma xtime_enc_powers: "n \<le> 14 \<Longrightarrow> (xtime_enc ^^ n) 1 = ucast (poly_reduce (2 ^ n))"
proof (induction n)
  case 0
  then show ?case by (simp add: poly_reduce_def rev_upt_7)
next
  case (Suc n)
  then have "n \<in> set [0..<14]" by simp
  then show ?case using Suc poly_reduce_step by auto
qed

lemma xtime_enc_exp: "j < 8 \<Longrightarrow> (xtime_enc ^^ j) 1 = 2 ^ j"
proof (induction j)
  case (Suc j)
  then have "bit (2 ^ j :: byte) 7 = False" by (simp add: bit_byte_exp)
  then show ?case using Suc by (simp add: xtime_enc_def and_0x80_iff_bit)
qed simp

lemma ucast_exp: "j < 8 \<Longrightarrow> (ucast (2 ^ j :: byte) :: 16 word) = 2 ^ j"
  by (rule bit_eqI) (auto simp: bit_simps)

lemma mul_exp_exp: "j < 8 \<Longrightarrow> k < 8 \<Longrightarrow> mul (2 ^ j) (2 ^ k) = (xtime_enc ^^ (k + j)) 1"
  by (simp add: mul_exp xtime_enc_exp funpow_add)

lemma mul_is_gf_mul: "mul a b = gf_mul a b"
proof (rule xor_bilinear_eqI [OF mul_linear_right mul_linear_left gf_mul_linear_right gf_mul_linear_left])
  fix j k :: nat
  assume jk: "j < 8" "k < 8"
  have "mul (2 ^ j) (2 ^ k) = (xtime_enc ^^ (k + j)) 1"
    by (rule mul_exp_exp [OF jk])
  also have "\<dots> = ucast (poly_reduce (2 ^ (k + j)))"
    using jk by (intro xtime_enc_powers) simp
  also have "2 ^ (k + j) = poly_product (2 ^ j) (2 ^ k)"
    using jk by (simp add: poly_product_exp push_bit_eq_mult power_add mult.commute ucast_exp)
  finally show "mul (2 ^ j) (2 ^ k) = gf_mul (2 ^ j) (2 ^ k)"
    by (simp add: gf_mul_def)
qed

section \<open>The laws of the field\<close>

lemma mul_commute: "mul a b = mul b a"
  by (rule xor_bilinear_eqI [OF mul_linear_right mul_linear_left mul_linear_left mul_linear_right])
    (simp add: mul_exp_exp add.commute)

lemma mul_0 [simp]: "mul a 0 = 0" "mul 0 a = 0"
  using xor_linear_0 [OF mul_linear_right] xor_linear_0 [OF mul_linear_left] by simp_all

lemma mul_1 [simp]: "mul a 1 = a" "mul 1 a = a"
proof -
  show "mul a 1 = a" using mul_exp [of 0 a] by simp
  then show "mul 1 a = a" by (simp add: mul_commute)
qed

lemma mul_xtime_left: "mul (xtime_enc a) b = xtime_enc (mul a b)"
proof (rule xor_linear_eqI [OF mul_linear_right xor_linear_comp [OF xtime_enc_linear mul_linear_right]])
  show "\<forall>k \<in> set [0..<8]. mul (xtime_enc a) (2 ^ k) = xtime_enc (mul a (2 ^ k))"
    by (simp add: mul_exp funpow_swap1)
qed

lemma mul_funpow_left: "mul ((xtime_enc ^^ n) a) b = (xtime_enc ^^ n) (mul a b)"
  by (induction n) (simp_all add: mul_xtime_left)

lemma mul_assoc: "mul (mul a b) c = mul a (mul b c)"
proof (rule xor_linear_eqI [OF mul_linear_right xor_linear_comp [OF mul_linear_right mul_linear_right]])
  show "\<forall>k \<in> set [0..<8]. mul (mul a b) (2 ^ k) = mul a (mul b (2 ^ k))"
  proof
    fix k :: nat assume "k \<in> set [0..<8]"
    then have "mul (mul a b) (2 ^ k) = (xtime_enc ^^ k) (mul b a)"
      and "mul b (2 ^ k) = (xtime_enc ^^ k) b"
      by (simp_all add: mul_exp mul_commute)
    then show "mul (mul a b) (2 ^ k) = mul a (mul b (2 ^ k))"
      using mul_funpow_left [of k b a] by (simp add: mul_commute [of a])
  qed
qed

text \<open>\<open>xtime\<close> is multiplication by \<open>2\<close>, and \<open>3 x = 2 x + x\<close>: the products MixColumns needs.\<close>

lemma mul_2: "mul 2 x = xtime_enc x"
  using mul_exp [of 1 x] by (simp add: mul_commute)

lemma mul_3: "mul 3 x = xtime_enc x XOR x"
  using xor_linearD [OF mul_linear_left, of 2 1 x] by (simp add: mul_2)

text \<open>Multiplication by a literal, bit by bit: the evaluation rules for concrete products.\<close>

lemma mul_double: "b < 128 \<Longrightarrow> mul a (2 * b) = xtime_enc (mul a b)"
proof -
  assume "b < 128"
  then have "\<not> bit b 7" by (simp add: bit_iff_odd div_word_less)
  then have "xtime_enc b = 2 * b" by (simp add: xtime_enc_def and_0x80_iff_bit push_bit_eq_mult)
  then show ?thesis using mul_xtime_left [of b a] by (simp add: mul_commute)
qed

lemma mul_Bit0:
  assumes "(numeral n :: byte) < 128"
  shows "mul a (numeral (Num.Bit0 n)) = xtime_enc (mul a (numeral n))"
proof -
  have "numeral (Num.Bit0 n) = 2 * (numeral n :: byte)"
    by (rule numeral_Bit0_eq_double)
  then show ?thesis using mul_double [OF assms] by metis
qed

lemma mul_Bit1:
  assumes "(numeral n :: byte) < 128"
  shows "mul a (numeral (Num.Bit1 n)) = xtime_enc (mul a (numeral n)) XOR a"
proof -
  have "(2 * numeral n :: byte) XOR 1 = 2 * numeral n + 1"
    by (simp only: xor_one_eq) simp
  also have "\<dots> = numeral (Num.Bit1 n)"
    by (simp only: numeral_Bit1_eq_inc_double)
  finally show ?thesis
    using mul_double [OF assms, of a] xor_linearD [OF mul_linear_right, of a "2 * numeral n" 1]
    by (metis mul_1(1))
qed

lemmas mul_literal = mul_Bit0 mul_Bit1 xtime_enc_def

section \<open>The result\<close>

text \<open>The shift-and-add loop \<open>mul\<close> of \<^verbatim>\<open>aes_decrypt.c\<close> (and with it the two \<open>xtime\<close> functions, which
  agree) computes the product of polynomials over GF(2) modulo \<open>x^8 + x^4 + x^3 + x + 1\<close>, for every
  pair of bytes.\<close>

theorem mul_computes_product:
  "mul a b = gf_mul a b \<and> xtime_enc a = gf_mul 2 a \<and> xtime_dec a = gf_mul 2 a"
  by (simp add: mul_2 xtime_dec_eq_enc flip: mul_is_gf_mul)

end
