(* ===== verification/AES_Key.thy ===== *)
theory AES_Key
  imports AES_Field "HOL-Library.Char_ord"
begin

text \<open>
  The key schedule: \<^verbatim>\<open>cryptography/AES_Algo/key_expansion.c\<close>, whose functions aes_encrypt.c repeats
  word for word.  The hexadecimal key string is turned into sixteen bytes (\<open>hex_char_to_int\<close>,
  \<open>hex_byte\<close>) and \<open>KeyExpansion\<close> fills the array of 44 words in place.  In C the shifts
  \<open>key_bytes[4 * i] << 24\<close> are on \<open>int\<close>; they are modelled on 32 bits, as the compilers the
  repository names evaluate them.
\<close>

section \<open>Tables\<close>

definition sbox_rows :: "byte list list" where
  "sbox_rows =
  [[0x63, 0x7c, 0x77, 0x7b, 0xf2, 0x6b, 0x6f, 0xc5, 0x30, 0x01, 0x67, 0x2b, 0xfe, 0xd7, 0xab, 0x76],
   [0xca, 0x82, 0xc9, 0x7d, 0xfa, 0x59, 0x47, 0xf0, 0xad, 0xd4, 0xa2, 0xaf, 0x9c, 0xa4, 0x72, 0xc0],
   [0xb7, 0xfd, 0x93, 0x26, 0x36, 0x3f, 0xf7, 0xcc, 0x34, 0xa5, 0xe5, 0xf1, 0x71, 0xd8, 0x31, 0x15],
   [0x04, 0xc7, 0x23, 0xc3, 0x18, 0x96, 0x05, 0x9a, 0x07, 0x12, 0x80, 0xe2, 0xeb, 0x27, 0xb2, 0x75],
   [0x09, 0x83, 0x2c, 0x1a, 0x1b, 0x6e, 0x5a, 0xa0, 0x52, 0x3b, 0xd6, 0xb3, 0x29, 0xe3, 0x2f, 0x84],
   [0x53, 0xd1, 0x00, 0xed, 0x20, 0xfc, 0xb1, 0x5b, 0x6a, 0xcb, 0xbe, 0x39, 0x4a, 0x4c, 0x58, 0xcf],
   [0xd0, 0xef, 0xaa, 0xfb, 0x43, 0x4d, 0x33, 0x85, 0x45, 0xf9, 0x02, 0x7f, 0x50, 0x3c, 0x9f, 0xa8],
   [0x51, 0xa3, 0x40, 0x8f, 0x92, 0x9d, 0x38, 0xf5, 0xbc, 0xb6, 0xda, 0x21, 0x10, 0xff, 0xf3, 0xd2],
   [0xcd, 0x0c, 0x13, 0xec, 0x5f, 0x97, 0x44, 0x17, 0xc4, 0xa7, 0x7e, 0x3d, 0x64, 0x5d, 0x19, 0x73],
   [0x60, 0x81, 0x4f, 0xdc, 0x22, 0x2a, 0x90, 0x88, 0x46, 0xee, 0xb8, 0x14, 0xde, 0x5e, 0x0b, 0xdb],
   [0xe0, 0x32, 0x3a, 0x0a, 0x49, 0x06, 0x24, 0x5c, 0xc2, 0xd3, 0xac, 0x62, 0x91, 0x95, 0xe4, 0x79],
   [0xe7, 0xc8, 0x37, 0x6d, 0x8d, 0xd5, 0x4e, 0xa9, 0x6c, 0x56, 0xf4, 0xea, 0x65, 0x7a, 0xae, 0x08],
   [0xba, 0x78, 0x25, 0x2e, 0x1c, 0xa6, 0xb4, 0xc6, 0xe8, 0xdd, 0x74, 0x1f, 0x4b, 0xbd, 0x8b, 0x8a],
   [0x70, 0x3e, 0xb5, 0x66, 0x48, 0x03, 0xf6, 0x0e, 0x61, 0x35, 0x57, 0xb9, 0x86, 0xc1, 0x1d, 0x9e],
   [0xe1, 0xf8, 0x98, 0x11, 0x69, 0xd9, 0x8e, 0x94, 0x9b, 0x1e, 0x87, 0xe9, 0xce, 0x55, 0x28, 0xdf],
   [0x8c, 0xa1, 0x89, 0x0d, 0xbf, 0xe6, 0x42, 0x68, 0x41, 0x99, 0x2d, 0x0f, 0xb0, 0x54, 0xbb, 0x16]]"

definition sbox :: "byte list" where
  "sbox = concat sbox_rows"

definition rcon :: "word32 list" where
  "rcon = [0x00000000,
    0x01000000, 0x02000000, 0x04000000, 0x08000000,
    0x10000000, 0x20000000, 0x40000000, 0x80000000,
    0x1b000000, 0x36000000]"

section \<open>Code\<close>

definition hex_char_to_int :: "char \<Rightarrow> byte" where
  "hex_char_to_int c =
    (if CHR ''0'' \<le> c \<and> c \<le> CHR ''9'' then of_char c - of_char CHR ''0''
     else if CHR ''A'' \<le> c \<and> c \<le> CHR ''F'' then of_char c - of_char CHR ''A'' + 10
     else if CHR ''a'' \<le> c \<and> c \<le> CHR ''f'' then of_char c - of_char CHR ''a'' + 10
     else 0)"

definition hex_byte :: "string \<Rightarrow> byte" where
  "hex_byte hex = push_bit 4 (hex_char_to_int (hex ! 0)) OR hex_char_to_int (hex ! 1)"

definition RotWord :: "word32 \<Rightarrow> word32" where
  "RotWord w =
    (let leftShift = push_bit 8 w;
         rightShift = drop_bit 24 w
     in leftShift OR rightShift)"

definition SubWord :: "word32 \<Rightarrow> word32" where
  "SubWord w =
     push_bit 24 (ucast (sbox ! unat (drop_bit 24 w AND 0xFF))) OR
     push_bit 16 (ucast (sbox ! unat (drop_bit 16 w AND 0xFF))) OR
     push_bit 8 (ucast (sbox ! unat (drop_bit 8 w AND 0xFF))) OR
     ucast (sbox ! unat (w AND 0xFF))"

definition key_word :: "byte list \<Rightarrow> nat \<Rightarrow> word32" where
  "key_word key_bytes i =
     push_bit 24 (ucast (key_bytes ! (4 * i))) OR
     push_bit 16 (ucast (key_bytes ! (4 * i + 1))) OR
     push_bit 8 (ucast (key_bytes ! (4 * i + 2))) OR
     ucast (key_bytes ! (4 * i + 3))"

definition expand_step :: "nat \<Rightarrow> word32 list \<Rightarrow> word32 list" where
  "expand_step i words =
    (let temp = words ! (i - 1);
         temp = (if i mod 4 = 0 then SubWord (RotWord temp) XOR rcon ! (i div 4) else temp)
     in words[i := words ! (i - 4) XOR temp])"

definition KeyExpansion :: "word32 list \<Rightarrow> byte list \<Rightarrow> word32 list" where
  "KeyExpansion words key_bytes =
     for_to 4 44 expand_step
       (for_to 0 4 (\<lambda>i words. words[i := key_word key_bytes i]) words)"

text \<open>The loop of both \<open>main\<close> functions that converts the 32 digits of the key.\<close>

definition read_key_bytes :: "string \<Rightarrow> byte list" where
  "read_key_bytes input_key =
     for_to 0 16 (\<lambda>i key_bytes. key_bytes[i := hex_byte (drop (i * 2) input_key)]) (replicate 16 0)"

section \<open>Lookup\<close>

lemma nth_concat_16:
  assumes "list_all (\<lambda>r. length r = 16) rows" and "n < 16 * length rows"
  shows "concat rows ! n = rows ! (n div 16) ! (n mod 16)"
  using assms
proof (induction rows arbitrary: n)
  case (Cons r rows)
  show ?case
  proof (cases "n < 16")
    case False
    then have "concat (r # rows) ! n = concat rows ! (n - 16)"
      using Cons.prems by (simp add: nth_append)
    also have "\<dots> = rows ! ((n - 16) div 16) ! ((n - 16) mod 16)"
      using Cons False by auto
    finally show ?thesis using False by (simp add: le_div_geq le_mod_geq)
  qed (use Cons in \<open>simp add: nth_append\<close>)
qed simp

lemma sbox_nth: "n < 256 \<Longrightarrow> sbox ! n = sbox_rows ! (n div 16) ! (n mod 16)"
  unfolding sbox_def by (rule nth_concat_16) (simp_all add: sbox_rows_def)

lemmas sbox_eval = sbox_nth sbox_rows_def

lemma length_sbox: "length sbox = 256"
  by (simp add: sbox_def sbox_rows_def)

section \<open>Words and their bytes\<close>

definition word_byte :: "word32 \<Rightarrow> nat \<Rightarrow> byte" where
  "word_byte w k = ucast (drop_bit (8 * k) w)"

lemma and_0xFF: "v AND 0xFF = take_bit 8 v" for v :: word32
  using take_bit_eq_mask [of 8 v] by (simp add: mask_numeral)

lemma mask_byte: "unat (v AND 0xFF) = unat (ucast v :: byte)" for v :: word32
  by (simp add: and_0xFF unsigned_take_bit_eq unsigned_ucast_eq)

lemma ucast_and_0xFF [simp]: "(ucast (v AND 0xFF) :: byte) = ucast v" for v :: word32
  unfolding and_0xFF by (rule bit_eqI) (auto simp: bit_simps)

definition pack_word :: "byte \<Rightarrow> byte \<Rightarrow> byte \<Rightarrow> byte \<Rightarrow> word32" where
  "pack_word a b c d =
     push_bit 24 (ucast a) OR push_bit 16 (ucast b) OR push_bit 8 (ucast c) OR ucast d"

lemma word_byte_pack:
  "word_byte (pack_word a b c d) 3 = a" "word_byte (pack_word a b c d) 2 = b"
  "word_byte (pack_word a b c d) (Suc 0) = c" "word_byte (pack_word a b c d) 0 = d"
  unfolding word_byte_def pack_word_def
  by (rule bit_eqI; auto simp: bit_simps dest: bit_imp_le_length)+

lemma word_bytes_eqI:
  assumes "\<And>k. k < 4 \<Longrightarrow> word_byte v k = word_byte w k"
  shows "v = w"
proof (rule bit_word_eqI)
  fix n assume "n < LENGTH(32)"
  then have "n div 8 < 4" by simp
  then have "bit (word_byte v (n div 8)) (n mod 8) = bit (word_byte w (n div 8)) (n mod 8)"
    using assms by simp
  then show "bit v n = bit w n"
    by (simp add: word_byte_def bit_simps)
qed

text \<open>The two shifts of \<open>RotWord\<close> are a rotation by one byte.\<close>

lemma RotWord_is_rotation: "RotWord w = word_rotl 8 w"
proof (rule bit_word_eqI)
  fix n assume "n < LENGTH(32)"
  then have n: "n < 32" by simp
  have "(n + 24) mod 32 = (if n < 8 then n + 24 else n - 8)"
    using n by (simp add: mod_if)
  moreover have "bit w (24 + n) = False" if "8 \<le> n"
    using bit_imp_le_length [of w "24 + n"] that by auto
  ultimately show "bit (RotWord w) n = bit (word_rotl 8 w) n"
    using n by (auto simp: RotWord_def Let_def bit_simps bit_word_rotl_iff add.commute)
qed

lemma SubWord_pack:
  "SubWord w = pack_word (sbox ! unat (word_byte w 3)) (sbox ! unat (word_byte w 2))
     (sbox ! unat (word_byte w 1)) (sbox ! unat (word_byte w 0))"
  by (simp add: SubWord_def pack_word_def word_byte_def mask_byte)

lemma SubWord_bytewise:
  assumes "k < 4"
  shows "word_byte (SubWord w) k = sbox ! unat (word_byte w k)"
proof -
  from assms consider "k = 0" | "k = 1" | "k = 2" | "k = 3" by linarith
  then show ?thesis by cases (simp_all add: SubWord_pack word_byte_pack)
qed

section \<open>What \<open>KeyExpansion\<close> computes\<close>

definition key_schedule :: "byte list \<Rightarrow> word32 list \<Rightarrow> bool" where
  "key_schedule key_bytes w \<longleftrightarrow>
     length w = 44 \<and>
     (\<forall>i < 4. w ! i = key_word key_bytes i) \<and>
     (\<forall>i \<in> {4..<44}. w ! i = w ! (i - 4) XOR
        (if i mod 4 = 0 then SubWord (RotWord (w ! (i - 1))) XOR rcon ! (i div 4) else w ! (i - 1)))"

lemma length_expand_step [simp]: "length (expand_step i words) = length words"
  by (simp add: expand_step_def Let_def)

lemma KeyExpansion_correct:
  assumes "length words = 44"
  shows "key_schedule key_bytes (KeyExpansion words key_bytes)"
proof -
  let ?w0 = "for_to 0 4 (\<lambda>i words. words[i := key_word key_bytes i]) words"
  let ?next = "\<lambda>w i. w ! (i - 4) XOR
    (if i mod 4 = 0 then SubWord (RotWord (w ! (i - 1))) XOR rcon ! (i div 4) else w ! (i - 1))"
  have w0: "?w0 = map (key_word key_bytes) [0..<4] @ drop 4 words"
    using assms by (simp add: for_to_fill)
  define P where "P n w \<longleftrightarrow> length w = 44 \<and> (\<forall>i < 4. w ! i = key_word key_bytes i) \<and>
    (\<forall>i \<in> {4..<n}. w ! i = ?next w i)" for n and w :: "word32 list"
  have "P 44 (for_to 4 44 expand_step ?w0)"
  proof (rule for_to_invariant)
    show "P 4 ?w0" using assms by (simp add: P_def w0 nth_append)
    fix i t assume i: "4 \<le> i" "i < 44" and "P i t"
    then have t: "length t = 44" "\<And>j. j < 4 \<Longrightarrow> t ! j = key_word key_bytes j"
      "\<And>j. 4 \<le> j \<Longrightarrow> j < i \<Longrightarrow> t ! j = ?next t j"
      by (auto simp: P_def)
    have step: "expand_step i t = t[i := ?next t i]"
      by (simp add: expand_step_def Let_def)
    show "P (Suc i) (expand_step i t)"
      unfolding P_def step
    proof (intro conjI allI impI ballI)
      fix j assume "j \<in> {4..<Suc i}"
      then consider "j = i" | "4 \<le> j" "j < i" by force
      then show "t[i := ?next t i] ! j = ?next (t[i := ?next t i]) j"
        by cases (use i t(1) t(3) [of j] in \<open>simp_all only: length_list_update nth_list_update_eq nth_list_update_neq; force\<close>)+
    qed (use i t in auto)
  qed simp
  then show ?thesis by (auto simp: P_def key_schedule_def KeyExpansion_def)
qed

lemma key_schedule_unique:
  assumes "key_schedule k v" and "key_schedule k w"
  shows "v = w"
proof (rule nth_equalityI)
  show "length v = length w" using assms by (simp add: key_schedule_def)
  fix i assume "i < length v"
  then have "i < 44" using assms by (simp add: key_schedule_def)
  then show "v ! i = w ! i"
  proof (induction i rule: less_induct)
    case (less i)
    show ?case
    proof (cases "i < 4")
      case True
      then show ?thesis using assms by (simp add: key_schedule_def)
    next
      case False
      then have "v ! (i - 4) = w ! (i - 4)" "v ! (i - 1) = w ! (i - 1)"
        using less by auto
      then show ?thesis using assms False less.prems by (simp add: key_schedule_def)
    qed
  qed
qed

lemma KeyExpansion_unique_lemma:
  assumes "length words = 44"
  shows "key_schedule key_bytes w \<longleftrightarrow> KeyExpansion words key_bytes = w"
  using KeyExpansion_correct [OF assms] key_schedule_unique by blast

text \<open>The first four words of the schedule are the bytes of the key, so no two keys share one.\<close>

lemma key_word_pack: "key_word k i =
    pack_word (k ! (4 * i)) (k ! (4 * i + 1)) (k ! (4 * i + 2)) (k ! (4 * i + 3))"
  by (simp add: key_word_def pack_word_def)

lemma key_word_byte: "j < 4 \<Longrightarrow> word_byte (key_word k i) (3 - j) = k ! (4 * i + j)"
proof -
  assume "j < 4"
  then consider "j = 0" | "j = 1" | "j = 2" | "j = 3" by linarith
  then show ?thesis by cases (simp_all add: key_word_pack word_byte_pack)
qed

lemma key_schedule_first: "key_schedule k w \<Longrightarrow> i < 4 \<Longrightarrow> w ! i = key_word k i"
  by (simp add: key_schedule_def)

text \<open>C38: The two loops of \<open>KeyExpansion\<close> compute the key schedule of AES-128, the one array of 44 words
  whose first four hold the key and whose later ones satisfy the recurrence with \<open>RotWord\<close>, \<open>SubWord\<close>
  and \<open>rcon\<close>, whatever the array held before.\<close>

theorem KeyExpansion_unique:
  assumes "length words = 44"
  shows "key_schedule key_bytes w \<longleftrightarrow> KeyExpansion words key_bytes = w"
  by (rule KeyExpansion_unique_lemma [OF assms])

theorem KeyExpansion_unique_witness:
  "key_schedule (replicate 16 1) (KeyExpansion (replicate 44 0) (replicate 16 1))"
  using KeyExpansion_unique [of "replicate 44 0" "replicate 16 1"] by simp

text \<open>No two keys have the same key schedule.\<close>

theorem KeyExpansion_injective:
  assumes "length words = 44" and "length words' = 44" and "length k = 16" and "length k' = 16"
    and eq: "KeyExpansion words k = KeyExpansion words' k'"
  shows "k = k'"
proof (rule nth_equalityI)
  fix n assume "n < length k"
  then have n: "n < 16" using assms by simp
  have "KeyExpansion words k ! (n div 4) = key_word k (n div 4)"
    "KeyExpansion words' k' ! (n div 4) = key_word k' (n div 4)"
    using n KeyExpansion_correct [OF assms(1), of k] KeyExpansion_correct [OF assms(2), of k']
    by (simp_all add: key_schedule_first less_mult_imp_div_less)
  with eq have "word_byte (key_word k (n div 4)) (3 - n mod 4)
      = word_byte (key_word k' (n div 4)) (3 - n mod 4)" by simp
  then show "k ! n = k' ! n" by (simp add: key_word_byte)
qed (use assms in simp)

theorem KeyExpansion_injective_witness:
  "\<exists>k k'. length k = 16 \<and> length k' = 16 \<and>
     KeyExpansion (replicate 44 0) k = KeyExpansion (replicate 44 1) k' \<and> k = k'"
proof -
  let ?k = "replicate 16 7 :: byte list"
  have "key_schedule ?k (KeyExpansion (replicate 44 1) ?k)" by (rule KeyExpansion_correct) simp
  then have eq: "KeyExpansion (replicate 44 0) ?k = KeyExpansion (replicate 44 1) ?k"
    using KeyExpansion_unique_lemma [of "replicate 44 0"] by simp
  have "?k = ?k" by (rule KeyExpansion_injective [OF _ _ _ _ eq]) simp_all
  with eq show ?thesis by (intro exI [of _ ?k]) simp
qed

section \<open>The published key schedule\<close>

definition fips_key :: "byte list" where
  "fips_key = [0x2b, 0x7e, 0x15, 0x16, 0x28, 0xae, 0xd2, 0xa6,
    0xab, 0xf7, 0x15, 0x88, 0x09, 0xcf, 0x4f, 0x3c]"

definition fips_schedule :: "word32 list" where
  "fips_schedule = [0x2b7e1516, 0x28aed2a6, 0xabf71588, 0x09cf4f3c,
   0xa0fafe17, 0x88542cb1, 0x23a33939, 0x2a6c7605,
   0xf2c295f2, 0x7a96b943, 0x5935807a, 0x7359f67f,
   0x3d80477d, 0x4716fe3e, 0x1e237e44, 0x6d7a883b,
   0xef44a541, 0xa8525b7f, 0xb671253b, 0xdb0bad00,
   0xd4d1c6f8, 0x7c839d87, 0xcaf2b8bc, 0x11f915bc,
   0x6d88a37a, 0x110b3efd, 0xdbf98641, 0xca0093fd,
   0x4e54f70e, 0x5f5fc9f3, 0x84a64fb2, 0x4ea6dc4f,
   0xead27321, 0xb58dbad2, 0x312bf560, 0x7f8d292f,
   0xac7766f3, 0x19fadc21, 0x28d12941, 0x575c006e,
   0xd014f9a8, 0xc9ee2589, 0xe13f0cc8, 0xb6630ca6]"

lemma upt_4_44: "[4..<44] = [4, 5, 6, 7, 8, 9, 10, 11, 12, 13, 14, 15, 16, 17, 18, 19, 20, 21,
    22, 23, 24, 25, 26, 27, 28, 29, 30, 31, 32, 33, 34, 35, 36, 37, 38, 39, 40, 41, 42, 43 :: nat]"
  by simp

text \<open>A published schedule is checked word by word against the recurrence.\<close>

definition schedule_ok :: "byte list \<Rightarrow> word32 list \<Rightarrow> bool" where
  "schedule_ok k w \<longleftrightarrow> length w = 44 \<and> list_all (\<lambda>i. w ! i = key_word k i) [0, 1, 2, 3] \<and>
     list_all (\<lambda>i. w ! i = w ! (i - 4) XOR
       (if i mod 4 = 0 then SubWord (RotWord (w ! (i - 1))) XOR rcon ! (i div 4) else w ! (i - 1))) [4..<44]"

lemmas schedule_eval = schedule_ok_def upt_4_44 SubWord_def RotWord_def Let_def rcon_def sbox_eval key_word_def

lemma KeyExpansion_schedule:
  assumes "schedule_ok k w"
  shows "KeyExpansion (replicate 44 0) k = w"
proof -
  have first: "\<forall>i < 4. w ! i = key_word k i"
  proof (intro allI impI)
    fix i :: nat assume "i < 4"
    then have "i \<in> set [0, 1, 2, 3]" by auto
    then show "w ! i = key_word k i" using assms unfolding schedule_ok_def list_all_iff by blast
  qed
  then have "key_schedule k w"
    using assms unfolding key_schedule_def schedule_ok_def list_all_iff set_upt by blast
  then show ?thesis using KeyExpansion_unique_lemma [of "replicate 44 0"] by simp
qed

lemma KeyExpansion_fips: "KeyExpansion (replicate 44 0) fips_key = fips_schedule"
  by (rule KeyExpansion_schedule) (simp add: fips_schedule_def fips_key_def schedule_eval)

end
