(* ===== verification/AES_SBox.thy ===== *)
theory AES_SBox
  imports AES_Key
begin

text \<open>
  The substitution table of key_expansion.c against its description.  The comments of the code say
  that the S-box is the multiplicative inverse in GF(2^8), with \<open>0\<close> mapped to itself, followed by an
  affine map; here the table is checked against exactly that, with \<open>mul\<close> of aes_decrypt.c as the
  multiplication, which makes the bytes a field.
\<close>

text \<open>The affine map of the standard: four rotations and the constant \<open>0x63\<close>.\<close>

definition sbox_affine :: "byte \<Rightarrow> byte" where
  "sbox_affine b = b XOR word_rotl 1 b XOR word_rotl 2 b XOR word_rotl 3 b XOR word_rotl 4 b XOR 0x63"

definition inverse_rows :: "byte list list" where
  "inverse_rows =
  [[0x00, 0x01, 0x8d, 0xf6, 0xcb, 0x52, 0x7b, 0xd1, 0xe8, 0x4f, 0x29, 0xc0, 0xb0, 0xe1, 0xe5, 0xc7],
   [0x74, 0xb4, 0xaa, 0x4b, 0x99, 0x2b, 0x60, 0x5f, 0x58, 0x3f, 0xfd, 0xcc, 0xff, 0x40, 0xee, 0xb2],
   [0x3a, 0x6e, 0x5a, 0xf1, 0x55, 0x4d, 0xa8, 0xc9, 0xc1, 0x0a, 0x98, 0x15, 0x30, 0x44, 0xa2, 0xc2],
   [0x2c, 0x45, 0x92, 0x6c, 0xf3, 0x39, 0x66, 0x42, 0xf2, 0x35, 0x20, 0x6f, 0x77, 0xbb, 0x59, 0x19],
   [0x1d, 0xfe, 0x37, 0x67, 0x2d, 0x31, 0xf5, 0x69, 0xa7, 0x64, 0xab, 0x13, 0x54, 0x25, 0xe9, 0x09],
   [0xed, 0x5c, 0x05, 0xca, 0x4c, 0x24, 0x87, 0xbf, 0x18, 0x3e, 0x22, 0xf0, 0x51, 0xec, 0x61, 0x17],
   [0x16, 0x5e, 0xaf, 0xd3, 0x49, 0xa6, 0x36, 0x43, 0xf4, 0x47, 0x91, 0xdf, 0x33, 0x93, 0x21, 0x3b],
   [0x79, 0xb7, 0x97, 0x85, 0x10, 0xb5, 0xba, 0x3c, 0xb6, 0x70, 0xd0, 0x06, 0xa1, 0xfa, 0x81, 0x82],
   [0x83, 0x7e, 0x7f, 0x80, 0x96, 0x73, 0xbe, 0x56, 0x9b, 0x9e, 0x95, 0xd9, 0xf7, 0x02, 0xb9, 0xa4],
   [0xde, 0x6a, 0x32, 0x6d, 0xd8, 0x8a, 0x84, 0x72, 0x2a, 0x14, 0x9f, 0x88, 0xf9, 0xdc, 0x89, 0x9a],
   [0xfb, 0x7c, 0x2e, 0xc3, 0x8f, 0xb8, 0x65, 0x48, 0x26, 0xc8, 0x12, 0x4a, 0xce, 0xe7, 0xd2, 0x62],
   [0x0c, 0xe0, 0x1f, 0xef, 0x11, 0x75, 0x78, 0x71, 0xa5, 0x8e, 0x76, 0x3d, 0xbd, 0xbc, 0x86, 0x57],
   [0x0b, 0x28, 0x2f, 0xa3, 0xda, 0xd4, 0xe4, 0x0f, 0xa9, 0x27, 0x53, 0x04, 0x1b, 0xfc, 0xac, 0xe6],
   [0x7a, 0x07, 0xae, 0x63, 0xc5, 0xdb, 0xe2, 0xea, 0x94, 0x8b, 0xc4, 0xd5, 0x9d, 0xf8, 0x90, 0x6b],
   [0xb1, 0x0d, 0xd6, 0xeb, 0xc6, 0x0e, 0xcf, 0xad, 0x08, 0x4e, 0xd7, 0xe3, 0x5d, 0x50, 0x1e, 0xb3],
   [0x5b, 0x23, 0x38, 0x34, 0x68, 0x46, 0x03, 0x8c, 0xdd, 0x9c, 0x7d, 0xa0, 0xcd, 0x1a, 0x41, 0x1c]]"

definition gf_inverse :: "byte \<Rightarrow> byte" where
  "gf_inverse x = concat inverse_rows ! unat x"

lemma inverse_nth: "n < 256 \<Longrightarrow> concat inverse_rows ! n = inverse_rows ! (n div 16) ! (n mod 16)"
  by (rule nth_concat_16) (simp_all add: inverse_rows_def)

lemma word_rotl_byte:
  assumes "0 < n" and "n < 8"
  shows "word_rotl n (x :: byte) = push_bit n x OR drop_bit (8 - n) x"
proof (rule bit_word_eqI)
  fix k assume "k < LENGTH(8)"
  then have k: "k < 8" by simp
  have idx: "(k + 8 - n) mod 8 = (if k < n then 8 - n + k else k - n)"
    using assms k by (auto simp: mod_if)
  have "bit (word_rotl n x) k = bit x (if k < n then 8 - n + k else k - n)"
    using assms k by (simp add: bit_word_rotl_iff idx)
  moreover have "bit x (8 - n + k) = False" if "n \<le> k"
    using bit_imp_le_length [of x "8 - n + k"] that assms by auto
  ultimately show "bit (word_rotl n x) k = bit (push_bit n x OR drop_bit (8 - n) x) k"
    using assms k by (auto simp: bit_or_iff bit_push_bit_iff bit_drop_bit_eq)
qed

lemma upt_256: "[0..<256] = 0 # 1 # [2..<256]"
  by (simp add: upt_rec)

lemma gf_inverse_table:
  "list_all2 (\<lambda>x y. if x = 0 then y = 0 else mul x y = 1)
     (map word_of_nat [0..<256]) (concat inverse_rows)"
  unfolding upt_256 by (simp add: inverse_rows_def mul_literal)

lemma sbox_affine_table: "list_all2 (\<lambda>s y. s = sbox_affine y) sbox (concat inverse_rows)"
  by (simp add: sbox_def sbox_rows_def inverse_rows_def sbox_affine_def word_rotl_byte)

lemma gf_inverse: "if x = 0 then gf_inverse x = 0 else mul x (gf_inverse x) = 1"
  using list_all2_nthD [OF gf_inverse_table, of "unat x"] by (simp add: gf_inverse_def split: if_splits)

text \<open>The multiplication of \<^verbatim>\<open>aes_decrypt.c\<close> with exclusive or as the addition is a field on the bytes:
  associative, commutative, distributive, with unit \<open>1\<close> and an inverse for every byte but \<open>0\<close>.\<close>

theorem mul_field:
  "mul (mul a b) c = mul a (mul b c) \<and> mul a b = mul b a \<and> mul a (b XOR c) = mul a b XOR mul a c \<and>
   mul 1 a = a \<and> (if a = 0 then mul a b = 0 else (\<exists>y. mul a y = 1))"
  using gf_inverse [of a]
  by (auto simp: mul_assoc mul_linear_right [THEN xor_linearD] intro: mul_commute)

text \<open>C39: The S-box table of \<^verbatim>\<open>key_expansion.c\<close> is what the comment on \<open>SubWord\<close> says, at every one of its 256
  entries: the multiplicative inverse in the field, followed by the affine map.\<close>

theorem sbox_is_affine_inverse:
  "\<exists>y. (if x = 0 then y = 0 else mul x y = 1) \<and> sbox ! unat x = sbox_affine y"
proof (intro exI conjI)
  show "if x = 0 then gf_inverse x = 0 else mul x (gf_inverse x) = 1" by (rule gf_inverse)
  show "sbox ! unat x = sbox_affine (gf_inverse x)"
    using list_all2_nthD [OF sbox_affine_table, of "unat x"] by (simp add: gf_inverse_def length_sbox)
qed

end
