(* ===== verification/AES_Cipher.thy ===== *)
theory AES_Cipher
  imports AES_Key
begin

text \<open>
  The block cipher of \<^verbatim>\<open>cryptography/AES_Algo/aes_encrypt.c\<close>.  \<open>byte state_matrix[4][4]\<close> is a list
  of four rows of four bytes; each step of a round updates it in place, entry by entry, in the
  nested loops of the code.  The lemmas \<open>..._matrix\<close> give each step in closed form on a matrix
  written out, and the theorems say what the steps compute: the MixColumns step is the matrix
  product over GF(2^8) its comments describe.
\<close>

section \<open>The state matrix\<close>

type_synonym matrix = "byte list list"

definition mat_get :: "matrix \<Rightarrow> nat \<Rightarrow> nat \<Rightarrow> byte" where
  "mat_get m i j = m ! i ! j"

definition mat_set :: "matrix \<Rightarrow> nat \<Rightarrow> nat \<Rightarrow> byte \<Rightarrow> matrix" where
  "mat_set m i j v = m[i := (m ! i)[j := v]]"

definition wf_matrix :: "matrix \<Rightarrow> bool" where
  "wf_matrix m \<longleftrightarrow> length m = 4 \<and> (\<forall>r \<in> set m. length r = 4)"

text \<open>The local \<open>byte state_matrix[4][4]\<close> and \<open>byte temp[4][4]\<close>, every entry of which is written
  before it is read.\<close>

definition blank_matrix :: matrix where
  "blank_matrix = replicate 4 (replicate 4 0)"

section \<open>The steps of a round\<close>

definition load_state :: "byte list \<Rightarrow> matrix" where
  "load_state block =
     for_to 0 4 (\<lambda>i. for_to 0 4 (\<lambda>j m. mat_set m i j (block ! (i + 4 * j)))) blank_matrix"

definition store_state :: "matrix \<Rightarrow> byte list \<Rightarrow> byte list" where
  "store_state m ciphertext =
     for_to 0 4 (\<lambda>col. for_to 0 4 (\<lambda>row c. c[col * 4 + row := mat_get m row col])) ciphertext"

definition add_state_round :: "word32 list \<Rightarrow> matrix \<Rightarrow> nat \<Rightarrow> matrix" where
  "add_state_round words state_matrix round =
     for_to 0 4 (\<lambda>i m.
       let keyWord = words ! (round * 4 + i)
       in for_to 0 4 (\<lambda>j m.
            mat_set m j i (mat_get m j i XOR ucast (drop_bit (8 * (3 - j)) keyWord AND 0xFF))) m)
       state_matrix"

definition sub_bytes :: "matrix \<Rightarrow> matrix" where
  "sub_bytes state =
     for_to 0 4 (\<lambda>i. for_to 0 4 (\<lambda>j m. mat_set m i j (sbox ! unat (mat_get m i j)))) state"

definition shift_rows :: "matrix \<Rightarrow> matrix" where
  "shift_rows state =
    (let temp = for_to 0 4 (\<lambda>i. for_to 0 4 (\<lambda>j t. mat_set t i j (mat_get state i ((j + i) mod 4))))
                  blank_matrix
     in for_to 0 4 (\<lambda>i. for_to 0 4 (\<lambda>j m. mat_set m i j (mat_get temp i j))) state)"

definition mix_column :: "nat \<Rightarrow> matrix \<Rightarrow> matrix" where
  "mix_column j m =
    (let s0 = mat_get m 0 j;
         s1 = mat_get m 1 j;
         s2 = mat_get m 2 j;
         s3 = mat_get m 3 j;
         s0x = xtime_enc s0;
         s1x = xtime_enc s1;
         s2x = xtime_enc s2;
         s3x = xtime_enc s3;
         m = mat_set m 0 j (s0x XOR (s1x XOR s1) XOR s2 XOR s3);
         m = mat_set m 1 j (s0 XOR s1x XOR (s2x XOR s2) XOR s3);
         m = mat_set m 2 j (s0 XOR s1 XOR s2x XOR (s3x XOR s3));
         m = mat_set m 3 j ((s0x XOR s0) XOR s1 XOR s2 XOR s3x)
     in m)"

definition mix_columns :: "matrix \<Rightarrow> matrix" where
  "mix_columns state = for_to 0 4 mix_column state"

definition encrypt_round :: "word32 list \<Rightarrow> nat \<Rightarrow> matrix \<Rightarrow> matrix" where
  "encrypt_round words round m =
    (let m = sub_bytes m;
         m = shift_rows m;
         m = (if round < 10 then mix_columns m else m)
     in add_state_round words m round)"

definition aes_encrypt :: "byte list \<Rightarrow> word32 list \<Rightarrow> byte list \<Rightarrow> byte list" where
  "aes_encrypt block words ciphertext =
    (let m = load_state block;
         m = add_state_round words m 0;
         m = for_to 1 11 (encrypt_round words) m
     in store_state m ciphertext)"

section \<open>The steps in closed form\<close>

lemma wf_matrixE:
  assumes "wf_matrix m"
  obtains a0 a1 a2 a3 b0 b1 b2 b3 c0 c1 c2 c3 d0 d1 d2 d3 where
    "m = [[a0, a1, a2, a3], [b0, b1, b2, b3], [c0, c1, c2, c3], [d0, d1, d2, d3]]"
proof -
  from assms obtain ra rb rc rd where m: "m = [ra, rb, rc, rd]"
    using length_4_cases [of m] by (auto simp: wf_matrix_def)
  with assms have "length ra = 4" "length rb = 4" "length rc = 4" "length rd = 4"
    by (simp_all add: wf_matrix_def)
  with m that show thesis
    using length_4_cases [of ra] length_4_cases [of rb] length_4_cases [of rc] length_4_cases [of rd]
    by metis
qed

lemma wf_matrix_Cons [simp]:
  "wf_matrix [[a0, a1, a2, a3], [b0, b1, b2, b3], [c0, c1, c2, c3], [d0, d1, d2, d3]]"
  by (simp add: wf_matrix_def)

lemma blank_matrix_eq: "blank_matrix = [[0, 0, 0, 0], [0, 0, 0, 0], [0, 0, 0, 0], [0, 0, 0, 0]]"
  by (simp add: blank_matrix_def numeral_eq_Suc)

lemmas matrix_loops = c_loops mat_get_def mat_set_def

lemma load_state_matrix:
  "load_state b =
    [[b ! 0, b ! 4, b ! 8, b ! 12], [b ! 1, b ! 5, b ! 9, b ! 13],
     [b ! 2, b ! 6, b ! 10, b ! 14], [b ! 3, b ! 7, b ! 11, b ! 15]]"
  by (simp add: load_state_def blank_matrix_eq matrix_loops flip: numeral_2_eq_2)

lemma store_state_matrix:
  assumes "length c = 16"
  shows "store_state
      [[a0, a1, a2, a3], [b0, b1, b2, b3], [c0, c1, c2, c3], [d0, d1, d2, d3]] c
    = [a0, b0, c0, d0, a1, b1, c1, d1, a2, b2, c2, d2, a3, b3, c3, d3]"
proof -
  have "c = map ((!) c) [0..<16]" using assms map_nth [of c] by simp
  also have "[0..<16] = [0, 1, 2, 3, 4, 5, 6, 7, 8, 9, 10, 11, 12, 13, 14, 15 :: nat]"
    by (simp add: upt_rec numeral_eq_Suc)
  finally obtain x0 x1 x2 x3 x4 x5 x6 x7 x8 x9 xa xb xc xd xe xf where
    c: "c = [x0, x1, x2, x3, x4, x5, x6, x7, x8, x9, xa, xb, xc, xd, xe, xf]" by simp
  show ?thesis unfolding c by (simp add: store_state_def matrix_loops)
qed

definition key_byte :: "word32 list \<Rightarrow> nat \<Rightarrow> nat \<Rightarrow> nat \<Rightarrow> byte" where
  "key_byte words round j i = word_byte (words ! (round * 4 + i)) (3 - j)"

lemma add_state_round_matrix:
  "add_state_round w [[a0, a1, a2, a3], [b0, b1, b2, b3], [c0, c1, c2, c3], [d0, d1, d2, d3]] r =
    [[a0 XOR key_byte w r 0 0, a1 XOR key_byte w r 0 1, a2 XOR key_byte w r 0 2, a3 XOR key_byte w r 0 3],
     [b0 XOR key_byte w r 1 0, b1 XOR key_byte w r 1 1, b2 XOR key_byte w r 1 2, b3 XOR key_byte w r 1 3],
     [c0 XOR key_byte w r 2 0, c1 XOR key_byte w r 2 1, c2 XOR key_byte w r 2 2, c3 XOR key_byte w r 2 3],
     [d0 XOR key_byte w r 3 0, d1 XOR key_byte w r 3 1, d2 XOR key_byte w r 3 2, d3 XOR key_byte w r 3 3]]"
  by (simp add: add_state_round_def matrix_loops Let_def key_byte_def word_byte_def)

lemma sub_bytes_matrix:
  "sub_bytes [[a0, a1, a2, a3], [b0, b1, b2, b3], [c0, c1, c2, c3], [d0, d1, d2, d3]] =
    map (map (\<lambda>x. sbox ! unat x))
      [[a0, a1, a2, a3], [b0, b1, b2, b3], [c0, c1, c2, c3], [d0, d1, d2, d3]]"
  by (simp add: sub_bytes_def matrix_loops)

lemma shift_rows_matrix:
  "shift_rows [[a0, a1, a2, a3], [b0, b1, b2, b3], [c0, c1, c2, c3], [d0, d1, d2, d3]] =
    [[a0, a1, a2, a3], [b1, b2, b3, b0], [c2, c3, c0, c1], [d3, d0, d1, d2]]"
  by (simp add: shift_rows_def matrix_loops blank_matrix_eq Let_def)

text \<open>The column products of MixColumns, in the form of the comments of the code.\<close>

definition mix_row :: "byte \<Rightarrow> byte \<Rightarrow> byte \<Rightarrow> byte \<Rightarrow> byte" where
  "mix_row p q r s = xtime_enc p XOR (xtime_enc q XOR q) XOR r XOR s"

lemma mix_columns_matrix:
  "mix_columns [[a0, a1, a2, a3], [b0, b1, b2, b3], [c0, c1, c2, c3], [d0, d1, d2, d3]] =
    [[mix_row a0 b0 c0 d0, mix_row a1 b1 c1 d1, mix_row a2 b2 c2 d2, mix_row a3 b3 c3 d3],
     [mix_row b0 c0 d0 a0, mix_row b1 c1 d1 a1, mix_row b2 c2 d2 a2, mix_row b3 c3 d3 a3],
     [mix_row c0 d0 a0 b0, mix_row c1 d1 a1 b1, mix_row c2 d2 a2 b2, mix_row c3 d3 a3 b3],
     [mix_row d0 a0 b0 c0, mix_row d1 a1 b1 c1, mix_row d2 a2 b2 c2, mix_row d3 a3 b3 c3]]"
  by (simp add: mix_columns_def mix_column_def matrix_loops Let_def mix_row_def xor_ac)

lemmas matrix_simps = load_state_matrix store_state_matrix add_state_round_matrix sub_bytes_matrix
  shift_rows_matrix mix_columns_matrix

section \<open>What the steps compute\<close>

lemma wf_load_state [simp]: "wf_matrix (load_state b)"
  by (simp add: load_state_matrix)

lemma wf_steps [simp, intro]:
  assumes "wf_matrix m"
  shows "wf_matrix (add_state_round w m r)" and "wf_matrix (sub_bytes m)"
    and "wf_matrix (shift_rows m)" and "wf_matrix (mix_columns m)"
  using assms by (auto elim!: wf_matrixE simp: matrix_simps)

lemma wf_encrypt_round [simp]: "wf_matrix m \<Longrightarrow> wf_matrix (encrypt_round w r m)"
  by (simp add: encrypt_round_def Let_def wf_steps)

lemma length_store_state [simp]: "length c = 16 \<Longrightarrow> wf_matrix m \<Longrightarrow> length (store_state m c) = 16"
  by (auto elim!: wf_matrixE simp: store_state_matrix)

definition mix_coefficients :: "byte list list" where
  "mix_coefficients = [[2, 3, 1, 1], [1, 2, 3, 1], [1, 1, 2, 3], [3, 1, 1, 2]]"

lemma less_4_cases: "i < 4 \<Longrightarrow> i = 0 \<or> i = 1 \<or> i = 2 \<or> i = (3 :: nat)"
  by linarith

lemma upt_4: "[0..<4] = [0, 1, 2, 3 :: nat]"
  by (simp add: upt_rec numeral_eq_Suc)

text \<open>\<open>mix_columns\<close> multiplies every column of the state by the MixColumns matrix over the field,
  each entry a sum of four products.\<close>

theorem mix_columns_is_product:
  assumes "wf_matrix m" and "i < 4" and "j < 4"
  shows "mat_get (mix_columns m) i j
    = xor_sum (\<lambda>k. gf_mul (mix_coefficients ! i ! k) (mat_get m k j)) [0..<4]"
  using assms(1) less_4_cases [OF assms(2)] less_4_cases [OF assms(3)]
  by (elim wf_matrixE disjE)
    (simp_all add: upt_4 mix_columns_matrix mix_coefficients_def mix_row_def mat_get_def
      mul_2 mul_3 xor_ac flip: mul_is_gf_mul)

theorem mix_columns_is_product_witness:
  "mat_get (mix_columns [[0xd4, 0, 0, 0], [0xbf, 0, 0, 0], [0x5d, 0, 0, 0], [0x30, 0, 0, 0]]) 0 0
    = xor_sum (\<lambda>k. gf_mul (mix_coefficients ! 0 ! k)
        (mat_get [[0xd4, 0, 0, 0], [0xbf, 0, 0, 0], [0x5d, 0, 0, 0], [0x30, 0, 0, 0]] k 0)) [0..<4]"
  by (rule mix_columns_is_product) simp_all

lemma for_to_1_11: "for_to 1 11 body s =
  body 10 (body 9 (body 8 (body 7 (body 6 (body 5 (body 4 (body 3 (body 2 (body 1 s)))))))))"
  by (simp add: for_to_def upt_rec numeral_eq_Suc)

lemma aes_encrypt_wf:
  assumes "length c = 16"
  shows "length (aes_encrypt b w c) = 16"
proof -
  have "wf_matrix (for_to 1 11 (encrypt_round w) (add_state_round w (load_state b) 0))"
    by (rule for_to_preserves) simp_all
  then show ?thesis by (simp add: aes_encrypt_def assms)
qed

section \<open>The published cipher example\<close>

definition fips_block :: "byte list" where
  "fips_block = [0x32, 0x43, 0xf6, 0xa8, 0x88, 0x5a, 0x30, 0x8d,
    0x31, 0x31, 0x98, 0xa2, 0xe0, 0x37, 0x07, 0x34]"

lemmas key_byte_eval = key_byte_def word_byte_def
lemmas round_eval = encrypt_round_def Let_def matrix_simps mix_row_def xtime_enc_def sbox_eval key_byte_eval

text \<open>Key expansion and encryption give the ciphertext of the example in the AES standard.\<close>

theorem aes_encrypt_fips:
  "aes_encrypt fips_block (KeyExpansion (replicate 44 0) fips_key) (replicate 16 0) =
    [0x39, 0x25, 0x84, 0x1d, 0x02, 0xdc, 0x09, 0xfb, 0xdc, 0x11, 0x85, 0x97, 0x19, 0x6a, 0x0b, 0x32]"
  unfolding KeyExpansion_fips aes_encrypt_def Let_def for_to_1_11 load_state_matrix fips_block_def
  by (simp add: fips_schedule_def round_eval)

end
