(* ===== verification/AES_Inverse.thy ===== *)
theory AES_Inverse
  imports AES_Cipher
begin

text \<open>
  The inverse cipher of \<^verbatim>\<open>cryptography/AES_Algo/aes_decrypt.c\<close>, on the state matrices of
  \<open>AES_Cipher\<close>.  The main results: every step of a round is undone by its inverse, so that
  \<open>aes_decrypt\<close> and \<open>aes_encrypt\<close> are inverse to one another for every key schedule.  The locale
  \<open>block_cipher\<close> states what a mode of operation needs of a cipher; its interpretation on the two
  functions is what the program-level theorems rest on.
\<close>

section \<open>The code\<close>

definition inv_sbox_rows :: "byte list list" where
  "inv_sbox_rows =
  [[0x52, 0x09, 0x6A, 0xD5, 0x30, 0x36, 0xA5, 0x38, 0xBF, 0x40, 0xA3, 0x9E, 0x81, 0xF3, 0xD7, 0xFB],
   [0x7C, 0xE3, 0x39, 0x82, 0x9B, 0x2F, 0xFF, 0x87, 0x34, 0x8E, 0x43, 0x44, 0xC4, 0xDE, 0xE9, 0xCB],
   [0x54, 0x7B, 0x94, 0x32, 0xA6, 0xC2, 0x23, 0x3D, 0xEE, 0x4C, 0x95, 0x0B, 0x42, 0xFA, 0xC3, 0x4E],
   [0x08, 0x2E, 0xA1, 0x66, 0x28, 0xD9, 0x24, 0xB2, 0x76, 0x5B, 0xA2, 0x49, 0x6D, 0x8B, 0xD1, 0x25],
   [0x72, 0xF8, 0xF6, 0x64, 0x86, 0x68, 0x98, 0x16, 0xD4, 0xA4, 0x5C, 0xCC, 0x5D, 0x65, 0xB6, 0x92],
   [0x6C, 0x70, 0x48, 0x50, 0xFD, 0xED, 0xB9, 0xDA, 0x5E, 0x15, 0x46, 0x57, 0xA7, 0x8D, 0x9D, 0x84],
   [0x90, 0xD8, 0xAB, 0x00, 0x8C, 0xBC, 0xD3, 0x0A, 0xF7, 0xE4, 0x58, 0x05, 0xB8, 0xB3, 0x45, 0x06],
   [0xD0, 0x2C, 0x1E, 0x8F, 0xCA, 0x3F, 0x0F, 0x02, 0xC1, 0xAF, 0xBD, 0x03, 0x01, 0x13, 0x8A, 0x6B],
   [0x3A, 0x91, 0x11, 0x41, 0x4F, 0x67, 0xDC, 0xEA, 0x97, 0xF2, 0xCF, 0xCE, 0xF0, 0xB4, 0xE6, 0x73],
   [0x96, 0xAC, 0x74, 0x22, 0xE7, 0xAD, 0x35, 0x85, 0xE2, 0xF9, 0x37, 0xE8, 0x1C, 0x75, 0xDF, 0x6E],
   [0x47, 0xF1, 0x1A, 0x71, 0x1D, 0x29, 0xC5, 0x89, 0x6F, 0xB7, 0x62, 0x0E, 0xAA, 0x18, 0xBE, 0x1B],
   [0xFC, 0x56, 0x3E, 0x4B, 0xC6, 0xD2, 0x79, 0x20, 0x9A, 0xDB, 0xC0, 0xFE, 0x78, 0xCD, 0x5A, 0xF4],
   [0x1F, 0xDD, 0xA8, 0x33, 0x88, 0x07, 0xC7, 0x31, 0xB1, 0x12, 0x10, 0x59, 0x27, 0x80, 0xEC, 0x5F],
   [0x60, 0x51, 0x7F, 0xA9, 0x19, 0xB5, 0x4A, 0x0D, 0x2D, 0xE5, 0x7A, 0x9F, 0x93, 0xC9, 0x9C, 0xEF],
   [0xA0, 0xE0, 0x3B, 0x4D, 0xAE, 0x2A, 0xF5, 0xB0, 0xC8, 0xEB, 0xBB, 0x3C, 0x83, 0x53, 0x99, 0x61],
   [0x17, 0x2B, 0x04, 0x7E, 0xBA, 0x77, 0xD6, 0x26, 0xE1, 0x69, 0x14, 0x63, 0x55, 0x21, 0x0C, 0x7D]]"

definition inv_sbox :: "byte list" where
  "inv_sbox = concat inv_sbox_rows"

definition inv_shift_rows :: "matrix \<Rightarrow> matrix" where
  "inv_shift_rows state =
    (let temp = for_to 0 4 (\<lambda>i. for_to 0 4 (\<lambda>j t.
                  mat_set t i j (mat_get state i (nat ((int j - int i + 4) mod 4))))) blank_matrix
     in for_to 0 4 (\<lambda>i. for_to 0 4 (\<lambda>j m. mat_set m i j (mat_get temp i j))) state)"

definition inv_sub_bytes :: "matrix \<Rightarrow> matrix" where
  "inv_sub_bytes state =
     for_to 0 4 (\<lambda>i. for_to 0 4 (\<lambda>j m. mat_set m i j (inv_sbox ! unat (mat_get m i j)))) state"

definition inv_mix_column :: "nat \<Rightarrow> matrix \<Rightarrow> matrix" where
  "inv_mix_column c m =
    (let temp0 = mul 0x0e (mat_get m 0 c) XOR mul 0x0b (mat_get m 1 c) XOR
                 mul 0x0d (mat_get m 2 c) XOR mul 0x09 (mat_get m 3 c);
         temp1 = mul 0x09 (mat_get m 0 c) XOR mul 0x0e (mat_get m 1 c) XOR
                 mul 0x0b (mat_get m 2 c) XOR mul 0x0d (mat_get m 3 c);
         temp2 = mul 0x0d (mat_get m 0 c) XOR mul 0x09 (mat_get m 1 c) XOR
                 mul 0x0e (mat_get m 2 c) XOR mul 0x0b (mat_get m 3 c);
         temp3 = mul 0x0b (mat_get m 0 c) XOR mul 0x0d (mat_get m 1 c) XOR
                 mul 0x09 (mat_get m 2 c) XOR mul 0x0e (mat_get m 3 c);
         temp = [temp0, temp1, temp2, temp3]
     in for_to 0 4 (\<lambda>i m. mat_set m i c (temp ! i)) m)"

definition inv_mix_columns :: "matrix \<Rightarrow> matrix" where
  "inv_mix_columns state = for_to 0 4 inv_mix_column state"

definition decrypt_round :: "word32 list \<Rightarrow> nat \<Rightarrow> matrix \<Rightarrow> matrix" where
  "decrypt_round words round m =
    (let m = add_state_round words m round;
         m = inv_mix_columns m;
         m = inv_shift_rows m
     in inv_sub_bytes m)"

definition aes_decrypt :: "byte list \<Rightarrow> word32 list \<Rightarrow> byte list \<Rightarrow> byte list" where
  "aes_decrypt block words plain_block =
    (let m = load_state block;
         m = add_state_round words m 10;
         m = inv_shift_rows m;
         m = inv_sub_bytes m;
         m = for_down 9 1 (decrypt_round words) m;
         m = add_state_round words m 0
     in store_state m plain_block)"

section \<open>The inverse steps in closed form\<close>

lemma inv_sbox_nth: "n < 256 \<Longrightarrow> inv_sbox ! n = inv_sbox_rows ! (n div 16) ! (n mod 16)"
  unfolding inv_sbox_def by (rule nth_concat_16) (simp_all add: inv_sbox_rows_def)

lemma inv_sub_bytes_matrix:
  "inv_sub_bytes [[a0, a1, a2, a3], [b0, b1, b2, b3], [c0, c1, c2, c3], [d0, d1, d2, d3]] =
    map (map (\<lambda>x. inv_sbox ! unat x))
      [[a0, a1, a2, a3], [b0, b1, b2, b3], [c0, c1, c2, c3], [d0, d1, d2, d3]]"
  by (simp add: inv_sub_bytes_def matrix_loops)

lemma inv_shift_rows_matrix:
  "inv_shift_rows [[a0, a1, a2, a3], [b0, b1, b2, b3], [c0, c1, c2, c3], [d0, d1, d2, d3]] =
    [[a0, a1, a2, a3], [b3, b0, b1, b2], [c2, c3, c0, c1], [d1, d2, d3, d0]]"
  by (simp add: inv_shift_rows_def matrix_loops blank_matrix_eq Let_def)

definition inv_mix_row :: "byte \<Rightarrow> byte \<Rightarrow> byte \<Rightarrow> byte \<Rightarrow> byte" where
  "inv_mix_row p q r s = mul 0x0e p XOR mul 0x0b q XOR mul 0x0d r XOR mul 0x09 s"

lemma inv_mix_columns_matrix:
  "inv_mix_columns [[a0, a1, a2, a3], [b0, b1, b2, b3], [c0, c1, c2, c3], [d0, d1, d2, d3]] =
    [[inv_mix_row a0 b0 c0 d0, inv_mix_row a1 b1 c1 d1, inv_mix_row a2 b2 c2 d2, inv_mix_row a3 b3 c3 d3],
     [inv_mix_row b0 c0 d0 a0, inv_mix_row b1 c1 d1 a1, inv_mix_row b2 c2 d2 a2, inv_mix_row b3 c3 d3 a3],
     [inv_mix_row c0 d0 a0 b0, inv_mix_row c1 d1 a1 b1, inv_mix_row c2 d2 a2 b2, inv_mix_row c3 d3 a3 b3],
     [inv_mix_row d0 a0 b0 c0, inv_mix_row d1 a1 b1 c1, inv_mix_row d2 a2 b2 c2, inv_mix_row d3 a3 b3 c3]]"
  by (simp add: inv_mix_columns_def inv_mix_column_def matrix_loops Let_def inv_mix_row_def xor_ac)

lemmas inv_matrix_simps = matrix_simps inv_sub_bytes_matrix inv_shift_rows_matrix inv_mix_columns_matrix

lemma inv_wf_steps [simp, intro]:
  assumes "wf_matrix m"
  shows "wf_matrix (inv_sub_bytes m)" and "wf_matrix (inv_shift_rows m)"
    and "wf_matrix (inv_mix_columns m)"
  using assms by (auto elim!: wf_matrixE simp: inv_matrix_simps)

section \<open>Every step is undone by its inverse\<close>

lemma sbox_table: "map (\<lambda>y. inv_sbox ! unat y) sbox = map word_of_nat [0..<256]"
proof -
  have "map (\<lambda>y. inv_sbox ! unat y) (concat sbox_rows) = map word_of_nat [0..<256]"
    by (simp add: sbox_rows_def inv_sbox_nth) (simp add: inv_sbox_rows_def upt_rec)
  then show ?thesis by (simp add: sbox_def)
qed

lemma inv_sbox_sbox [simp]: "inv_sbox ! unat (sbox ! unat x) = x"
  using arg_cong [OF sbox_table, of "\<lambda>xs. xs ! unat x"] by (simp add: length_sbox)

lemma sbox_inv_sbox [simp]: "sbox ! unat (inv_sbox ! unat x) = x"
proof -
  have "inj (\<lambda>x. sbox ! unat (x :: byte))"
    by (rule inj_on_inverseI [where g = "\<lambda>x. inv_sbox ! unat x"]) simp
  then have "surj (\<lambda>x. sbox ! unat (x :: byte))"
    by (rule finite_UNIV_inj_surj [rotated]) simp
  then obtain y where "x = sbox ! unat (y :: byte)" by (metis surjD)
  then show ?thesis by simp
qed

lemmas mul_xor = mul_linear_right [THEN xor_linearD]

lemma mul_xtime_right: "mul c (xtime_enc x) = mul (xtime_enc c) x"
  using mul_xtime_left [of x c] mul_xtime_left [of c x] by (simp add: mul_commute)

lemma mul_collect: "mul a x XOR mul b x = mul (a XOR b) x"
  by (rule xor_linearD [OF mul_linear_left, symmetric])

text \<open>The four coefficients of the product of the inverse matrix and the MixColumns matrix.\<close>

lemma inv_mix_coefficients:
  "mul 0x0e (xtime_enc p) XOR mul 0x0b p XOR mul 0x0d p XOR (mul 0x09 (xtime_enc p) XOR mul 0x09 p) = p"
  "(mul 0x0e (xtime_enc p) XOR mul 0x0e p) XOR mul 0x0b (xtime_enc p) XOR mul 0x0d p XOR mul 0x09 p = 0"
  "mul 0x0e p XOR (mul 0x0b (xtime_enc p) XOR mul 0x0b p) XOR mul 0x0d (xtime_enc p) XOR mul 0x09 p = 0"
  "mul 0x0e p XOR mul 0x0b p XOR (mul 0x0d (xtime_enc p) XOR mul 0x0d p) XOR mul 0x09 (xtime_enc p) = 0"
  unfolding mul_xtime_right mul_collect by (simp_all add: xtime_enc_def)

lemma inv_mix_row_mix_row:
  "inv_mix_row (mix_row p q r s) (mix_row q r s p) (mix_row r s p q) (mix_row s p q r) = p"
proof -
  have "inv_mix_row (mix_row p q r s) (mix_row q r s p) (mix_row r s p q) (mix_row s p q r)
    = (mul 0x0e (xtime_enc p) XOR mul 0x0b p XOR mul 0x0d p XOR (mul 0x09 (xtime_enc p) XOR mul 0x09 p))
      XOR ((mul 0x0e (xtime_enc q) XOR mul 0x0e q) XOR mul 0x0b (xtime_enc q) XOR mul 0x0d q XOR mul 0x09 q)
      XOR (mul 0x0e r XOR (mul 0x0b (xtime_enc r) XOR mul 0x0b r) XOR mul 0x0d (xtime_enc r) XOR mul 0x09 r)
      XOR (mul 0x0e s XOR mul 0x0b s XOR (mul 0x0d (xtime_enc s) XOR mul 0x0d s) XOR mul 0x09 (xtime_enc s))"
    by (simp only: inv_mix_row_def mix_row_def mul_xor xor_ac)
  then show ?thesis by (simp only: inv_mix_coefficients xor.right_neutral)
qed

lemma mix_row_inv_mix_row:
  "mix_row (inv_mix_row p q r s) (inv_mix_row q r s p) (inv_mix_row r s p q) (inv_mix_row s p q r) = p"
proof -
  have "mix_row (inv_mix_row p q r s) (inv_mix_row q r s p) (inv_mix_row r s p q) (inv_mix_row s p q r)
    = (mul 0x0e (xtime_enc p) XOR mul 0x0b p XOR mul 0x0d p XOR (mul 0x09 (xtime_enc p) XOR mul 0x09 p))
      XOR ((mul 0x0e (xtime_enc q) XOR mul 0x0e q) XOR mul 0x0b (xtime_enc q) XOR mul 0x0d q XOR mul 0x09 q)
      XOR (mul 0x0e r XOR (mul 0x0b (xtime_enc r) XOR mul 0x0b r) XOR mul 0x0d (xtime_enc r) XOR mul 0x09 r)
      XOR (mul 0x0e s XOR mul 0x0b s XOR (mul 0x0d (xtime_enc s) XOR mul 0x0d s) XOR mul 0x09 (xtime_enc s))"
    by (simp only: inv_mix_row_def mix_row_def xtime_enc_linear [THEN xor_linearD] xor_ac
        mul_xtime_right mul_xtime_left [symmetric])
  then show ?thesis by (simp only: inv_mix_coefficients xor.right_neutral)
qed

lemma inverse_steps [simp]:
  assumes "wf_matrix m"
  shows "inv_sub_bytes (sub_bytes m) = m" and "sub_bytes (inv_sub_bytes m) = m"
    and "inv_shift_rows (shift_rows m) = m" and "shift_rows (inv_shift_rows m) = m"
    and "inv_mix_columns (mix_columns m) = m" and "mix_columns (inv_mix_columns m) = m"
    and "add_state_round w (add_state_round w m r) r = m"
  using assms
  by (auto elim!: wf_matrixE simp: inv_matrix_simps inv_mix_row_mix_row mix_row_inv_mix_row)

text \<open>Each step of an encryption round is undone by the step of \<^verbatim>\<open>aes_decrypt.c\<close> with the same name,
  and adding a round key by adding it again.\<close>

theorem inverse_steps_all:
  assumes "wf_matrix m"
  shows "inv_sub_bytes (sub_bytes m) = m \<and> inv_shift_rows (shift_rows m) = m \<and>
    inv_mix_columns (mix_columns m) = m \<and> add_state_round w (add_state_round w m r) r = m"
  using assms by simp

theorem inverse_steps_all_witness:
  "inv_sub_bytes (sub_bytes (load_state fips_block)) = load_state fips_block"
  using inverse_steps_all [of "load_state fips_block"] by simp

section \<open>The cipher and its inverse\<close>

lemma load_store [simp]: "wf_matrix m \<Longrightarrow> length c = 16 \<Longrightarrow> load_state (store_state m c) = m"
  by (auto elim!: wf_matrixE simp: matrix_simps)

lemma store_load [simp]:
  assumes "length b = 16" and "length c = 16"
  shows "store_state (load_state b) c = b"
proof -
  have "map ((!) b) [0..<16] = b" using assms map_nth [of b] by simp
  moreover have "[0..<16] = [0, 1, 2, 3, 4, 5, 6, 7, 8, 9, 10, 11, 12, 13, 14, 15 :: nat]"
    by (simp add: upt_rec numeral_eq_Suc)
  ultimately show ?thesis using assms by (simp add: matrix_simps)
qed

lemma decrypt_encrypt_round [simp]:
  "wf_matrix m \<Longrightarrow> r < 10 \<Longrightarrow> decrypt_round w r (encrypt_round w r m) = m"
  by (simp add: decrypt_round_def encrypt_round_def Let_def wf_steps)

lemma encrypt_decrypt_round [simp]:
  "wf_matrix m \<Longrightarrow> r < 10 \<Longrightarrow> encrypt_round w r (decrypt_round w r m) = m"
  by (simp add: decrypt_round_def encrypt_round_def Let_def wf_steps)

lemma wf_decrypt_round [simp]: "wf_matrix m \<Longrightarrow> wf_matrix (decrypt_round w r m)"
  by (simp add: decrypt_round_def Let_def wf_steps)

lemma last_round: "for_to 1 11 (encrypt_round w) m =
    add_state_round w (shift_rows (sub_bytes (for_to 1 10 (encrypt_round w) m))) 10"
  using for_to_Suc [of 1 10 "encrypt_round w" m] by (simp add: encrypt_round_def Let_def)

lemma wf_rounds [simp]: "wf_matrix m \<Longrightarrow> wf_matrix (for_to a b (encrypt_round w) m)"
  by (rule for_to_preserves) simp_all

lemma wf_inv_rounds [simp]: "wf_matrix m \<Longrightarrow> wf_matrix (for_down a b (decrypt_round w) m)"
  unfolding for_down_def by (rule fold_invariant [where Q = "\<lambda>_. True"]) simp_all

lemma rounds_undone:
  assumes "wf_matrix m"
  shows "for_down 9 1 (decrypt_round w) (for_to 1 10 (encrypt_round w) m) = m"
    and "for_to 1 10 (encrypt_round w) (for_down 9 1 (decrypt_round w) m) = m"
  using for_down_undo [where good = wf_matrix and s = m and a = 9 and b = 1]
    for_to_undo [where good = wf_matrix and s = m and a = 9 and b = 1] assms
  by simp_all

lemma length_aes_decrypt: "length c = 16 \<Longrightarrow> length (aes_decrypt b w c) = 16"
  by (simp add: aes_decrypt_def Let_def)

lemma aes_decrypt_inverse_lemma:
  assumes "length block = 16" and "length out = 16" and "length out' = 16"
  shows "aes_decrypt (aes_encrypt block words out) words out' = block"
  using assms by (simp add: aes_encrypt_def aes_decrypt_def Let_def
      last_round [unfolded One_nat_def] rounds_undone [unfolded One_nat_def])

lemma aes_encrypt_inverse_lemma:
  assumes "length block = 16" and "length out = 16" and "length out' = 16"
  shows "aes_encrypt (aes_decrypt block words out) words out' = block"
  using assms by (simp add: aes_encrypt_def aes_decrypt_def Let_def
      last_round [unfolded One_nat_def] rounds_undone [unfolded One_nat_def])

text \<open>C1: For every key schedule, decryption undoes encryption and encryption undoes decryption on every
  block, whatever the output buffers hold before.\<close>

theorem aes_permutation:
  assumes "length block = 16" and "length out = 16" and "length out' = 16"
  shows "aes_decrypt (aes_encrypt block words out) words out' = block
    \<and> aes_encrypt (aes_decrypt block words out) words out' = block"
  using aes_decrypt_inverse_lemma [OF assms] aes_encrypt_inverse_lemma [OF assms] by blast

theorem aes_permutation_witness:
  "aes_decrypt (aes_encrypt fips_block fips_schedule (replicate 16 0)) fips_schedule (replicate 16 1)
    = fips_block"
  using aes_permutation [of fips_block "replicate 16 0" "replicate 16 1" fips_schedule]
  by (simp add: fips_block_def)

section \<open>Block ciphers, and the block-by-block mode the programs use\<close>

text \<open>
  Both programs run over the blocks of a buffer, one at a time, and copy each result into the
  output buffer at the same position.
\<close>

definition map_blocks :: "(byte list \<Rightarrow> byte list) \<Rightarrow> nat \<Rightarrow> byte list \<Rightarrow> byte list" where
  "map_blocks f num_blocks data =
     for_to 0 num_blocks (\<lambda>i out. splice out (i * 16) (f (take 16 (drop (i * 16) data))))
       (replicate (16 * num_blocks) 0)"

lemma map_blocks_concat:
  assumes "\<And>b. length b = 16 \<Longrightarrow> length (f b) = 16" and "length data = 16 * n"
  shows "map_blocks f n data = concat (map (\<lambda>i. f (take 16 (drop (i * 16) data))) [0..<n])"
  unfolding map_blocks_def using assms by (intro for_to_splice) auto

lemma length_map_blocks:
  assumes "\<And>b. length b = 16 \<Longrightarrow> length (f b) = 16" and "length data = 16 * n"
  shows "length (map_blocks f n data) = 16 * n"
proof -
  have "m \<le> n \<Longrightarrow> length (concat (map (\<lambda>i. f (take 16 (drop (i * 16) data))) [0..<m])) = 16 * m" for m
    by (induction m) (use assms in auto)
  then show ?thesis using assms by (simp add: map_blocks_concat)
qed

lemma block_of_map_blocks:
  assumes f: "\<And>b. length b = 16 \<Longrightarrow> length (f b) = 16" and "length data = 16 * n" and "i < n"
  shows "take 16 (drop (i * 16) (map_blocks f n data)) = f (take 16 (drop (i * 16) data))"
proof -
  let ?g = "\<lambda>i. f (take 16 (drop (i * 16) data))"
  have len: "i < n \<Longrightarrow> length (?g i) = 16" for i using assms by simp
  have "[0..<n] = [0..<i] @ i # [Suc i..<n]"
    using \<open>i < n\<close> by (rule upt_split)
  moreover have "j \<le> n \<Longrightarrow> length (concat (map ?g [0..<j])) = j * 16" for j
    by (induction j) (use len in auto)
  ultimately show ?thesis
    using assms len [of i] by (simp add: map_blocks_concat)
qed

lemma concat_blocks:
  assumes "length data = 16 * n"
  shows "concat (map (\<lambda>i. take 16 (drop (i * 16) data)) [0..<n]) = data"
proof -
  have "m \<le> n \<Longrightarrow> concat (map (\<lambda>i. take 16 (drop (i * 16) data)) [0..<m]) = take (m * 16) data" for m
  proof (induction m)
    case (Suc m)
    then show ?case using take_add [of "m * 16" 16 data] by (simp add: add.commute)
  qed simp
  from this [of n] show ?thesis using assms by simp
qed

text \<open>The interface of a mode to its cipher.\<close>

locale block_cipher =
  fixes E :: "byte list \<Rightarrow> byte list" and D :: "byte list \<Rightarrow> byte list"
  assumes length_E: "length b = 16 \<Longrightarrow> length (E b) = 16"
    and length_D: "length b = 16 \<Longrightarrow> length (D b) = 16"
    and D_E: "length b = 16 \<Longrightarrow> D (E b) = b"
begin

theorem map_blocks_undone:
  assumes "length data = 16 * n"
  shows "map_blocks D n (map_blocks E n data) = data"
proof -
  let ?c = "map_blocks E n data"
  have "map_blocks D n ?c = concat (map (\<lambda>i. D (take 16 (drop (i * 16) ?c))) [0..<n])"
    using length_map_blocks [OF length_E assms] length_D by (rule map_blocks_concat [rotated])
  also have "\<dots> = concat (map (\<lambda>i. take 16 (drop (i * 16) data)) [0..<n])"
    by (intro arg_cong [where f = concat] map_cong)
      (use assms in \<open>auto simp: block_of_map_blocks [OF length_E] D_E\<close>)
  also have "\<dots> = data" by (rule concat_blocks [OF assms])
  finally show ?thesis .
qed

text \<open>Two messages of the same length with the same ciphertext are equal.\<close>

lemma map_blocks_injective:
  assumes "length x = 16 * n" and "length y = 16 * n" and "map_blocks E n x = map_blocks E n y"
  shows "x = y"
  using assms map_blocks_undone by metis

end

text \<open>A cipher that is a permutation of the blocks: decryption can be run first as well.\<close>

locale block_permutation = block_cipher +
  assumes E_D: "length b = 16 \<Longrightarrow> E (D b) = b"

sublocale block_permutation \<subseteq> inverse: block_cipher D E
  by unfold_locales (simp_all add: length_E length_D E_D)

text \<open>The code's cipher, for any key schedule and any contents of its output buffers.\<close>

interpretation aes: block_permutation
  "\<lambda>b. aes_encrypt b words (replicate 16 0)" "\<lambda>b. aes_decrypt b words (replicate 16 0)" for words
  by unfold_locales (simp_all add: aes_encrypt_wf length_aes_decrypt
      aes_decrypt_inverse_lemma aes_encrypt_inverse_lemma)

end
