(* ===== verification/C_String.thy ===== *)
theory C_String
  imports C_Prelude "HOL-Library.Char_ord"
begin

text \<open>
  Characters, C strings and the parts of \<^verbatim>\<open><string.h>\<close>, \<^verbatim>\<open><ctype.h>\<close> and \<^verbatim>\<open><stdio.h>\<close> the programs use.

  A C string is the list of its characters without the terminating zero byte; a character array is
  the list of all its elements, and \<open>c_str\<close> is the string it holds.  The scanning functions take the
  input that is left and return what they stored together with the input they leave.
\<close>

section \<open>Characters\<close>

abbreviation NUL :: char where "NUL \<equiv> CHR 0x00"
abbreviation newline :: char where "newline \<equiv> CHR 0x0A"
abbreviation cr :: char where "cr \<equiv> CHR 0x0D"

definition isspace :: "char \<Rightarrow> bool" where
  "isspace c \<longleftrightarrow> c \<in> {CHR '' '', CHR 0x09, CHR 0x0A, CHR 0x0B, CHR 0x0C, CHR 0x0D}"

definition isdigit :: "char \<Rightarrow> bool" where
  "isdigit c \<longleftrightarrow> c \<in> set ''0123456789''"

text \<open>In the \<open>C\<close> locale, which no program leaves.\<close>

definition tolower :: "char \<Rightarrow> char" where
  "tolower c = (if of_char c \<in> {65..90 :: nat} then char_of (of_char c + 32 :: nat) else c)"

definition byte_of_char :: "char \<Rightarrow> byte" where
  "byte_of_char c = of_char c"

definition char_of_byte :: "byte \<Rightarrow> char" where
  "char_of_byte b = char_of (unat b)"

lemma char_of_byte_of_char [simp]: "char_of_byte (byte_of_char c) = c"
proof -
  have "unat (of_nat (of_char c) :: byte) = of_char c"
    by (simp add: unsigned_of_nat take_bit_eq_mod)
  then show ?thesis by (simp add: char_of_byte_def byte_of_char_def of_nat_of_char)
qed

lemma byte_of_char_of_byte [simp]: "byte_of_char (char_of_byte b) = b"
proof -
  have "of_nat (of_char (char_of (unat b) :: char)) = b"
    by (simp add: take_bit_nat_eq_self)
  then show ?thesis by (simp only: char_of_byte_def byte_of_char_def of_nat_of_char)
qed

lemma char_of_byte_0 [simp]: "char_of_byte 0 = NUL"
  by (simp add: char_of_byte_def char_of_def)

section \<open>Strings in arrays\<close>

text \<open>\<open>strlen\<close> and every reader of a string walk to the first zero byte; with none they run off the
  end of the array.\<close>

definition c_str :: "string \<Rightarrow> string" where
  "c_str buf = takeWhile (\<lambda>c. c \<noteq> NUL) buf"

definition c_string_of :: "string \<Rightarrow> c_error + string" where
  "c_string_of buf = (if NUL \<in> set buf then Inr (c_str buf) else Inl Out_of_bounds)"

lemma c_str_NUL_free [simp]: "NUL \<notin> set (c_str buf)"
  by (auto simp: c_str_def dest: set_takeWhileD)

lemma c_str_append_NUL: "NUL \<notin> set s \<Longrightarrow> c_str (s @ NUL # rest) = s"
  by (simp add: c_str_def takeWhile_append)

lemma c_str_id: "NUL \<notin> set s \<Longrightarrow> c_str s = s"
  by (auto simp: c_str_def takeWhile_eq_all_conv)

text \<open>The string at the start of an array whose elements may not be written yet (\<open>None\<close>).\<close>

fun string_in :: "char option list \<Rightarrow> c_error + string" where
  "string_in [] = Inl Out_of_bounds"
| "string_in (None # buf) = Inl Uninitialised"
| "string_in (Some c # buf) = (if c = NUL then Inr [] else rbind (string_in buf) (\<lambda>s. Inr (c # s)))"

lemma string_in_NUL_free: "string_in buf = Inr s \<Longrightarrow> NUL \<notin> set s"
  by (induction buf arbitrary: s rule: string_in.induct) (auto simp: rbind_eq_Inr split: if_splits)

lemma string_in_terminated:
  "NUL \<notin> set s \<Longrightarrow> string_in (map Some s @ Some NUL # buf) = Inr s"
  by (induction s) auto

lemma string_in_uninitialised:
  "NUL \<notin> set s \<Longrightarrow> string_in (map Some s @ None # buf) = Inl Uninitialised"
  by (induction s) auto

section \<open>Reading\<close>

text \<open>\<open>scanf("%<w>s")\<close>: skip white space, then at most \<open>w\<close> other characters (\<open>%s\<close>: no limit).\<close>

definition scan_word :: "string \<Rightarrow> string \<times> string" where
  "scan_word inp =
    (let rest = dropWhile isspace inp
     in (takeWhile (\<lambda>c. \<not> isspace c) rest, dropWhile (\<lambda>c. \<not> isspace c) rest))"

definition scan_word_max :: "nat \<Rightarrow> string \<Rightarrow> string \<times> string" where
  "scan_word_max w inp =
    (let rest = dropWhile isspace inp;
         word = take w (takeWhile (\<lambda>c. \<not> isspace c) rest)
     in (word, drop (length word) rest))"

text \<open>\<open>sscanf(inp, "%s", a)\<close> for an array of \<open>cap\<close> characters: a word that does not fit overruns it, and
  without a word the array stays as it was (\<open>None\<close>).\<close>

definition sscanf_field :: "nat \<Rightarrow> string \<Rightarrow> c_error + string option \<times> string" where
  "sscanf_field cap inp =
    (let (w, rest) = scan_word inp
     in if w = [] then Inr (None, rest)
        else if cap \<le> length w then Inl Out_of_bounds else Inr (Some w, rest))"

text \<open>\<open>fgets(buf, n, fp)\<close>: at most \<open>n - 1\<close> characters, up to and with the first newline; \<open>None\<close> at
  the end of the input.\<close>

definition line_of :: "string \<Rightarrow> string" where
  "line_of inp =
    (let l = takeWhile (\<lambda>c. c \<noteq> newline) inp
     in if length l < length inp then l @ [newline] else l)"

definition fgets :: "nat \<Rightarrow> string \<Rightarrow> (string \<times> string) option" where
  "fgets n inp =
    (if inp = [] then None
     else let l = take (n - 1) (line_of inp) in Some (l, drop (length l) inp))"

lemma line_of_newline: "newline \<notin> set l \<Longrightarrow> line_of (l @ newline # rest) = l @ [newline]"
  by (simp add: line_of_def takeWhile_append)

lemma scan_word_word:
  assumes "w \<noteq> []" and "\<forall>c \<in> set w. \<not> isspace c" and "rest = [] \<or> isspace (hd rest)"
  shows "scan_word (w @ rest) = (w, rest)"
proof -
  have "dropWhile isspace (w @ rest) = w @ rest"
    using assms(1,2) by (cases w) auto
  moreover have "takeWhile (\<lambda>c. \<not> isspace c) (w @ rest) = w"
    using assms(2,3) by (cases rest) (auto simp: takeWhile_append)
  moreover have "dropWhile (\<lambda>c. \<not> isspace c) (w @ rest) = rest"
    using assms(2,3) by (cases rest) (auto simp: dropWhile_append)
  ultimately show ?thesis by (simp add: scan_word_def Let_def)
qed

lemma scan_word_space: "isspace c \<Longrightarrow> scan_word (c # rest) = scan_word rest"
  by (simp add: scan_word_def)

text \<open>A text file read with \<open>fgets\<close> into 8192 characters, each buffer cut at its newline.\<close>

lemma fgets_decreases:
  assumes "fgets n inp = Some (l, rest)" and "2 \<le> n"
  shows "length rest < length inp"
proof -
  have "inp \<noteq> []" and l: "l = take (n - 1) (line_of inp)" and rest: "rest = drop (length l) inp"
    using assms(1) by (auto simp: fgets_def Let_def split: if_splits)
  then have "line_of inp \<noteq> []" by (cases inp) (auto simp: line_of_def Let_def)
  then have "0 < length l" using assms(2) l by simp
  then show ?thesis using \<open>inp \<noteq> []\<close> rest by simp
qed

function file_lines :: "string \<Rightarrow> string list" where
  "file_lines inp =
    (case fgets 8192 inp of
       None \<Rightarrow> []
     | Some (l, rest) \<Rightarrow> takeWhile (\<lambda>c. c \<noteq> newline) (c_str l) # file_lines rest)"
  by pat_completeness auto
termination
  by (relation "measure length") (auto dest: fgets_decreases)

declare file_lines.simps [simp del]

lemma file_lines_Nil [simp]: "file_lines [] = []"
  by (simp add: file_lines.simps fgets_def)

lemma file_lines_line:
  assumes "newline \<notin> set l" and "NUL \<notin> set l" and "length l < 8191"
  shows "file_lines (l @ newline # rest) = l # file_lines rest"
proof -
  have "fgets 8192 (l @ newline # rest) = Some (l @ [newline], rest)"
    using assms by (simp add: fgets_def line_of_newline)
  moreover have "takeWhile (\<lambda>c. c \<noteq> newline) (c_str (l @ [newline])) = l"
    using assms by (simp add: c_str_def takeWhile_append takeWhile_eq_all_conv)
  ultimately show ?thesis by (simp add: file_lines.simps [of "l @ newline # rest"])
qed

lemma file_lines_free: "l \<in> set (file_lines inp) \<Longrightarrow> NUL \<notin> set l \<and> newline \<notin> set l"
proof (induction inp rule: file_lines.induct)
  case (1 inp)
  show ?case
  proof (cases "fgets 8192 inp")
    case (Some p)
    obtain k rest where p: "p = (k, rest)" by fastforce
    then have "l = takeWhile (\<lambda>c. c \<noteq> newline) (c_str k) \<or> l \<in> set (file_lines rest)"
      using 1(2) Some by (simp add: file_lines.simps [of inp])
    then show ?thesis using 1(1) [OF Some] p by (auto dest!: set_takeWhileD)
  qed (use 1(2) in \<open>simp add: file_lines.simps [of inp]\<close>)
qed

text \<open>\<open>strstr\<close>: the position of the first occurrence of \<open>p\<close>, if there is one.\<close>

definition strstr :: "string \<Rightarrow> string \<Rightarrow> nat option" where
  "strstr s p = List.find (\<lambda>i. take (length p) (drop i s) = p) [0..<Suc (length s)]"

lemma strstr_SomeD: "strstr s p = Some i \<Longrightarrow> s = take i s @ p @ drop (i + length p) s"
  unfolding strstr_def find_Some_iff
  by (metis append_take_drop_id drop_drop add.commute nth_upt add_0 length_upt diff_zero)

lemma strstr_None_iff: "strstr s p = None \<longleftrightarrow> (\<forall>us vs. s \<noteq> us @ p @ vs)"
proof
  assume none: "strstr s p = None"
  show "\<forall>us vs. s \<noteq> us @ p @ vs"
  proof (intro allI notI)
    fix us vs assume s: "s = us @ p @ vs"
    then have "length us \<in> set [0..<Suc (length s)]" by simp
    moreover have "take (length p) (drop (length us) s) = p" by (simp add: s)
    ultimately show False using none by (auto simp: strstr_def find_None_iff)
  qed
next
  assume "\<forall>us vs. s \<noteq> us @ p @ vs"
  then show "strstr s p = None" using strstr_SomeD by (cases "strstr s p") blast+
qed

section \<open>Splitting\<close>

text \<open>The pieces between separators, and the fields: the pieces that are not empty.\<close>

fun split_at :: "('a \<Rightarrow> bool) \<Rightarrow> 'a list \<Rightarrow> 'a list list" where
  "split_at P [] = [[]]"
| "split_at P (x # xs) =
    (if P x then [] # split_at P xs
     else case split_at P xs of [] \<Rightarrow> [[x]] | y # ys \<Rightarrow> (x # y) # ys)"

definition fields_of :: "('a \<Rightarrow> bool) \<Rightarrow> 'a list \<Rightarrow> 'a list list" where
  "fields_of P xs = filter (\<lambda>t. t \<noteq> []) (split_at P xs)"

lemma fields_Nil [simp]: "fields_of P [] = []"
  by (simp add: fields_of_def)

lemma fields_separator [simp]: "P x \<Longrightarrow> fields_of P (x # xs) = fields_of P xs"
  by (simp add: fields_of_def)

lemma split_at_nonempty: "split_at P xs \<noteq> []"
  by (induction xs) (auto split: list.splits)

lemma split_at_append:
  "\<forall>x \<in> set t. \<not> P x \<Longrightarrow> split_at P (t @ xs) = (t @ hd (split_at P xs)) # tl (split_at P xs)"
proof (induction t)
  case Nil
  then show ?case by (cases xs) (auto split: list.splits)
qed (auto split: list.splits)

lemma fields_field:
  assumes "\<forall>x \<in> set t. \<not> P x" and "t \<noteq> []" and "xs = [] \<or> P (hd xs)"
  shows "fields_of P (t @ xs) = t # fields_of P xs"
  using assms split_at_append [of t P xs] by (cases xs) (auto simp: fields_of_def)

lemma fields_dropWhile: "fields_of P (dropWhile P xs) = fields_of P xs"
  by (induction xs) simp_all

lemma fields_step:
  assumes "dropWhile P xs = r" and "r \<noteq> []"
  shows "fields_of P xs = takeWhile (\<lambda>x. \<not> P x) r # fields_of P (dropWhile (\<lambda>x. \<not> P x) r)"
proof -
  let ?t = "takeWhile (\<lambda>x. \<not> P x) r" and ?u = "dropWhile (\<lambda>x. \<not> P x) r"
  have "\<not> P (hd r)" using assms hd_dropWhile by blast
  then have t: "?t \<noteq> []" using assms(2) by (cases r) simp_all
  have u: "?u = [] \<or> P (hd ?u)" using hd_dropWhile [of "\<lambda>x. \<not> P x" r] by (cases "?u = []") simp_all
  have free: "\<forall>x \<in> set ?t. \<not> P x" using set_takeWhileD by fast
  have "fields_of P xs = fields_of P (?t @ ?u)" using fields_dropWhile [of P xs] assms(1) by simp
  also have "\<dots> = ?t # fields_of P ?u" by (rule fields_field [OF free t u])
  finally show ?thesis .
qed

lemma split_at_separator:
  "P d \<Longrightarrow> split_at P (xs @ d # ys) = split_at P xs @ split_at P ys"
proof (induction xs)
  case (Cons x xs)
  then show ?case using split_at_nonempty [of P xs] by (auto split: list.splits)
qed simp

lemma fields_append_separator:
  "P d \<Longrightarrow> fields_of P (xs @ d # ys) = fields_of P xs @ fields_of P ys"
  by (simp add: fields_of_def split_at_separator)

lemma fields_single: "\<forall>x \<in> set t. \<not> P x \<Longrightarrow> fields_of P t = (if t = [] then [] else [t])"
  using fields_field [of t P "[]"] by simp

text \<open>A prefix that is empty or ends with a separator has its own fields.\<close>

lemma fields_append:
  assumes "xs = [] \<or> P (last xs)"
  shows "fields_of P (xs @ ys) = fields_of P xs @ fields_of P ys"
proof (cases "xs = []")
  case False
  then obtain us d where "xs = us @ [d]" "P d" using assms by (metis append_butlast_last_id)
  then show ?thesis using fields_append_separator [of P d us] by simp
qed simp

lemma fields_free: "t \<in> set (fields_of P xs) \<Longrightarrow> set t \<subseteq> set xs \<and> (\<forall>x \<in> set t. \<not> P x)"
proof -
  have "t \<in> set (split_at P xs) \<Longrightarrow> set t \<subseteq> set xs \<and> (\<forall>x \<in> set t. \<not> P x)"
    by (induction xs arbitrary: t) (fastforce split: if_splits list.splits)+
  then show "t \<in> set (fields_of P xs) \<Longrightarrow> ?thesis" by (simp add: fields_of_def)
qed

lemma fields_blank: "\<forall>x \<in> set xs. P x \<Longrightarrow> fields_of P xs = []"
  by (induction xs) simp_all

text \<open>
  \<open>strtok\<close> on the characters from its saved position on.  The result holds the token, the characters
  of the array after the zero byte that now ends the token, and the new saved position.
\<close>

definition strtok :: "string \<Rightarrow> string \<Rightarrow> c_error + (string \<times> string) option \<times> string" where
  "strtok s delims =
    (let r = dropWhile (\<lambda>c. c \<in> set delims) s
     in if r = [] then Inl Out_of_bounds
        else if hd r = NUL then Inr (None, r)
        else
          let token = takeWhile (\<lambda>c. c \<noteq> NUL \<and> c \<notin> set delims) r;
              rest = drop (length token) r
          in if rest = [] then Inl Out_of_bounds
             else Inr (Some (token, tl rest), if hd rest = NUL then rest else tl rest))"

text \<open>The tokens are the fields of the string: each call takes the first and leaves the others.\<close>

lemma c_str_dropWhile: "\<not> P NUL \<Longrightarrow> c_str (dropWhile P s) = dropWhile P (c_str s)"
  by (induction s) (auto simp: c_str_def)

lemma takeWhile_c_str: "takeWhile (\<lambda>c. c \<noteq> NUL \<and> P c) s = takeWhile P (c_str s)"
  by (induction s) (auto simp: c_str_def)

lemma c_str_dropWhile_until:
  "c_str (dropWhile (\<lambda>c. c \<noteq> NUL \<and> P c) s) = dropWhile P (c_str s)"
  by (induction s) (auto simp: c_str_def)

lemma count_NUL_dropWhile: "\<not> P NUL \<Longrightarrow> count_list (dropWhile P s) NUL = count_list s NUL"
  by (induction s) auto

lemma count_NUL_drop_takeWhile:
  "\<not> P NUL \<Longrightarrow> count_list (drop (length (takeWhile P s)) s) NUL = count_list s NUL"
  by (simp add: count_NUL_dropWhile flip: dropWhile_eq_drop)

lemma c_str_Nil_iff: "c_str s = [] \<longleftrightarrow> s = [] \<or> hd s = NUL"
  by (cases s) (auto simp: c_str_def)

lemma fields_eq_Nil: "fields_of P xs = [] \<longleftrightarrow> dropWhile P xs = []"
  using fields_step [of P xs] fields_blank [of xs P] by (cases "dropWhile P xs = []") auto

lemma strtok_None:
  assumes "NUL \<in> set s" and "NUL \<notin> set delims" and "fields_of (\<lambda>c. c \<in> set delims) (c_str s) = []"
  shows "\<exists>r. strtok s delims = Inr (None, NUL # r)"
proof -
  let ?r = "dropWhile (\<lambda>c. c \<in> set delims) s"
  have "?r \<noteq> []" using assms(1,2) by auto
  moreover have "c_str ?r = []"
    using assms(2,3) by (simp only: fields_eq_Nil) (simp only: c_str_dropWhile not_False_eq_True)
  ultimately have "strtok s delims = Inr (None, ?r)" "hd ?r = NUL"
    by (auto simp: strtok_def Let_def c_str_Nil_iff)
  then show ?thesis using \<open>?r \<noteq> []\<close> by (cases ?r) auto
qed

lemma strtok_Some:
  assumes s: "NUL \<in> set s" and d: "NUL \<notin> set delims"
    and f: "fields_of (\<lambda>c. c \<in> set delims) (c_str s) = t # ts"
  shows "\<exists>after save. strtok s delims = Inr (Some (t, after), save)
    \<and> fields_of (\<lambda>c. c \<in> set delims) (c_str save) = ts
    \<and> count_list save NUL = count_list s NUL \<and> count_list s NUL \<le> Suc (count_list after NUL)"
proof -
  let ?P = "\<lambda>c. c \<in> set delims"
  let ?r = "dropWhile ?P s"
  let ?t = "takeWhile (\<lambda>c. c \<noteq> NUL \<and> c \<notin> set delims) ?r"
  let ?rest = "drop (length ?t) ?r"
  have c: "c_str ?r = dropWhile ?P (c_str s)" using d by (simp add: c_str_dropWhile)
  have ne: "c_str ?r \<noteq> []" using f fields_eq_Nil [of ?P "c_str s"] c by auto
  have count: "count_list ?rest NUL = count_list s NUL"
    using d by (simp add: count_NUL_drop_takeWhile count_NUL_dropWhile)
  then have rest: "?rest \<noteq> []" using s by (metis count_list_0_iff count_list.simps(1))
  have t: "?t = takeWhile (\<lambda>c. \<not> ?P c) (c_str ?r)" by (simp add: takeWhile_c_str)
  have "c_str ?rest = dropWhile (\<lambda>c. \<not> ?P c) (c_str ?r)"
    unfolding dropWhile_eq_drop [symmetric] c_str_dropWhile_until ..
  moreover have "fields_of ?P (c_str s) = takeWhile (\<lambda>c. \<not> ?P c) (c_str ?r) # fields_of ?P (dropWhile (\<lambda>c. \<not> ?P c) (c_str ?r))"
    by (rule fields_step [OF c [symmetric] ne])
  ultimately have ft: "?t = t" "fields_of ?P (c_str ?rest) = ts" using f t by auto
  let ?save = "if hd ?rest = NUL then ?rest else tl ?rest"
  have "strtok s delims = Inr (Some (t, tl ?rest), ?save)"
    using ne rest ft(1) by (auto simp: strtok_def Let_def c_str_Nil_iff)
  moreover obtain x xs where x: "?rest = x # xs" using rest by (cases ?rest) blast
  have "?P x \<or> x = NUL"
    using x hd_dropWhile [of "\<lambda>c. c \<noteq> NUL \<and> c \<notin> set delims" ?r]
    by (auto simp: dropWhile_eq_drop)
  then have "fields_of ?P (c_str ?save) = ts"
    using ft(2) by (auto simp: x c_str_def)
  moreover have "count_list ?save NUL = count_list s NUL"
    "count_list s NUL \<le> Suc (count_list (tl ?rest) NUL)"
    using count by (auto simp: x split: if_splits)
  ultimately show ?thesis by blast
qed

section \<open>Printing\<close>

text \<open>\<open>printf("%02X")\<close> of a byte.\<close>

definition hex_digit :: "nat \<Rightarrow> char" where
  "hex_digit n = ''0123456789ABCDEF'' ! n"

definition print_02X :: "byte \<Rightarrow> string" where
  "print_02X b = [hex_digit (unat b div 16), hex_digit (unat b mod 16)]"

lemma length_print_02X [simp]: "length (print_02X b) = 2"
  by (simp add: print_02X_def)

text \<open>\<open>printf("%d")\<close>.\<close>

fun print_nat :: "nat \<Rightarrow> string" where
  "print_nat n = (if n < 10 then [''0123456789'' ! n] else print_nat (n div 10) @ [''0123456789'' ! (n mod 10)])"

declare print_nat.simps [simp del]

lemma length_print_nat: "n < 10 ^ k \<Longrightarrow> 0 < k \<Longrightarrow> length (print_nat n) \<le> k"
proof (induction n arbitrary: k rule: print_nat.induct)
  case (1 n)
  show ?case
  proof (cases "n < 10")
    case False
    then obtain j where k: "k = Suc j" "0 < j" using 1(2,3) by (cases k; cases "k = 1") auto
    then have "n div 10 < 10 ^ j" using 1(2) by (simp add: less_mult_imp_div_less mult.commute)
    then show ?thesis using 1(1) [OF False] False k by (simp add: print_nat.simps [of n])
  qed (use 1(3) in \<open>simp add: print_nat.simps [of n]\<close>)
qed

lemma print_nat_digits: "set (print_nat n) \<subseteq> set ''0123456789''"
proof (induction n rule: print_nat.induct)
  case (1 n)
  have "m < 10 \<Longrightarrow> ''0123456789'' ! m \<in> set ''0123456789''" for m by (rule nth_mem) simp
  then show ?case using 1 by (subst print_nat.simps) auto
qed

definition print_int :: "int \<Rightarrow> string" where
  "print_int i = (if i < 0 then CHR ''-'' # print_nat (nat (- i)) else print_nat (nat i))"

lemma length_print_int:
  assumes "- (10 ^ k) < i" and "i < 10 ^ k" and "0 < k"
  shows "length (print_int i) \<le> Suc k"
  using assms length_print_nat [of "nat i" k] length_print_nat [of "nat (- i)" k]
  by (simp add: print_int_def nat_less_iff)

lemma print_int_no_NUL: "NUL \<notin> set (print_int i)"
  using print_nat_digits by (auto simp: print_int_def)

section \<open>Reading numbers\<close>

text \<open>\<open>scanf("%d")\<close>: white space, a sign, digits; without a digit nothing is stored (\<open>None\<close>).\<close>

definition digit_value :: "char \<Rightarrow> nat" where
  "digit_value c = of_char c - 48"

definition nat_of_digits :: "string \<Rightarrow> nat" where
  "nat_of_digits ds = foldl (\<lambda>n c. 10 * n + digit_value c) 0 ds"

definition scan_int :: "string \<Rightarrow> int option \<times> string" where
  "scan_int inp =
    (let rest = dropWhile isspace inp;
         neg = (rest \<noteq> [] \<and> hd rest = CHR ''-'');
         rest = (if rest \<noteq> [] \<and> (hd rest = CHR ''-'' \<or> hd rest = CHR ''+'') then tl rest else rest);
         ds = takeWhile isdigit rest
     in if ds = [] then (None, rest)
        else (Some (if neg then - int (nat_of_digits ds) else int (nat_of_digits ds)), dropWhile isdigit rest))"

lemma digit_value_nth: "m < 10 \<Longrightarrow> digit_value (''0123456789'' ! m) = m"
proof -
  have "\<forall>m \<in> set [0..<10]. digit_value (''0123456789'' ! m) = m" by (simp add: upt_rec digit_value_def)
  then show "m < 10 \<Longrightarrow> ?thesis" by auto
qed

lemma nat_of_print_nat: "nat_of_digits (print_nat n) = n"
proof (induction n rule: print_nat.induct)
  case (1 n)
  show ?case
  proof (cases "n < 10")
    case True
    then show ?thesis by (simp add: print_nat.simps [of n] nat_of_digits_def digit_value_nth)
  next
    case False
    then have "nat_of_digits (print_nat n) = 10 * nat_of_digits (print_nat (n div 10)) + n mod 10"
      by (simp add: print_nat.simps [of n] nat_of_digits_def digit_value_nth)
    then show ?thesis using 1 False by simp
  qed
qed

lemma print_nat_isdigit: "c \<in> set (print_nat n) \<Longrightarrow> isdigit c"
  using print_nat_digits [of n] unfolding isdigit_def by blast

lemma print_nat_nonempty [simp]: "print_nat n \<noteq> []"
  by (subst print_nat.simps) simp

lemma isdigit_not_isspace: "isdigit c \<Longrightarrow> \<not> isspace c \<and> c \<noteq> CHR ''-'' \<and> c \<noteq> CHR ''+''"
proof -
  have "\<forall>c \<in> set ''0123456789''. \<not> isspace c \<and> c \<noteq> CHR ''-'' \<and> c \<noteq> CHR ''+''"
    by (simp add: isspace_def)
  then show "isdigit c \<Longrightarrow> ?thesis" unfolding isdigit_def by blast
qed

lemma scan_print_int:
  assumes "rest = [] \<or> \<not> isdigit (hd rest)"
  shows "scan_int (print_int i @ rest) = (Some i, rest)"
proof -
  have ds: "takeWhile isdigit (print_nat n @ rest) = print_nat n" "dropWhile isdigit (print_nat n @ rest) = rest" for n
    using assms print_nat_isdigit [of _ n]
    by (cases rest; simp add: takeWhile_append dropWhile_append)+
  show ?thesis
  proof (cases "i < 0")
    case True
    then have "dropWhile isspace (print_int i @ rest) = CHR ''-'' # print_nat (nat (- i)) @ rest"
      by (simp add: print_int_def isspace_def)
    then show ?thesis using True by (simp add: scan_int_def Let_def ds nat_of_print_nat)
  next
    case False
    obtain c cs where c: "print_nat (nat i) = c # cs" "isdigit c"
      by (metis list.exhaust list.set_intros(1) print_nat_isdigit print_nat_nonempty)
    then have "dropWhile isspace (print_int i @ rest) = print_nat (nat i) @ rest" "hd (print_nat (nat i) @ rest) = c"
      using False isdigit_not_isspace [of c] by (simp_all add: print_int_def)
    then show ?thesis
      using False isdigit_not_isspace [OF c(2)] by (simp add: scan_int_def Let_def ds nat_of_print_nat)
  qed
qed

lemma scan_int_space: "isspace c \<Longrightarrow> scan_int (c # rest) = scan_int rest"
  by (simp add: scan_int_def)

end
