(* ===== verification/AES_Programs.thy ===== *)
theory AES_Programs
  imports AES_Inverse C_String
begin

text \<open>
  The programs around the cipher in \<^verbatim>\<open>cryptography/AES_Algo\<close>: padding and the block loop of
  \<^verbatim>\<open>aes_encrypt.c\<close>, the same padding in \<^verbatim>\<open>string_input_processing.c\<close>, the hexadecimal input and the block
  loop of \<^verbatim>\<open>aes_decrypt.c\<close>, and the key generator \<^verbatim>\<open>key_gen.c\<close>.

  Standard input is a string; a program returns its exit status and the last line it prints (the
  progress messages are not modelled).  Memory from \<open>calloc\<close> is zero, memory from \<open>malloc\<close> is
  indeterminate (\<open>None\<close>), and a store outside an allocation is \<open>Inl Out_of_bounds\<close>.
\<close>

section \<open>Padding\<close>

text \<open>The argument \<open>block\<close> of the C function points into the buffer, at offset \<open>off\<close>.\<close>

definition apply_pkcs7_padding :: "byte list \<Rightarrow> nat \<Rightarrow> nat \<Rightarrow> c_error + byte list" where
  "apply_pkcs7_padding buf off data_len =
    (let padding_len = 16 - data_len
     in for_to data_len 16
          (\<lambda>i r. rbind r (\<lambda>buf. mem_write buf (off + i) (word_of_nat padding_len))) (Inr buf))"

definition memcpy_to :: "byte list \<Rightarrow> byte list \<Rightarrow> c_error + byte list" where
  "memcpy_to dst src =
    (if length src \<le> length dst then Inr (splice dst 0 src) else Inl Out_of_bounds)"

definition padding_function :: "byte list \<Rightarrow> nat \<Rightarrow> nat \<Rightarrow> c_error + byte list" where
  "padding_function input_array num_blocks input_len =
    rbind (memcpy_to (replicate (num_blocks * 16) 0) (take input_len input_array)) (\<lambda>padded_data.
      let last_block_len = input_len mod 16
      in if last_block_len = 0
         then for_to 0 16 (\<lambda>i r. rbind r (\<lambda>buf. mem_write buf (input_len + i) 16)) (Inr padded_data)
         else apply_pkcs7_padding padded_data ((num_blocks - 1) * 16) last_block_len)"

definition blocks_needed :: "nat \<Rightarrow> nat" where
  "blocks_needed input_len =
    (let num_blocks = input_len div 16
     in if input_len mod 16 \<noteq> 0 then num_blocks + 1 else num_blocks)"

text \<open>The newline that \<open>fgets\<close> leaves; on an empty string the index \<open>input_len - 1\<close> is out of range.\<close>

definition strip_newline :: "string \<Rightarrow> c_error + string" where
  "strip_newline input_array =
    (if input_array = [] then Inl Out_of_bounds
     else if last input_array = newline then Inr (butlast input_array) else Inr input_array)"

text \<open>\<open>padding_function\<close> of \<^verbatim>\<open>string_input_processing.c\<close>, which counts the blocks itself.\<close>

definition sip_padding_function :: "string \<Rightarrow> c_error + byte list" where
  "sip_padding_function input_array =
    rbind (strip_newline (c_str input_array)) (\<lambda>text.
      let input_len = length text;
          num_blocks = input_len div 16;
          num_blocks = (if input_len mod 16 \<noteq> 0 then num_blocks + 1 else num_blocks)
      in rbind (memcpy_to (replicate (num_blocks * 16) 0) (map byte_of_char text)) (\<lambda>padded_data.
           let last_block_len = input_len mod 16
           in if last_block_len = 0
              then for_to 0 16 (\<lambda>i r. rbind r (\<lambda>buf. mem_write buf (input_len + i) 16)) (Inr padded_data)
              else apply_pkcs7_padding padded_data ((num_blocks - 1) * 16) last_block_len))"

section \<open>The encryption program\<close>

text \<open>The loops that print bytes with \<open>"%02X"\<close>.\<close>

definition hex_string :: "byte list \<Rightarrow> string" where
  "hex_string bs = concat (map print_02X bs)"

definition encryption_main :: "word32 list \<Rightarrow> byte list \<Rightarrow> nat \<Rightarrow> c_error + string" where
  "encryption_main words padded_data num_blocks =
    (if num_blocks = 0 \<or> 1000 < num_blocks then Inl Exit_failure
     else if length padded_data < 16 * num_blocks then Inl Out_of_bounds
     else let final_ciphertext =
            map_blocks (\<lambda>block. aes_encrypt block words (replicate 16 0)) num_blocks padded_data
          in Inr (hex_string final_ciphertext))"

definition flush_input :: "string \<Rightarrow> string" where
  "flush_input inp = tl (dropWhile (\<lambda>c. c \<noteq> newline) inp)"

definition aes_encrypt_main :: "string \<Rightarrow> c_error + nat \<times> string" where
  "aes_encrypt_main inp =
    (let (input_key, inp) = scan_word_max 32 inp
     in if input_key = [] then Inl Uninitialised
        else if length (c_str input_key) \<noteq> 32
        then Inr (1, ''Error: You must enter exactly 32 hexadecimal characters (128 bits).'')
        else let words = KeyExpansion (replicate 44 0) (read_key_bytes input_key)
             in case fgets 1024 (flush_input inp) of
                  None \<Rightarrow> Inl Uninitialised
                | Some (input_array, _) \<Rightarrow>
                    rbind (strip_newline (c_str input_array)) (\<lambda>text.
                      let num_blocks = blocks_needed (length text)
                      in rbind (padding_function (map byte_of_char text) num_blocks (length text)) (\<lambda>padded_data.
                         rbind (encryption_main words padded_data num_blocks) (\<lambda>out. Inr (0, out)))))"

section \<open>The decryption program\<close>

definition hex_value :: "char \<Rightarrow> nat option" where
  "hex_value c = map_of (zip ''0123456789ABCDEFabcdef''
     ([0..<16] @ [10..<16])) c"

text \<open>
  \<open>sscanf(s, "%2hhx", p)\<close>: white space is skipped, then at most two characters are taken: digits, or
  a sign and a digit.  Anything else (also the prefix \<open>0x\<close> alone) is a matching failure, and \<open>*p\<close>
  keeps its value.
\<close>

definition scan_2hhx :: "string \<Rightarrow> byte option" where
  "scan_2hhx s =
    (case take 2 (dropWhile isspace s) of
       [] \<Rightarrow> None
     | [a] \<Rightarrow> map_option word_of_nat (hex_value a)
     | a # b # _ \<Rightarrow>
         (if a = CHR ''+'' then map_option word_of_nat (hex_value b)
          else if a = CHR ''-'' then map_option (\<lambda>v. - word_of_nat v) (hex_value b)
          else if a = CHR ''0'' \<and> (b = CHR ''x'' \<or> b = CHR ''X'') then None
          else case hex_value a of
                 None \<Rightarrow> None
               | Some u \<Rightarrow>
                   (case hex_value b of
                      None \<Rightarrow> Some (word_of_nat u)
                    | Some v \<Rightarrow> Some (word_of_nat (16 * u + v)))))"

definition hex_string_to_bytes :: "string \<Rightarrow> byte option list \<Rightarrow> nat \<Rightarrow> c_error + byte option list" where
  "hex_string_to_bytes hex_str bytes len =
     for_to 0 (len div 2)
       (\<lambda>i r. rbind r (\<lambda>bytes. case scan_2hhx (drop (2 * i) hex_str) of
            None \<Rightarrow> Inr bytes
          | Some b \<Rightarrow> mem_write bytes i (Some b)))
       (Inr bytes)"

text \<open>Reading an array all of whose elements must have been written.\<close>

definition initialised :: "byte option list \<Rightarrow> c_error + byte list" where
  "initialised xs = (if None \<in> set xs then Inl Uninitialised else Inr (map the xs))"

text \<open>
  \<open>decryption_main\<close>, with the allocations succeeding: \<open>decrypted_buffer\<close> is its buffer \<open>plaintext\<close>
  after the loop over the blocks.  The text that is printed then ends where \<open>strlen\<close> finds a zero byte
  in the buffer, which has none of its own.
\<close>

definition decrypted_buffer :: "word32 list \<Rightarrow> string \<Rightarrow> c_error + byte list" where
  "decrypted_buffer words encrypted_text =
    (let input_len = length encrypted_text;
         num_blocks = input_len div 32;
         cipher_bytes = replicate (16 * num_blocks) None
     in rbind (hex_string_to_bytes encrypted_text cipher_bytes input_len) (\<lambda>cipher_bytes.
        if num_blocks = 0 \<or> 1000 < num_blocks then Inl Exit_failure
        else rbind (initialised cipher_bytes) (\<lambda>cipher_bytes.
          Inr (map_blocks (\<lambda>block. aes_decrypt block words (replicate 16 0)) num_blocks cipher_bytes))))"

definition decryption_main :: "word32 list \<Rightarrow> string \<Rightarrow> c_error + string" where
  "decryption_main words encrypted_text =
    rbind (decrypted_buffer words encrypted_text) (\<lambda>plaintext. c_string_of (map char_of_byte plaintext))"

definition aes_decrypt_main :: "c_error + string" where
  "aes_decrypt_main =
    (let input_key = ''1CDFAABAB7B9BA7E0EE939035F8165AA'';
         encrypted_text = ''91065FB466C4F25EF84CC9E0F7F4F9FA'';
         words = KeyExpansion (replicate 44 0) (read_key_bytes input_key)
     in decryption_main words encrypted_text)"

section \<open>The key generator\<close>

text \<open>\<open>RAND_bytes\<close> of OpenSSL is the argument \<open>rand_bytes\<close>: its return value and the bytes it stores.\<close>

definition key_generator :: "bool \<Rightarrow> (nat \<Rightarrow> int \<times> byte list) \<Rightarrow> byte list option" where
  "key_generator malloc_ok rand_bytes =
    (if \<not> malloc_ok then None
     else case rand_bytes 16 of (ret, key) \<Rightarrow> if ret \<noteq> 1 then None else Some key)"

definition key_gen_main :: "bool \<Rightarrow> (nat \<Rightarrow> int \<times> byte list) \<Rightarrow> nat \<times> string" where
  "key_gen_main malloc_ok rand_bytes =
    (case key_generator malloc_ok rand_bytes of
       None \<Rightarrow> (1, '''')
     | Some generatedKey \<Rightarrow> (0, hex_string generatedKey))"

section \<open>Padding is PKCS\#7, or runs off the buffer\<close>

definition pkcs7_pad :: "byte list \<Rightarrow> byte list" where
  "pkcs7_pad text = (let k = 16 - length text mod 16 in text @ replicate k (word_of_nat k))"

definition pkcs7_unpad :: "byte list \<Rightarrow> byte list" where
  "pkcs7_unpad data = take (length data - unat (last data)) data"

lemma unpad_pad: "pkcs7_unpad (pkcs7_pad text) = text"
proof -
  define k where "k = 16 - length text mod 16"
  have "k < 256" "k \<noteq> 0" using mod_less_divisor [of 16 "length text"] by (auto simp: k_def)
  then have "unat (word_of_nat k :: byte) = k" "k \<noteq> 0" by (simp_all add: unat_of_nat)
  then show ?thesis by (simp add: pkcs7_pad_def pkcs7_unpad_def flip: k_def)
qed

lemma length_pkcs7_pad: "length (pkcs7_pad text) = 16 * (length text div 16 + 1)"
  by (simp add: pkcs7_pad_def) presburger

lemma blocks_needed_eq:
  "blocks_needed n = (if n mod 16 = 0 then n div 16 else n div 16 + 1)"
  by (simp add: blocks_needed_def Let_def)

lemma map_const_upt: "map (\<lambda>i. c) [a..<b] = replicate (b - a) c"
  by (simp add: map_replicate_const)

lemma padding_function_partial:
  assumes "length text mod 16 \<noteq> 0"
  shows "padding_function text (blocks_needed (length text)) (length text) = Inr (pkcs7_pad text)"
proof -
  define q r where "q = length text div 16" and "r = length text mod 16"
  have n: "length text = q * 16 + r" by (simp add: q_def r_def)
  have r: "0 < r" "r < 16" using assms by (simp_all add: r_def)
  have buf: "splice (replicate (16 + q * 16) 0) 0 text = text @ replicate (16 - r) 0"
    using r by (simp add: splice_def n)
  have "write_loop (q * 16) r 16 (\<lambda>_. word_of_nat (16 - r)) (text @ replicate (16 - r) 0)
      = Inr (text @ replicate (16 - r) (word_of_nat (16 - r)))"
    using r by (subst write_loop_ok) (simp_all add: n map_const_upt)
  with buf show ?thesis
    using r by (simp add: padding_function_def memcpy_to_def apply_pkcs7_padding_def blocks_needed_eq
        Let_def pkcs7_pad_def n add.commute)
qed

lemma padding_function_full:
  assumes "length text mod 16 = 0"
  shows "padding_function text (blocks_needed (length text)) (length text) = Inl Out_of_bounds"
proof -
  have n: "length text = length text div 16 * 16" using assms by auto
  have "write_loop (length text) 0 16 (\<lambda>_. 16) (text :: byte list) = Inl Out_of_bounds"
    by (rule write_loop_overrun) simp_all
  then show ?thesis
    using assms n by (simp add: padding_function_def memcpy_to_def blocks_needed_eq splice_def Let_def)
qed

lemma sip_padding_function_eq:
  "sip_padding_function input_array =
    rbind (strip_newline (c_str input_array)) (\<lambda>text.
      padding_function (map byte_of_char text) (blocks_needed (length text)) (length text))"
  by (simp add: sip_padding_function_def padding_function_def blocks_needed_def Let_def)

section \<open>Hexadecimal output and input\<close>

lemma upt_10_16: "[0..<16] = [0, 1, 2, 3, 4, 5, 6, 7, 8, 9, 10, 11, 12, 13, 14, 15 :: nat]"
    "[10..<16] = [10, 11, 12, 13, 14, 15 :: nat]"
  by (simp_all add: upt_rec)

lemma hex_digit_table:
  "list_all (\<lambda>n. hex_char_to_int (hex_digit n) = word_of_nat n \<and> hex_value (hex_digit n) = Some n
     \<and> \<not> isspace (hex_digit n)
     \<and> hex_digit n \<notin> {CHR ''x'', CHR ''X'', CHR ''+'', CHR ''-'', NUL, newline}) [0..<16]"
  by (simp add: hex_char_to_int_def hex_digit_def hex_value_def upt_10_16 isspace_def)

lemma hex_digit_facts:
  assumes "n < 16"
  shows "hex_char_to_int (hex_digit n) = word_of_nat n" and "hex_value (hex_digit n) = Some n"
    and "\<not> isspace (hex_digit n)"
    and "hex_digit n \<notin> {CHR ''x'', CHR ''X'', CHR ''+'', CHR ''-'', NUL, newline}"
  using hex_digit_table assms unfolding list_all_iff by auto

lemma byte_digits:
  fixes b :: byte
  shows "word_of_nat (unat b div 16) = drop_bit 4 b" and "word_of_nat (unat b mod 16) = take_bit 4 b"
proof -
  have "unat (drop_bit 4 b) = unat b div 16"
    by (simp only: unsigned_drop_bit_eq) (simp add: drop_bit_eq_div take_bit_nat_eq_self)
  then show "word_of_nat (unat b div 16) = drop_bit 4 b" by (metis of_nat_unat ucast_id)
  have "unat (take_bit 4 b) = unat b mod 16"
    by (simp only: unsigned_take_bit_eq) (simp add: take_bit_eq_mod)
  then show "word_of_nat (unat b mod 16) = take_bit 4 b" by (metis of_nat_unat ucast_id)
qed

lemma hex_digits_of_byte:
  fixes b :: byte
  shows "unat b div 16 < 16" and "unat b mod 16 < 16"
  by (simp_all add: less_mult_imp_div_less)

lemmas hex_digits_facts = hex_digit_facts [OF hex_digits_of_byte(1)] hex_digit_facts [OF hex_digits_of_byte(2)]

lemma byte_halves: "push_bit 4 (drop_bit 4 b) OR take_bit 4 b = b" for b :: byte
  by (rule bit_eqI) (auto simp: bit_simps)

lemma hex_byte_print: "hex_byte (print_02X b @ rest) = b"
  by (simp add: hex_byte_def print_02X_def hex_digits_facts byte_digits byte_halves)

lemma scan_print: "scan_2hhx (print_02X b @ rest) = Some b"
  using hex_digits_facts [of b] by (simp add: scan_2hhx_def print_02X_def)

lemma hex_string_simps [simp]:
  "length (hex_string bs) = 2 * length bs"
  "hex_string [] = []"
  "hex_string (b # bs) = print_02X b @ hex_string bs"
  by (induction bs) (simp_all add: hex_string_def)

lemma hex_string_eq_Nil [simp]: "hex_string bs = [] \<longleftrightarrow> bs = []"
  by (cases bs) (simp_all add: print_02X_def)

lemma hex_string_nth_pair:
  "i < length bs \<Longrightarrow> drop (2 * i) (hex_string bs) = print_02X (bs ! i) @ hex_string (drop (Suc i) bs)"
  by (induction bs arbitrary: i) (auto simp: drop_Cons nth_Cons split: nat.split)

lemma hex_string_chars: "c \<in> set (hex_string bs) \<Longrightarrow> \<not> isspace c \<and> c \<noteq> NUL \<and> c \<noteq> newline"
  by (auto simp: hex_string_def print_02X_def hex_digits_facts) (use hex_digits_facts in fastforce)+

lemma hex_string_to_bytes_hex:
  assumes "n = 2 * length bs"
  shows "hex_string_to_bytes (hex_string bs) (replicate (length bs) None) n = Inr (map Some bs)"
proof -
  have "hex_string_to_bytes (hex_string bs) (replicate (length bs) None) n
      = write_loop 0 0 (length bs) (\<lambda>i. Some (bs ! i)) (replicate (length bs) None)"
    unfolding hex_string_to_bytes_def
    by (simp add: assms) (rule for_to_cong, simp add: hex_string_nth_pair scan_print)
  also have "\<dots> = Inr (map Some bs)"
    using map_nth [of bs] by (simp add: write_loop_ok [where off = 0, simplified] flip: map_map [unfolded comp_def])
  finally show ?thesis .
qed

lemma read_key_bytes_hex:
  assumes "length key = 16"
  shows "read_key_bytes (hex_string key) = key"
proof -
  have "read_key_bytes (hex_string key) = for_to 0 16 (\<lambda>i key_bytes. key_bytes[i := key ! i]) (replicate 16 0)"
    unfolding read_key_bytes_def
    by (rule for_to_cong) (simp add: assms hex_string_nth_pair hex_byte_print mult.commute [of _ 2])
  also have "\<dots> = key" using assms map_nth [of key] by (simp add: for_to_fill_all)
  finally show ?thesis .
qed

lemma initialised_Some [simp]: "initialised (map Some bs) = Inr bs"
  by (auto simp: initialised_def comp_def)

section \<open>The programs\<close>

lemma scan_hex_key:
  assumes "length key = 16"
  shows "scan_word_max 32 (hex_string key @ newline # rest) = (hex_string key, newline # rest)"
proof -
  have "dropWhile isspace (hex_string key @ newline # rest) = hex_string key @ newline # rest"
    using assms hex_string_chars [of _ key] by (cases "hex_string key") force+
  moreover have "takeWhile (\<lambda>c. \<not> isspace c) (hex_string key @ newline # rest) = hex_string key"
    using hex_string_chars [of _ key] by (simp add: takeWhile_append isspace_def)
  ultimately show ?thesis using assms by (simp add: scan_word_max_def)
qed

lemma fgets_line:
  assumes "newline \<notin> set l" and "length l < n - 1"
  shows "fgets n (l @ newline # rest) = Some (l @ [newline], rest)"
  using assms by (simp add: fgets_def line_of_newline)

text \<open>A line that the encryption program handles: no control characters that end it early.\<close>

definition plain_line :: "string \<Rightarrow> bool" where
  "plain_line text \<longleftrightarrow> text \<noteq> [] \<and> length text < 1023 \<and> NUL \<notin> set text \<and> newline \<notin> set text"

lemma aes_encrypt_main_text:
  assumes "length key = 16" and "plain_line text"
  shows "aes_encrypt_main (hex_string key @ newline # text @ [newline]) =
    rbind (padding_function (map byte_of_char text) (blocks_needed (length text)) (length text)) (\<lambda>padded_data.
      rbind (encryption_main (KeyExpansion (replicate 44 0) key) padded_data (blocks_needed (length text)))
        (\<lambda>out. Inr (0, out)))"
proof -
  have "key \<noteq> []" using assms(1) by auto
  moreover have "c_str (hex_string key) = hex_string key"
    by (rule c_str_id) (use hex_string_chars [of NUL key] in blast)
  moreover have "c_str (text @ [newline]) = text @ [newline]"
    by (rule c_str_id) (use assms(2) in \<open>simp add: plain_line_def\<close>)
  ultimately show ?thesis
    using assms by (simp add: aes_encrypt_main_def scan_hex_key read_key_bytes_hex flush_input_def
        fgets_line plain_line_def strip_newline_def Let_def)
qed

abbreviation encrypt_blocks :: "word32 list \<Rightarrow> byte list \<Rightarrow> byte list" where
  "encrypt_blocks words data \<equiv>
     map_blocks (\<lambda>block. aes_encrypt block words (replicate 16 0)) (length data div 16) data"

lemma encryption_main_hex:
  assumes "length data = 16 * n" and "0 < n" and "n \<le> 1000"
  shows "encryption_main words data n = Inr (hex_string (encrypt_blocks words data))"
  using assms by (simp add: encryption_main_def Let_def)

lemma decrypted_buffer_hex:
  assumes "length data = 16 * n" and "0 < n" and "n \<le> 1000"
  shows "decrypted_buffer words (hex_string (encrypt_blocks words data)) = Inr data"
proof -
  let ?c = "encrypt_blocks words data"
  have c: "length ?c = 16 * n"
    using length_map_blocks [OF aes.length_E assms(1)] assms(1) by simp
  have "hex_string_to_bytes (hex_string ?c) (replicate (16 * n) None) (2 * (16 * n)) = Inr (map Some ?c)"
    using hex_string_to_bytes_hex [of "2 * (16 * n)" ?c] c by simp
  moreover have "map_blocks (\<lambda>block. aes_decrypt block words (replicate 16 0)) n ?c = data"
    using aes.map_blocks_undone [OF assms(1)] assms(1) by simp
  ultimately show ?thesis
    using assms c by (simp add: decrypted_buffer_def Let_def)
qed

lemma blocks_of_line:
  assumes "plain_line text" and "length text mod 16 \<noteq> 0"
  shows "blocks_needed (length text) = length text div 16 + 1" and "blocks_needed (length text) \<le> 1000"
  using assms div_le_mono [of "length text" 1023 16] by (simp_all add: blocks_needed_eq plain_line_def)

lemma pkcs7_pad_no_zero:
  assumes "NUL \<notin> set text"
  shows "NUL \<notin> set (map char_of_byte (pkcs7_pad (map byte_of_char text)))"
proof -
  define k where "k = 16 - length text mod 16"
  have k: "0 < k" "k < 256" using mod_less_divisor [of 16 "length text"] by (auto simp: k_def)
  then have "char_of_byte (word_of_nat k) \<noteq> NUL"
    by (simp add: char_of_byte_def unsigned_of_nat take_bit_nat_eq_self char_of_eq_iff)
  then show ?thesis using assms by (auto simp: pkcs7_pad_def Let_def simp flip: k_def)
qed

section \<open>The example in the code\<close>

definition doc_key :: "byte list" where
  "doc_key = [0x1c, 0xdf, 0xaa, 0xba, 0xb7, 0xb9, 0xba, 0x7e, 0x0e, 0xe9, 0x39, 0x03, 0x5f, 0x81, 0x65, 0xaa]"

definition doc_schedule :: "word32 list" where
  "doc_schedule =
    [0x1cdfaaba, 0xb7b9ba7e, 0x0ee93903, 0x5f8165aa,
     0x11920675, 0xa62bbc0b, 0xa8c28508, 0xf743e0a2,
     0x09733c1d, 0xaf588016, 0x079a051e, 0xf0d9e5bc,
     0x38aa5991, 0x97f2d987, 0x9068dc99, 0x60b13925,
     0xf8b86641, 0x6f4abfc6, 0xff22635f, 0x9f935a7a,
     0x3406bc9a, 0x5b4c035c, 0xa46e6003, 0x3bfd3a79,
     0x40860a78, 0x1bca0924, 0xbfa46927, 0x8459535e,
     0xcb6b5227, 0xd0a15b03, 0x6f053224, 0xeb5c617a,
     0x018488ce, 0xd125d3cd, 0xbe20e1e9, 0x557c8093,
     0x0a495432, 0xdb6c87ff, 0x654c6616, 0x3030e685,
     0x38c7c336, 0xe3ab44c9, 0x86e722df, 0xb6d7c45a]"

lemma KeyExpansion_doc: "KeyExpansion (replicate 44 0) doc_key = doc_schedule"
  by (rule KeyExpansion_schedule) (simp add: doc_schedule_def doc_key_def schedule_eval)

lemma doc_block_hello:
  "aes_encrypt [0x68, 0x65, 0x6c, 0x6c, 0x6f, 0x20, 0x57, 0x6f, 0x72, 0x6c, 0x64, 0x05, 0x05, 0x05, 0x05, 0x05] doc_schedule (replicate 16 0) =
    [0x91, 0x06, 0x5f, 0xb4, 0x66, 0xc4, 0xf2, 0x5e, 0xf8, 0x4c, 0xc9, 0xe0, 0xf7, 0xf4, 0xf9, 0xfa]"
  unfolding aes_encrypt_def Let_def for_to_1_11 load_state_matrix
  by (simp add: doc_schedule_def round_eval)

lemma doc_block_1:
  "aes_encrypt [0x48, 0x65, 0x6c, 0x6c, 0x6f, 0x20, 0x43, 0x69, 0x70, 0x68, 0x65, 0x72, 0x20, 0x57, 0x6f, 0x72] doc_schedule (replicate 16 0) =
    [0xb1, 0x46, 0xa1, 0x31, 0xf3, 0xf0, 0xea, 0x0e, 0x26, 0xd8, 0xda, 0xbf, 0xb3, 0x9a, 0x81, 0x12]"
  unfolding aes_encrypt_def Let_def for_to_1_11 load_state_matrix
  by (simp add: doc_schedule_def round_eval)

lemma doc_block_2:
  "aes_encrypt [0x6c, 0x64, 0x0e, 0x0e, 0x0e, 0x0e, 0x0e, 0x0e, 0x0e, 0x0e, 0x0e, 0x0e, 0x0e, 0x0e, 0x0e, 0x0e] doc_schedule (replicate 16 0) =
    [0xa1, 0x5f, 0xa3, 0x80, 0xee, 0xce, 0xb3, 0x35, 0xcb, 0xea, 0x13, 0x4a, 0x86, 0x02, 0xcf, 0x6a]"
  unfolding aes_encrypt_def Let_def for_to_1_11 load_state_matrix
  by (simp add: doc_schedule_def round_eval)

lemmas hex_literal = hex_string_def print_02X_def hex_digit_def

lemma doc_key_hex: "hex_string doc_key = ''1CDFAABAB7B9BA7E0EE939035F8165AA''"
  by (simp add: doc_key_def hex_literal)

lemma replicate_5_14:
  "replicate 5 x = [x, x, x, x, x]"
  "replicate 14 x = [x, x, x, x, x, x, x, x, x, x, x, x, x, x]"
  by (simp_all add: numeral_eq_Suc)

lemmas doc_eval = pkcs7_pad_def byte_of_char_def map_blocks_def for_to_def splice_def upt_rec
  replicate_5_14 doc_block_hello doc_block_1 doc_block_2

lemma doc_hello_hex:
  "hex_string (encrypt_blocks doc_schedule (pkcs7_pad (map byte_of_char ''hello World'')))
    = ''91065FB466C4F25EF84CC9E0F7F4F9FA''"
  by (simp add: doc_eval) (simp add: hex_literal)

section \<open>The results\<close>

text \<open>\<open>padding_function\<close> with the number of blocks its caller computes pads as PKCS\#7 prescribes, and
  the padding can be removed again; but for a text that fills its last block (the empty text
  included) it writes the 16 bytes of the extra block past the end of its allocation.\<close>

theorem padding_function_spec:
  "padding_function text (blocks_needed (length text)) (length text)
     = (if length text mod 16 = 0 then Inl Out_of_bounds else Inr (pkcs7_pad text))
   \<and> pkcs7_unpad (pkcs7_pad text) = text"
  by (simp add: padding_function_partial padding_function_full unpad_pad)

text \<open>The padding routine of \<^verbatim>\<open>string_input_processing.c\<close> does to every input line what \<^verbatim>\<open>aes_encrypt.c\<close>
  does: the newline stripped, PKCS\#7 when the last block is partial, the same overruns otherwise.\<close>

theorem sip_padding_equivalent:
  "sip_padding_function input_array =
    rbind (strip_newline (c_str input_array)) (\<lambda>text.
      if length text mod 16 = 0 then Inl Out_of_bounds else Inr (pkcs7_pad (map byte_of_char text)))"
  using padding_function_partial [of "map byte_of_char _"] padding_function_full [of "map byte_of_char _"]
  by (cases "strip_newline (c_str input_array)") (simp_all add: sip_padding_function_eq)

text \<open>C7: Given a key in hexadecimal and a line of text, the encryption program prints the hexadecimal
  form of the padded text encrypted block by block under the expanded key; a text whose length is a
  multiple of 16 makes it overrun its buffer instead.\<close>

theorem aes_encrypt_main_correct:
  assumes "length key = 16" and "plain_line text"
  shows "aes_encrypt_main (hex_string key @ newline # text @ [newline]) =
    (if length text mod 16 = 0 then Inl Out_of_bounds
     else Inr (0, hex_string (encrypt_blocks (KeyExpansion (replicate 44 0) key)
       (pkcs7_pad (map byte_of_char text)))))"
  using aes_encrypt_main_text [OF assms] blocks_of_line [OF assms(2)]
    padding_function_partial [of "map byte_of_char text"] padding_function_full [of "map byte_of_char text"]
  by (simp add: encryption_main_hex length_pkcs7_pad)

text \<open>The ciphertext that a comment in \<^verbatim>\<open>aes_decrypt.c\<close> gives for its text and key.\<close>

theorem aes_encrypt_main_correct_witness:
  "aes_encrypt_main (''1CDFAABAB7B9BA7E0EE939035F8165AA'' @ newline # ''Hello Cipher World'' @ [newline]) =
    Inr (0, ''B146A131F3F0EA0E26D8DABFB39A8112A15FA380EECEB335CBEA134A8602CF6A'')"
proof -
  have "hex_string (encrypt_blocks doc_schedule (pkcs7_pad (map byte_of_char ''Hello Cipher World'')))
    = ''B146A131F3F0EA0E26D8DABFB39A8112A15FA380EECEB335CBEA134A8602CF6A''"
    by (simp add: doc_eval) (simp add: hex_literal)
  then show ?thesis
    using aes_encrypt_main_correct [of doc_key "''Hello Cipher World''"]
    unfolding doc_key_hex KeyExpansion_doc by (simp add: doc_key_def plain_line_def)
qed

text \<open>C3: For a key of 16 bytes and a line of 1 to 1022 characters (none of them zero or a newline) whose
  length is not a multiple of 16, what the encryption program prints, decrypted under the same key by the
  block loop of the decryption program, is exactly the text followed by its padding: as many bytes as
  are missing to the next multiple of 16, each of that value.  For the other lengths the encryption
  program overruns its buffer and there is nothing to decrypt.\<close>

theorem aes_programs_roundtrip:
  assumes "length key = 16" and "plain_line text"
  shows "if length text mod 16 = 0
    then aes_encrypt_main (hex_string key @ newline # text @ [newline]) = Inl Out_of_bounds
    else \<exists>out. aes_encrypt_main (hex_string key @ newline # text @ [newline]) = Inr (0, out) \<and>
      decrypted_buffer (KeyExpansion (replicate 44 0) (read_key_bytes (hex_string key))) out =
        Inr (map byte_of_char text @ replicate (16 - length text mod 16) (word_of_nat (16 - length text mod 16)))"
proof (cases "length text mod 16 = 0")
  case True
  then show ?thesis
    using aes_encrypt_main_text [OF assms] padding_function_full [of "map byte_of_char text"] by simp
next
  case False
  have pad: "pkcs7_pad (map byte_of_char text) =
      map byte_of_char text @ replicate (16 - length text mod 16) (word_of_nat (16 - length text mod 16))"
    by (simp add: pkcs7_pad_def)
  have "\<exists>out. aes_encrypt_main (hex_string key @ newline # text @ [newline]) = Inr (0, out) \<and>
      decrypted_buffer (KeyExpansion (replicate 44 0) (read_key_bytes (hex_string key))) out = Inr (pkcs7_pad (map byte_of_char text))"
    using aes_encrypt_main_text [OF assms] blocks_of_line [OF assms(2) False]
      padding_function_partial [of "map byte_of_char text"] assms False
      decrypted_buffer_hex [OF length_pkcs7_pad, of "map byte_of_char text" "KeyExpansion (replicate 44 0) key"]
    by (simp add: encryption_main_hex length_pkcs7_pad read_key_bytes_hex)
  then show ?thesis using False unfolding pad by simp
qed

theorem aes_programs_roundtrip_witness:
  "\<exists>out. aes_encrypt_main (hex_string fips_key @ newline # ''attack at dawn'' @ [newline]) = Inr (0, out) \<and>
    decrypted_buffer (KeyExpansion (replicate 44 0) (read_key_bytes (hex_string fips_key))) out =
      Inr (map byte_of_char ''attack at dawn'' @ [2, 2])"
proof -
  have two: "replicate 2 x = [x, x]" for x :: byte by (simp add: numeral_eq_Suc)
  show ?thesis
    using aes_programs_roundtrip [of fips_key "''attack at dawn''"] by (simp add: fips_key_def plain_line_def two)
qed

text \<open>But the decryption program itself never gets to print such a text: it measures its buffer with
  \<open>strlen\<close>, the padding is never removed and never zero, and so it reads past the end of the buffer.\<close>

theorem decryption_main_overreads:
  assumes "length key = 16" and "plain_line text" and "length text mod 16 \<noteq> 0"
    and "out = hex_string (encrypt_blocks (KeyExpansion (replicate 44 0) key)
      (pkcs7_pad (map byte_of_char text)))"
  shows "decryption_main (KeyExpansion (replicate 44 0) key) out = Inl Out_of_bounds"
  using decrypted_buffer_hex [OF length_pkcs7_pad, of "map byte_of_char text" "KeyExpansion (replicate 44 0) key"]
    blocks_of_line [OF assms(2,3)] pkcs7_pad_no_zero [of "text"] assms
  by (simp add: decryption_main_def c_string_of_def plain_line_def)

text \<open>The program as it is shipped, with its key and its ciphertext.\<close>

theorem decryption_main_overreads_witness: "aes_decrypt_main = Inl Out_of_bounds"
proof -
  have "read_key_bytes ''1CDFAABAB7B9BA7E0EE939035F8165AA'' = doc_key"
    using read_key_bytes_hex [of doc_key] unfolding doc_key_hex by (simp add: doc_key_def)
  then show ?thesis
    using decryption_main_overreads [of doc_key "''hello World''"] doc_hello_hex
    unfolding aes_decrypt_main_def Let_def
    by (simp only: KeyExpansion_doc) (simp add: doc_key_def plain_line_def)
qed

text \<open>The key that \<^verbatim>\<open>key_gen.c\<close> prints is read back, byte for byte, by the loop of both AES programs;
  a failed allocation or a failed \<open>RAND_bytes\<close> prints no key and exits with status 1.\<close>

theorem key_gen_roundtrip:
  assumes "length (snd (rand_bytes 16)) = 16"
  shows "case key_gen_main malloc_ok rand_bytes of (status, out) \<Rightarrow>
    if malloc_ok \<and> fst (rand_bytes 16) = 1
    then status = 0 \<and> read_key_bytes out = snd (rand_bytes 16)
    else status = 1 \<and> out = ''''"
  using assms by (auto simp: key_gen_main_def key_generator_def read_key_bytes_hex split: prod.splits)

theorem key_gen_roundtrip_witness:
  "read_key_bytes (snd (key_gen_main True (\<lambda>n. (1, replicate n 0xAB)))) = replicate 16 0xAB"
  using key_gen_roundtrip [of "\<lambda>n. (1, replicate n 0xAB)" True] by (simp split: prod.splits)

end
