(* ===== verification/Block_Display.thy ===== *)
theory Block_Display
  imports AES_Programs
begin

text \<open>
  The program \<^verbatim>\<open>cryptography/AES_Algo/string_input_processing.c\<close>: what it prints for a line, the padded blocks
  in hexadecimal.
\<close>

definition display_block :: "byte list \<Rightarrow> nat \<Rightarrow> c_error + string" where
  "display_block padded_data i =
    rbind (for_to 0 16 (\<lambda>j r. rbind r (\<lambda>out.
        rbind (mem_read padded_data (i * 16 + j)) (\<lambda>b. Inr (out @ print_02X b @ '' ''))))
      (Inr (''Block '' @ print_nat (i + 1) @ '': '')))
    (\<lambda>out. Inr (out @ [newline]))"

text \<open>\<open>padding_function\<close> with its output.\<close>

definition sip_show :: "string \<Rightarrow> c_error + string" where
  "sip_show input_array =
    rbind (strip_newline (c_str input_array)) (\<lambda>text.
    rbind (sip_padding_function input_array) (\<lambda>padded_data.
      let num_blocks = blocks_needed (length text);
          heading = newline # ''Total blocks (with padding): '' @ print_nat num_blocks @ [newline]
            @ newline # ''Padded 16-byte blocks (in hex):'' @ [newline];
          num_blocks = (if length text mod 16 = 0 then num_blocks + 1 else num_blocks)
      in for_to 0 num_blocks (\<lambda>i r. rbind r (\<lambda>out. rbind (display_block padded_data i) (\<lambda>l. Inr (out @ l)))) (Inr heading)))"

definition sip_main :: "string \<Rightarrow> c_error + string" where
  "sip_main inp =
    (case fgets 1024 inp of
       None \<Rightarrow> Inl Uninitialised
     | Some (input_array, rest) \<Rightarrow> rbind (sip_show input_array) (\<lambda>out. Inr (''Enter plaintext: '' @ out)))"

definition block_line :: "byte list \<Rightarrow> nat \<Rightarrow> string" where
  "block_line data i = ''Block '' @ print_nat (i + 1) @ '': '' @
     concat (map (\<lambda>b. print_02X b @ '' '') (take 16 (drop (i * 16) data))) @ [newline]"

lemma display_block_lemma:
  assumes "i * 16 + 16 \<le> length data"
  shows "display_block data i = Inr (block_line data i)"
proof -
  let ?f = "\<lambda>j r. rbind r (\<lambda>out.
        rbind (mem_read data (i * 16 + j)) (\<lambda>b. Inr (out @ print_02X b @ '' '')))"
  have "n \<le> 16 \<Longrightarrow> for_to 0 n ?f (Inr start) =
      Inr (start @ concat (map (\<lambda>b. print_02X b @ '' '') (take n (drop (i * 16) data))))" for n start
    using assms by (induction n) (simp_all add: for_to_Suc take_Suc_conv_app_nth mem_read_def)
  then show ?thesis by (simp add: display_block_def block_line_def)
qed

lemma display_blocks:
  "n * 16 \<le> length data \<Longrightarrow>
    for_to 0 n (\<lambda>i r. rbind r (\<lambda>out. rbind (display_block data i) (\<lambda>l. Inr (out @ l)))) (Inr start)
      = Inr (start @ concat (map (block_line data) [0..<n]))"
  by (induction n) (simp_all add: for_to_Suc display_block_lemma)

text \<open>The program shows the padded text of its line in numbered blocks of sixteen bytes; for a text that fills
  its last block, the empty one included, it writes past its allocation.\<close>

theorem sip_main_displays:
  assumes "newline \<notin> set t" and "NUL \<notin> set t" and "length t < 1023"
  shows "sip_main (t @ newline # rest) =
      (if length t mod 16 = 0 then Inl Out_of_bounds
       else Inr (''Enter plaintext: '' @ [newline] @ ''Total blocks (with padding): '' @ print_nat (length t div 16 + 1) @ [newline]
         @ [newline] @ ''Padded 16-byte blocks (in hex):'' @ [newline]
         @ concat (map (block_line (pkcs7_pad (map byte_of_char t))) [0..<length t div 16 + 1])))"
proof -
  have line: "c_str (t @ [newline]) = t @ [newline]" using assms(2) by (auto simp: c_str_def takeWhile_eq_all_conv)
  then have strip: "strip_newline (c_str (t @ [newline])) = Inr t" by (simp add: strip_newline_def)
  have pad: "sip_padding_function (t @ [newline]) =
      (if length t mod 16 = 0 then Inl Out_of_bounds else Inr (pkcs7_pad (map byte_of_char t)))"
    by (simp add: sip_padding_function_eq strip padding_function_partial padding_function_full
        padding_function_partial [of "map byte_of_char t", simplified] padding_function_full [of "map byte_of_char t", simplified])
  have "fgets 1024 (t @ newline # rest) = Some (t @ [newline], rest)" using fgets_line [of t 1024] assms by simp
  then show ?thesis
    using display_blocks [of "length t div 16 + 1" "pkcs7_pad (map byte_of_char t)"]
    by (simp add: sip_main_def sip_show_def strip pad length_pkcs7_pad blocks_needed_eq Let_def del: upt_Suc)
qed

theorem sip_main_displays_witness:
  "sip_main (''Hello'' @ [newline]) = Inr (''Enter plaintext: '' @ [newline] @ ''Total blocks (with padding): 1'' @ [newline, newline]
    @ ''Padded 16-byte blocks (in hex):'' @ [newline]
    @ ''Block 1: 48 65 6C 6C 6F 0B 0B 0B 0B 0B 0B 0B 0B 0B 0B 0B '' @ [newline])"
proof -
  have eleven: "replicate 11 b = [b, b, b, b, b, b, b, b, b, b, b]" for b :: byte by (simp add: numeral_eq_Suc)
  have pad: "pkcs7_pad (map byte_of_char ''Hello'') = [0x48, 0x65, 0x6C, 0x6C, 0x6F, 11, 11, 11, 11, 11, 11, 11, 11, 11, 11, 11]"
    by (simp add: pkcs7_pad_def byte_of_char_def eleven)
  show ?thesis
    using sip_main_displays [of "''Hello''" "[]", unfolded pad]
    by (simp add: block_line_def print_nat.simps print_02X_def hex_digit_def)
qed

end
