(* ===== verification/C_Int.thy ===== *)
theory C_Int
  imports C_Prelude "HOL-Library.Signed_Division"
begin

text \<open>
  Signed machine integers.  A value of a signed type of \<open>w\<close> bits is an \<open>int\<close>; an operation whose
  mathematical result does not fit is undefined in C and yields \<open>Inl Overflow\<close>.  Division and
  remainder truncate towards zero: they are \<open>sdiv\<close> and \<open>smod\<close> of the library.
\<close>

definition fits :: "nat \<Rightarrow> int \<Rightarrow> bool" where
  "fits w x \<longleftrightarrow> - (2 ^ (w - 1)) \<le> x \<and> x < 2 ^ (w - 1)"

definition checked :: "nat \<Rightarrow> int \<Rightarrow> c_error + int" where
  "checked w x = (if fits w x then Inr x else Inl Overflow)"

definition c_div :: "nat \<Rightarrow> int \<Rightarrow> int \<Rightarrow> c_error + int" where
  "c_div w a b = (if b = 0 then Inl Division_by_zero else checked w (a sdiv b))"

definition c_mod :: "nat \<Rightarrow> int \<Rightarrow> int \<Rightarrow> c_error + int" where
  "c_mod w a b =
    (if b = 0 then Inl Division_by_zero
     else if fits w (a sdiv b) then Inr (a smod b) else Inl Overflow)"

lemma fits_64: "fits 64 x \<longleftrightarrow> - 9223372036854775808 \<le> x \<and> x < 9223372036854775808"
  by (simp add: fits_def)

lemma fits_32: "fits 32 x \<longleftrightarrow> - 2147483648 \<le> x \<and> x < 2147483648"
  by (simp add: fits_def)

lemma checked_Inr [simp]: "fits w x \<Longrightarrow> checked w x = Inr x"
  by (simp add: checked_def)

lemma checked_eq_Inr [simp]: "checked w x = Inr y \<longleftrightarrow> fits w x \<and> y = x"
  by (auto simp: checked_def)

section \<open>Truncating division\<close>

lemma smod_sgn: "a smod b = sgn a * (\<bar>a\<bar> mod \<bar>b\<bar>)" for a b :: int
  by (rule smod_int_alt_def)

lemma smod_nonneg [simp]: "0 \<le> a \<Longrightarrow> 0 \<le> b \<Longrightarrow> a smod b = a mod b" for a b :: int
  by (cases "a = 0") (simp_all add: smod_sgn)

lemma sdiv_nonneg [simp]: "0 \<le> a \<Longrightarrow> 0 \<le> b \<Longrightarrow> a sdiv b = a div b" for a b :: int
  by (cases "a = 0"; cases "b = 0") (simp_all add: signed_divide_int_def)

lemma abs_smod_less: "b \<noteq> 0 \<Longrightarrow> \<bar>a smod b\<bar> < \<bar>b\<bar>" for a b :: int
  by (cases "a = 0") (simp_all add: smod_sgn abs_mult)

lemma smod_small: "\<bar>a\<bar> < b \<Longrightarrow> a smod b = a" for a b :: int
  by (cases "a = 0") (simp_all add: smod_sgn mult_sgn_abs)

lemma smod_eq_0_iff: "a smod b = 0 \<longleftrightarrow> b dvd a" for a b :: int
  by (cases "a = 0") (auto simp: smod_sgn dvd_eq_mod_eq_0 [symmetric] sgn_0_0)

lemma smod_mult_left: "(x smod m * y) smod m = (x * y) smod m" for x y m :: int
proof (cases "m = 0 \<or> x smod m = 0")
  case True
  then consider "m = 0" | "x smod m = 0" "(x * y) smod m = 0"
    by (auto simp: smod_eq_0_iff)
  then show ?thesis by cases (auto simp: smod_sgn mult_sgn_abs)
next
  case False
  define r where "r = \<bar>x\<bar> mod \<bar>m\<bar>"
  have x: "x smod m = sgn x * r" "0 \<le> r" using False by (simp_all add: r_def smod_sgn)
  with False have "0 < r" "x \<noteq> 0" by auto
  then have "sgn (x smod m * y) = sgn (x * y)" "\<bar>x smod m * y\<bar> = r * \<bar>y\<bar>"
    by (simp_all add: x(1) sgn_mult abs_mult)
  then show ?thesis
    by (simp only: smod_sgn [of "_ * y"] abs_mult r_def mod_mult_left_eq)
qed

lemma smod_mult_right: "(y * (x smod m)) smod m = (y * x) smod m" for x y m :: int
  using smod_mult_left [of x m y] by (simp add: mult.commute)

lemma smod_smod [simp]: "x smod m smod m = x smod m" for x m :: int
  using smod_mult_left [of x m 1] by simp

lemma smod_power: "(x smod m) ^ k smod m = x ^ k smod m" for x m :: int
proof (induction k)
  case (Suc k)
  have "(x smod m) ^ Suc k smod m = (x * ((x smod m) ^ k smod m)) smod m"
    by (simp add: smod_mult_left smod_mult_right)
  then show ?case by (simp add: Suc smod_mult_right)
qed simp

lemma fits_smod: "fits w b \<Longrightarrow> b \<noteq> 0 \<Longrightarrow> fits w (a smod b)"
  using abs_smod_less [of b a] by (auto simp: fits_def)

lemma fits_between: "fits w a \<Longrightarrow> 0 \<le> x \<Longrightarrow> x \<le> a \<Longrightarrow> fits w x"
  by (auto simp: fits_def intro: order.trans [of _ 0])

lemma fits_abs: "fits w a \<Longrightarrow> \<bar>x\<bar> \<le> a \<Longrightarrow> fits w x"
  by (auto simp: fits_def abs_le_iff)

lemma div_le_dividend_int: "0 \<le> a \<Longrightarrow> 0 < b \<Longrightarrow> a div b \<le> a" for a b :: int
  using zdiv_mono2 [of a 1 b] by simp

lemma c_div_nonneg: "0 \<le> a \<Longrightarrow> 0 < b \<Longrightarrow> fits w a \<Longrightarrow> c_div w a b = Inr (a div b)"
  using fits_between [of w a "a div b"] div_le_dividend_int [of a b]
  by (simp add: c_div_def pos_imp_zdiv_nonneg_iff)

lemma sdiv_cases:
  fixes a b :: int
  assumes "b \<noteq> 0"
  obtains q where "0 \<le> q" "q \<le> \<bar>a\<bar>" "a sdiv b = sgn a * sgn b * q"
proof
  show "0 \<le> \<bar>a\<bar> div \<bar>b\<bar>" using assms by (simp add: pos_imp_zdiv_nonneg_iff)
  show "\<bar>a\<bar> div \<bar>b\<bar> \<le> \<bar>a\<bar>" by (rule div_le_dividend_int) (use assms in simp_all)
qed (simp add: signed_divide_int_def)

lemma c_mod_pos:
  assumes "0 < b" and "fits w a"
  shows "c_mod w a b = Inr (a smod b)"
proof -
  obtain q where q: "0 \<le> q" "q \<le> \<bar>a\<bar>" "a sdiv b = sgn a * sgn b * q"
    using sdiv_cases [of b a] assms(1) by auto
  then have "a sdiv b = (if 0 < a then q else if a = 0 then 0 else - q)"
    using assms(1) by (simp add: sgn_if)
  then have "fits w (a sdiv b)" using q assms(2) by (auto simp: fits_def split: if_splits)
  then show ?thesis using assms(1) by (simp add: c_mod_def)
qed

end
