(* ===== verification/RSA.thy ===== *)
theory RSA
  imports C_Int
begin

text \<open>
  \<^verbatim>\<open>cryptography/RSA_Algo/RSA.c\<close>: key generation, encryption and decryption with \<open>long long\<close>
  arithmetic, every operation checked for overflow.  \<open>rand()\<close> is a list of the numbers it returns; a
  loop that has used them all up without ending is \<open>Inl Exhausted\<close>.

  The results: \<open>is_prime\<close> decides primality, the generator returns the first prime candidate,
  Euclid's algorithm and its extended form compute the greatest common divisor and the inverse
  without overflow, \<open>calculate_mod_pow\<close> is modular exponentiation, and what \<open>main\<close> decrypts is the
  message it encrypted.
\<close>

abbreviation "ll_add a b \<equiv> checked 64 (a + b)"
abbreviation "ll_sub a b \<equiv> checked 64 (a - b)"
abbreviation "ll_mul a b \<equiv> checked 64 (a * b)"
abbreviation "ll_div \<equiv> c_div 64"
abbreviation "ll_mod \<equiv> c_mod 64"

section \<open>The code\<close>

function is_prime_loop :: "int \<Rightarrow> int \<Rightarrow> c_error + bool" where
  "is_prime_loop n i =
    rbind (ll_mul i i) (\<lambda>sq.
      if sq \<le> n then
        rbind (ll_mod n i) (\<lambda>r. if r = 0 then Inr False
        else rbind (ll_add i 2) (\<lambda>i2.
          rbind (ll_mod n i2) (\<lambda>r. if r = 0 then Inr False
          else rbind (ll_add i 6) (is_prime_loop n))))
      else Inr True)"
  by pat_completeness auto
termination
  by (relation "measure (\<lambda>(n, i). nat (2 ^ 63 - i))") (auto simp: fits_64)

declare is_prime_loop.simps [simp del]

definition is_prime :: "int \<Rightarrow> c_error + bool" where
  "is_prime n =
    (if n \<le> 1 then Inr False
     else if n \<le> 3 then Inr True
     else rbind (ll_mod n 2) (\<lambda>r. if r = 0 then Inr False
       else rbind (ll_mod n 3) (\<lambda>r. if r = 0 then Inr False
       else is_prime_loop n 5)))"

fun generate_random_prime :: "int \<Rightarrow> int \<Rightarrow> int list \<Rightarrow> c_error + int \<times> int list" where
  "generate_random_prime lower upper [] = Inl Exhausted"
| "generate_random_prime lower upper (r # rand) =
    rbind (ll_sub upper lower) (\<lambda>w.
    rbind (ll_add w 1) (\<lambda>w.
    rbind (ll_mod r w) (\<lambda>k.
    rbind (ll_add k lower) (\<lambda>num.
    rbind (is_prime num) (\<lambda>b.
      if \<not> b then generate_random_prime lower upper rand else Inr (num, rand))))))"

definition calculate_euler_totient :: "int \<Rightarrow> c_error + int" where
  "calculate_euler_totient n = ll_sub n 1"

function calculate_gcd :: "int \<Rightarrow> int \<Rightarrow> c_error + int" where
  "calculate_gcd a b =
    (if b \<noteq> 0 then rbind (ll_mod a b) (\<lambda>r. calculate_gcd b r) else Inr a)"
  by pat_completeness auto
termination
  by (relation "measure (\<lambda>(a, b). nat \<bar>b\<bar>)")
    (auto simp: c_mod_def abs_smod_less split: if_splits)

declare calculate_gcd.simps [simp del]

function mod_inverse_loop :: "int \<Rightarrow> int \<Rightarrow> int \<Rightarrow> int \<Rightarrow> c_error + int \<times> int" where
  "mod_inverse_loop coeff_phi coeff_e current_remainder next_remainder =
    (if next_remainder \<noteq> 0 then
       rbind (ll_div current_remainder next_remainder) (\<lambda>quotient.
       rbind (ll_mul quotient coeff_e) (\<lambda>qe.
       rbind (ll_sub coeff_phi qe) (\<lambda>coeff_e'.
       rbind (ll_mul quotient next_remainder) (\<lambda>qr.
       rbind (ll_sub current_remainder qr) (\<lambda>next_remainder'.
         mod_inverse_loop coeff_e coeff_e' next_remainder next_remainder')))))
     else Inr (coeff_phi, current_remainder))"
  by pat_completeness auto
termination
proof (relation "measure (\<lambda>(_, _, _, n). nat \<bar>n\<bar>)")
  fix n c q qr n' :: int
  assume "n \<noteq> 0" and q: "ll_div c n = Inr q" and "checked 64 (q * n) = Inr qr"
    and "checked 64 (c - qr) = Inr n'"
  then have "n' = c smod n"
    by (auto simp: c_div_def minus_sdiv_mult_eq_smod)
  then have "\<bar>n'\<bar> < \<bar>n\<bar>" using \<open>n \<noteq> 0\<close> abs_smod_less by simp
  then show "((coeff_e, coeff_e', n, n'), coeff_phi, coeff_e, c, n) \<in> measure (\<lambda>(_, _, _, n). nat \<bar>n\<bar>)"
    for coeff_phi coeff_e coeff_e' :: int by simp
qed simp

declare mod_inverse_loop.simps [simp del]

definition calculate_mod_inverse :: "int \<Rightarrow> int \<Rightarrow> c_error + int" where
  "calculate_mod_inverse e phi =
    rbind (mod_inverse_loop 0 1 phi e) (\<lambda>(coeff_phi, current_remainder).
      if 1 < current_remainder then Inr (- 1)
      else if coeff_phi < 0 then ll_add coeff_phi phi else Inr coeff_phi)"

function mod_pow_loop :: "int \<Rightarrow> int \<Rightarrow> int \<Rightarrow> int \<Rightarrow> c_error + int" where
  "mod_pow_loop result base exp m =
    (if 0 < exp then
       rbind (if exp smod 2 = 1 then rbind (ll_mul result base) (\<lambda>x. ll_mod x m) else Inr result) (\<lambda>result.
       rbind (ll_mul base base) (\<lambda>x. rbind (ll_mod x m) (\<lambda>base.
         mod_pow_loop result base (exp sdiv 2) m)))
     else Inr result)"
  by pat_completeness auto
termination
  by (relation "measure (\<lambda>(_, _, e, _). nat e)") auto

declare mod_pow_loop.simps [simp del]

definition calculate_mod_pow :: "int \<Rightarrow> int \<Rightarrow> int \<Rightarrow> c_error + int" where
  "calculate_mod_pow base exp m = rbind (ll_mod base m) (\<lambda>base. mod_pow_loop 1 base exp m)"

text \<open>The second prime is drawn until it differs from the first.\<close>

lemma generate_random_prime_shorter:
  "generate_random_prime l u rand = Inr (q, rand') \<Longrightarrow> length rand' < length rand"
  by (induction rand) (auto simp: rbind_eq_Inr less_Suc_eq split: if_splits)

function generate_other_prime :: "int \<Rightarrow> int list \<Rightarrow> c_error + int \<times> int list" where
  "generate_other_prime p rand =
    rbind (generate_random_prime 100 500 rand) (\<lambda>(q, rand).
      if q = p then generate_other_prime p rand else Inr (q, rand))"
  by pat_completeness auto
termination
  by (relation "measure (\<lambda>(_, rand). length rand)") (auto dest: generate_random_prime_shorter)

declare generate_other_prime.simps [simp del]

datatype rsa_result =
    Not_coprime
  | Not_invertible
  | Message_too_large
  | Keys_and_messages int int int int   \<comment> \<open>\<open>n\<close>, \<open>d\<close>, the encrypted and the decrypted message\<close>

text \<open>\<open>message\<close> is what \<open>scanf\<close> converts, if it converts anything.\<close>

definition rsa_main :: "int list \<Rightarrow> int option \<Rightarrow> c_error + rsa_result" where
  "rsa_main rand message =
    rbind (generate_random_prime 100 500 rand) (\<lambda>(p, rand).
    rbind (generate_other_prime p rand) (\<lambda>(q, rand).
    rbind (ll_mul p q) (\<lambda>n.
    rbind (calculate_euler_totient p) (\<lambda>tp.
    rbind (calculate_euler_totient q) (\<lambda>tq.
    rbind (ll_mul tp tq) (\<lambda>phi.
    rbind (calculate_gcd 65537 phi) (\<lambda>g.
    if g \<noteq> 1 then Inr Not_coprime
    else rbind (calculate_mod_inverse 65537 phi) (\<lambda>d.
      if d = - 1 then Inr Not_invertible
      else case message of
        None \<Rightarrow> Inl Uninitialised
      | Some message \<Rightarrow>
          if n \<le> message then Inr Message_too_large
          else rbind (calculate_mod_pow message 65537 n) (\<lambda>encrypted.
               rbind (calculate_mod_pow encrypted d n) (\<lambda>decrypted.
                 Inr (Keys_and_messages n d encrypted decrypted)))))))))))"

section \<open>Primes\<close>

definition prime_number :: "int \<Rightarrow> bool" where
  "prime_number p \<longleftrightarrow> 1 < p \<and> (\<forall>d. 0 < d \<and> d dvd p \<longrightarrow> d = 1 \<or> d = p)"

lemma prime_number_pos: "prime_number p \<Longrightarrow> 1 < p"
  by (simp add: prime_number_def)

lemma prime_number_coprime: "prime_number p \<Longrightarrow> \<not> p dvd a \<Longrightarrow> coprime p a"
  by (metis coprime_iff_gcd_eq_1 gcd_dvd1 gcd_dvd2 gcd_pos_int prime_number_def not_one_less_zero)

lemma prime_number_dvd_mult: "prime_number p \<Longrightarrow> p dvd a * b \<longleftrightarrow> p dvd a \<or> p dvd b"
  by (metis coprime_dvd_mult_right_iff dvd_mult dvd_mult2 prime_number_coprime)

text \<open>A composite number has a divisor up to its square root.\<close>

lemma not_prime_divisor:
  assumes "1 < n" and "\<not> prime_number n"
  obtains d where "1 < d" "d dvd n" "d * d \<le> n"
proof -
  obtain d where "0 < d" and d': "d dvd n" "d \<noteq> 1" "d \<noteq> n"
    using assms by (auto simp: prime_number_def)
  then have d: "1 < d" "d dvd n" "d \<noteq> n" by simp_all
  then obtain k where k: "n = d * k" by blast
  have "0 < d * k" using assms(1) k by simp
  then have "0 < k" using d(1) by (simp add: zero_less_mult_iff)
  moreover have "k \<noteq> 1" using d(3) k by auto
  ultimately have "1 < k" by simp
  show thesis
  proof (cases "d \<le> k")
    case True
    then have "d * d \<le> n" using k d(1) by simp
    then show thesis using that d by blast
  next
    case False
    then have "k * k \<le> n" using k \<open>1 < k\<close> by simp
    moreover have "k dvd n" using k by simp
    ultimately show thesis using that \<open>1 < k\<close> by blast
  qed
qed

definition no_divisor_below :: "int \<Rightarrow> int \<Rightarrow> bool" where
  "no_divisor_below n i \<longleftrightarrow> (\<forall>d. 1 < d \<and> d < i \<longrightarrow> \<not> d dvd n)"

lemma no_divisor_prime:
  assumes "no_divisor_below n i" and "n < i * i" and "1 < n" and "0 < i"
  shows "prime_number n"
proof (rule ccontr)
  assume "\<not> prime_number n"
  then obtain d where "1 < d" "d dvd n" "d * d \<le> n" using assms(3) not_prime_divisor by blast
  moreover from this have "d < i" using assms by (meson linorder_not_less mult_mono order.trans order_less_le_trans zero_le_one less_imp_le)
  ultimately show False using assms(1) by (simp add: no_divisor_below_def)
qed

lemma divisor_not_prime: "1 < d \<Longrightarrow> d < n \<Longrightarrow> d dvd n \<Longrightarrow> \<not> prime_number n"
  by (force simp: prime_number_def)

text \<open>The candidates \<open>i + 1\<close>, \<open>i + 3\<close>, \<open>i + 4\<close> and \<open>i + 5\<close> that the loop skips are multiples of 2 or 3.\<close>

lemma no_divisor_step:
  assumes "no_divisor_below n i" and "i mod 6 = 5" and "\<not> i dvd n" and "\<not> i + 2 dvd n"
    and "\<not> 2 dvd n" and "\<not> 3 dvd n"
  shows "no_divisor_below n (i + 6)"
  unfolding no_divisor_below_def
proof (intro allI impI notI)
  fix d assume d: "1 < d \<and> d < i + 6" and dvd: "d dvd n"
  then consider "d < i" | "d = i" | "d = i + 2" | "d = i + 1 \<or> d = i + 3 \<or> d = i + 5" | "d = i + 4"
    by linarith
  then show False
  proof cases
    case 4
    then have "2 dvd d" using assms(2) by presburger
    then show False using dvd assms(5) dvd_trans by blast
  next
    case 5
    then have "3 dvd d" using assms(2) by presburger
    then show False using dvd assms(6) dvd_trans by blast
  qed (use assms d dvd in \<open>auto simp: no_divisor_below_def\<close>)
qed

lemma is_prime_loop_continue:
  assumes "fits 64 (i * i)" and "fits 64 (i + 2)" and "fits 64 (i + 6)" and "i * i \<le> n"
    and "ll_mod n i = Inr (n mod i)" and "ll_mod n (i + 2) = Inr (n mod (i + 2))"
  shows "is_prime_loop n i =
    (if i dvd n \<or> i + 2 dvd n then Inr False else is_prime_loop n (i + 6))"
  using assms by (simp add: is_prime_loop.simps [of n i] dvd_eq_mod_eq_0)

lemma square_bound:
  fixes i :: int
  assumes "i * i \<le> n" and "n < 2 ^ 62" and "0 \<le> i"
  shows "i < 2 ^ 31"
proof (rule ccontr)
  assume "\<not> i < 2 ^ 31"
  then have "2 ^ 31 * 2 ^ 31 \<le> i * i" by (intro mult_mono) simp_all
  then show False using assms(1,2) by simp
qed

lemma is_prime_loop_correct:
  assumes n: "1 < n" "n < 2 ^ 62" "\<not> 2 dvd n" "\<not> 3 dvd n"
    and "no_divisor_below n i" and "i mod 6 = 5" and "5 \<le> i" and "i \<le> 2 ^ 31 + 6"
  shows "is_prime_loop n i = Inr (prime_number n)"
  using assms(5-8)
proof (induction "nat (2 ^ 32 - i)" arbitrary: i rule: less_induct)
  case less
  have "i * i \<le> (2 ^ 31 + 6) * (2 ^ 31 + 6)" by (rule mult_mono) (use less.prems in simp_all)
  then have "i * i < 9223372036854775808" by simp
  then have sq: "fits 64 (i * i)" unfolding fits_64 by (simp add: order.trans [OF _ zero_le_square])
  have fits: "fits 64 (i + 2)" "fits 64 (i + 6)" "fits 64 n" using less.prems n by (simp_all add: fits_64)
  have mod: "ll_mod n i = Inr (n mod i)" "ll_mod n (i + 2) = Inr (n mod (i + 2))"
    using less.prems(3) n(1) fits(3) by (simp_all add: c_mod_pos)
  show ?case
  proof (cases "i * i \<le> n")
    case False
    then have "prime_number n" using no_divisor_prime [of n i] less.prems n by simp
    then show ?thesis using False sq by (simp add: is_prime_loop.simps)
  next
    case True
    have i: "i < 2 ^ 31" using square_bound [OF True n(2)] less.prems(3) by simp
    have "5 * i \<le> i * i" using less.prems(3) by (simp add: mult_right_mono)
    then have "i + 2 < n" using True less.prems(3) by linarith
    show ?thesis
    proof (cases "i dvd n \<or> i + 2 dvd n")
      case div: True
      then have "\<not> prime_number n"
        using divisor_not_prime [of i n] divisor_not_prime [of "i + 2" n] \<open>i + 2 < n\<close> less.prems(3) by auto
      then show ?thesis using div is_prime_loop_continue [OF sq fits(1,2) True mod] by simp
    next
      case False
      have "is_prime_loop n (i + 6) = Inr (prime_number n)"
      proof (rule less.hyps)
        show "no_divisor_below n (i + 6)" using no_divisor_step False less.prems n by simp
        show "(i + 6) mod 6 = 5" using less.prems(2) by simp
      qed (use i less.prems(3) in simp_all)
      then show ?thesis using False is_prime_loop_continue [OF sq fits(1,2) True mod] by simp
    qed
  qed
qed

lemma prime_2_3: "prime_number 2" "prime_number 3"
proof -
  have small: "0 < d \<Longrightarrow> d dvd n \<Longrightarrow> n = 2 \<or> n = 3 \<Longrightarrow> d = 1 \<or> d = n" for d n :: int
  proof -
    assume d: "0 < d" "d dvd n" "n = 2 \<or> n = 3"
    then have "d \<le> n" using zdvd_imp_le [of d n] by auto
    then consider "d = 1" | "d = n" | "d = 2 \<and> n = 3" using d by linarith
    then show ?thesis using d(2) by cases auto
  qed
  then show "prime_number 2" "prime_number 3" by (auto simp: prime_number_def)
qed

lemma is_prime_correct_lemma:
  assumes "n < 2 ^ 62"
  shows "is_prime n = Inr (prime_number n)"
proof (cases "n \<le> 3")
  case True
  then consider "n \<le> 1" | "n = 2" | "n = 3" by linarith
  then show ?thesis by cases (auto simp: is_prime_def prime_2_3 dest: prime_number_pos)
next
  case False
  then have "fits 64 n" using assms by (simp add: fits_64)
  then have mod: "ll_mod n 2 = Inr (n mod 2)" "ll_mod n 3 = Inr (n mod 3)"
    using False by (simp_all add: c_mod_pos)
  show ?thesis
  proof (cases "2 dvd n \<or> 3 dvd n")
    case True
    then have "\<not> prime_number n"
      using divisor_not_prime [of 2 n] divisor_not_prime [of 3 n] False by auto
    then show ?thesis using True False mod by (auto simp: is_prime_def dvd_eq_mod_eq_0)
  next
    case div: False
    have "no_divisor_below n 5"
      unfolding no_divisor_below_def
    proof (intro allI impI notI)
      fix d assume "1 < d \<and> d < 5" and dvd: "d dvd n"
      then consider "d = 2" | "d = 3" | "d = 2 * 2" by linarith
      then show False using dvd div by cases (auto dest: dvd_mult_left)
    qed
    then have "is_prime_loop n 5 = Inr (prime_number n)"
      by (rule is_prime_loop_correct [rotated 4]) (use div False assms in auto)
    then show ?thesis using div False mod by (simp add: is_prime_def dvd_eq_mod_eq_0)
  qed
qed

section \<open>The random primes\<close>

definition candidate :: "int \<Rightarrow> int \<Rightarrow> int \<Rightarrow> int" where
  "candidate lower upper r = r mod (upper - lower + 1) + lower"

text \<open>The values of \<open>rand()\<close>: not negative, of type \<open>int\<close>.\<close>

definition rand_values :: "int list \<Rightarrow> bool" where
  "rand_values rand \<longleftrightarrow> (\<forall>r \<in> set rand. 0 \<le> r \<and> r < 2 ^ 31)"

lemma candidate_range: "lower \<le> upper \<Longrightarrow> lower \<le> candidate lower upper r \<and> candidate lower upper r \<le> upper"
  using pos_mod_bound [of "upper - lower + 1" r] by (simp add: candidate_def)

lemma generate_random_prime_spec:
  assumes "0 \<le> lower" and "lower \<le> upper" and "upper < 2 ^ 62" and "rand_values rand"
  shows "generate_random_prime lower upper rand =
    (case dropWhile (\<lambda>r. \<not> prime_number (candidate lower upper r)) rand of
       [] \<Rightarrow> Inl Exhausted
     | r # rest \<Rightarrow> Inr (candidate lower upper r, rest))"
  using assms(4)
proof (induction rand)
  case (Cons r rand)
  then have r: "0 \<le> r" "r < 2 ^ 31" "rand_values rand" by (simp_all add: rand_values_def)
  let ?w = "upper - lower + 1"
  have "ll_mod r ?w = Inr (r mod ?w)"
    using r assms by (subst c_mod_pos) (simp_all add: fits_64)
  moreover have "fits 64 (upper - lower)" "fits 64 ?w" using assms by (simp_all add: fits_64)
  moreover have "fits 64 (r mod ?w + lower)"
    by (rule fits_between [of 64 upper])
      (use assms candidate_range [of lower upper r] in \<open>auto simp: fits_64 candidate_def\<close>)
  moreover have "is_prime (r mod ?w + lower) = Inr (prime_number (r mod ?w + lower))"
    using is_prime_correct_lemma candidate_range [of lower upper r] assms by (simp add: candidate_def)
  ultimately show ?case using Cons r by (simp add: candidate_def)
qed simp

section \<open>Euclid\<close>

lemma calculate_gcd_lemma:
  assumes "0 \<le> a" and "0 \<le> b" and "fits 64 a" and "fits 64 b"
  shows "calculate_gcd a b = Inr (gcd a b)"
  using assms
proof (induction a b rule: calculate_gcd.induct)
  case (1 a b)
  show ?case
  proof (cases "b = 0")
    case False
    then have "ll_mod a b = Inr (a mod b)" "fits 64 (a mod b)" "0 \<le> a mod b"
      using 1 fits_smod [of 64 b a] by (simp_all add: c_mod_pos)
    then show ?thesis
      using 1 False by (simp add: calculate_gcd.simps [of a b] gcd_red_int [of a b])
  qed (use 1 in \<open>simp add: calculate_gcd.simps\<close>)
qed

text \<open>
  The extended algorithm.  The coefficients alternate in sign; with their absolute values \<open>x\<close> (of
  \<open>e\<close>) and \<open>y\<close> (of \<open>phi\<close>) the sum \<open>current * x + next * y\<close> stays \<open>phi\<close>, which bounds every value.
\<close>

definition egcd_inv :: "int \<Rightarrow> int \<Rightarrow> int \<Rightarrow> int \<Rightarrow> int \<Rightarrow> int \<Rightarrow> bool" where
  "egcd_inv e phi cphi ce cur nxt \<longleftrightarrow>
     0 < cur \<and> 0 \<le> nxt \<and> fits 64 cur \<and> fits 64 nxt \<and> gcd cur nxt = gcd phi e \<and>
     phi dvd cphi * e - cur \<and> phi dvd ce * e - nxt \<and>
     (cphi * ce \<le> 0) \<and> cur * \<bar>ce\<bar> + nxt * \<bar>cphi\<bar> = phi \<and> \<bar>cphi\<bar> \<le> phi"

lemma egcd_inv_start:
  assumes "0 < e" and "0 < phi" and "fits 64 e" and "fits 64 phi"
  shows "egcd_inv e phi 0 1 phi e"
  using assms by (simp add: egcd_inv_def)

lemma opposite_signs:
  fixes x y q :: int
  assumes "x * y \<le> 0" and "0 \<le> q"
  shows "\<bar>x - q * y\<bar> = \<bar>x\<bar> + q * \<bar>y\<bar>" and "y * (x - q * y) \<le> 0"
proof -
  consider "0 \<le> x" "y \<le> 0" | "x \<le> 0" "0 \<le> y" using assms(1) by (auto simp: mult_le_0_iff)
  then show "\<bar>x - q * y\<bar> = \<bar>x\<bar> + q * \<bar>y\<bar>"
  proof cases
    case 1
    then have "q * y \<le> 0" using assms(2) by (simp add: mult_nonneg_nonpos)
    then show ?thesis using 1 by simp
  next
    case 2
    then have "0 \<le> q * y" using assms(2) by simp
    then show ?thesis using 2 by simp
  qed
  have "y * (x - q * y) = x * y - q * (y * y)" by (simp add: algebra_simps)
  also have "\<dots> \<le> 0" using assms by (simp add: order.trans [OF assms(1)])
  finally show "y * (x - q * y) \<le> 0" .
qed

lemma egcd_inv_step:
  assumes inv: "egcd_inv e phi cphi ce cur nxt" and "nxt \<noteq> 0" and phi: "fits 64 phi"
  defines "q \<equiv> cur div nxt"
  shows "egcd_inv e phi ce (cphi - q * ce) nxt (cur mod nxt)"
    and "\<bar>cphi - q * ce\<bar> \<le> phi" and "\<bar>q * ce\<bar> \<le> phi" and "q * nxt \<le> cur" and "0 \<le> q"
proof -
  have n: "0 < nxt" "0 < cur" using assms(1,2) by (auto simp: egcd_inv_def)
  then show q: "0 \<le> q" by (simp add: q_def pos_imp_zdiv_nonneg_iff)
  have mod: "cur mod nxt = cur - q * nxt" by (simp add: q_def minus_div_mult_eq_mod)
  have sgn: "\<bar>cphi - q * ce\<bar> = \<bar>cphi\<bar> + q * \<bar>ce\<bar>" "ce * (cphi - q * ce) \<le> 0"
    using opposite_signs [OF _ q, of cphi ce] inv by (simp_all add: egcd_inv_def)
  have sum: "nxt * \<bar>cphi - q * ce\<bar> + (cur mod nxt) * \<bar>ce\<bar> = phi"
    using inv by (simp only: sgn(1) mod) (simp add: egcd_inv_def algebra_simps)
  have m: "0 \<le> cur mod nxt" "cur mod nxt \<le> nxt" using n by (simp_all add: less_imp_le)
  have "1 * \<bar>cphi - q * ce\<bar> \<le> nxt * \<bar>cphi - q * ce\<bar>" using n by (intro mult_right_mono) simp_all
  then show le: "\<bar>cphi - q * ce\<bar> \<le> phi" using sum m by (smt (verit) mult_nonneg_nonneg abs_ge_zero)
  then show "\<bar>q * ce\<bar> \<le> phi" using sgn q by (simp add: abs_mult)
  show "q * nxt \<le> cur" using mod m by linarith
  have "1 * \<bar>ce\<bar> \<le> cur * \<bar>ce\<bar>" using n by (intro mult_right_mono) simp_all
  moreover have "0 \<le> nxt * \<bar>cphi\<bar>" using n by simp
  moreover have "cur * \<bar>ce\<bar> + nxt * \<bar>cphi\<bar> = phi" using inv by (simp add: egcd_inv_def)
  ultimately have "\<bar>ce\<bar> \<le> phi" by linarith
  moreover have "phi dvd cphi * e - cur" "phi dvd ce * e - nxt"
    using inv by (simp_all add: egcd_inv_def)
  then have "phi dvd (cphi * e - cur) - q * (ce * e - nxt)" 
    by (rule dvd_diff [OF _ dvd_mult])
  then have "phi dvd (cphi - q * ce) * e - cur mod nxt"
    by (simp add: mod algebra_simps)
  moreover have "fits 64 (cur mod nxt)"
    by (rule fits_between [of 64 nxt]) (use inv m in \<open>simp_all add: egcd_inv_def\<close>)
  moreover have "gcd nxt (cur mod nxt) = gcd phi e"
    using inv gcd_red_int [of cur nxt] unfolding egcd_inv_def by argo
  ultimately show "egcd_inv e phi ce (cphi - q * ce) nxt (cur mod nxt)"
    unfolding egcd_inv_def using inv n(1) m(1) sgn(2) sum by (simp only: egcd_inv_def)
qed

lemma mod_inverse_loop_lemma:
  assumes "egcd_inv e phi cphi ce cur nxt" and "fits 64 phi"
  shows "\<exists>c. mod_inverse_loop cphi ce cur nxt = Inr (c, gcd phi e) \<and>
    phi dvd c * e - gcd phi e \<and> \<bar>c\<bar> \<le> phi"
  using assms(1)
proof (induction cphi ce cur nxt rule: mod_inverse_loop.induct)
  case (1 cphi ce cur nxt)
  note inv = 1(2)
  show ?case
  proof (cases "nxt = 0")
    case True
    with inv have "cur = gcd phi e" unfolding egcd_inv_def by (metis abs_of_pos gcd_0_int)
    then show ?thesis using inv True by (simp add: mod_inverse_loop.simps egcd_inv_def)
  next
    case False
    let ?q = "cur div nxt"
    note step = egcd_inv_step [OF inv False assms(2)]
    have nxt: "0 < nxt" "0 < cur" "fits 64 cur" using inv False by (simp_all add: egcd_inv_def)
    then have div: "ll_div cur nxt = Inr ?q" by (simp add: c_div_nonneg)
    have fits: "fits 64 (?q * ce)" "fits 64 (cphi - ?q * ce)" "fits 64 (?q * nxt)"
      using step(2,3,4,5) nxt fits_abs [OF assms(2)] by (auto intro: fits_between [of 64 cur])
    have mod: "cur - ?q * nxt = cur mod nxt" by (simp add: minus_div_mult_eq_mod)
    have "fits 64 (cur mod nxt)" using step(1) by (simp add: egcd_inv_def)
    then show ?thesis
      using 1(1) [OF False div, of "?q * ce" "cphi - ?q * ce" "?q * nxt" "cur mod nxt"] step(1) fits div mod False
      by (simp add: mod_inverse_loop.simps [of cphi ce cur nxt])
  qed
qed

lemma calculate_mod_inverse_lemma:
  assumes "0 < e" and "1 < phi" and "fits 64 e" and "fits 64 phi"
  shows "\<exists>d. calculate_mod_inverse e phi = Inr d \<and>
    (if gcd e phi = 1 then 0 < d \<and> d < phi \<and> (d * e) mod phi = 1 else d = - 1)"
proof -
  obtain c where c: "mod_inverse_loop 0 1 phi e = Inr (c, gcd phi e)"
    "phi dvd c * e - gcd phi e" "\<bar>c\<bar> \<le> phi"
    using mod_inverse_loop_lemma [OF egcd_inv_start [of e phi]] assms by auto
  show ?thesis
  proof (cases "gcd e phi = 1")
    case True
    then have g: "gcd phi e = 1" by (simp add: gcd.commute)
    have "\<not> phi dvd c"
    proof
      assume "phi dvd c"
      then have "phi dvd c * e - (c * e - 1)" using c(2) unfolding g
        by (rule dvd_diff [OF dvd_mult2])
      then show False using assms(2) zdvd_imp_le [of phi 1] by simp
    qed
    then have "c \<noteq> 0" "c \<noteq> phi" "c \<noteq> - phi" by auto
    then have "\<bar>c\<bar> < phi" using c(3) by auto
    define d where "d = (if c < 0 then c + phi else c)"
    have "d * e - 1 = (c * e - 1) + (if c < 0 then e else 0) * phi" by (simp add: d_def algebra_simps)
    then have "phi dvd d * e - 1" using dvd_add [OF c(2) dvd_triv_right] unfolding g by metis
    then have "(d * e) mod phi = 1 mod phi" by (simp add: mod_eq_dvd_iff)
    moreover have "fits 64 d" "0 < d" "d < phi"
      using \<open>\<bar>c\<bar> < phi\<close> \<open>c \<noteq> 0\<close> by (auto simp: d_def intro: fits_between [OF assms(4)])
    ultimately show ?thesis
      using True g c(1) assms(2) by (auto simp: calculate_mod_inverse_def d_def split: if_splits)
  next
    case False
    then have "gcd phi e \<noteq> 1" by (simp add: gcd.commute)
    moreover have "0 < gcd phi e" using assms by simp
    ultimately have "1 < gcd phi e" by linarith
    then show ?thesis using False c(1) by (simp add: calculate_mod_inverse_def)
  qed
qed

section \<open>Modular powers\<close>

lemma fits_product:
  assumes "\<bar>x\<bar> < m" and "\<bar>y\<bar> < m" and "m \<le> 3037000499"
  shows "fits 64 (x * y)"
proof (rule fits_abs)
  have "\<bar>x\<bar> * \<bar>y\<bar> \<le> 3037000499 * 3037000499" by (rule mult_mono) (use assms in simp_all)
  then show "\<bar>x * y\<bar> \<le> 9223372030926249001" unfolding abs_mult by simp
qed (simp add: fits_64)

lemma mod_pow_loop_lemma:
  assumes "\<bar>result\<bar> < m" and "\<bar>base\<bar> < m" and "m \<le> 3037000499" and "0 \<le> exp"
  shows "mod_pow_loop result base exp m = Inr ((result * base ^ nat exp) smod m)"
  using assms
proof (induction result base exp m rule: mod_pow_loop.induct)
  case (1 result base exp m)
  show ?case
  proof (cases "0 < exp")
    case True
    have m: "0 < m" using 1(2) by linarith
    have sq: "ll_mul base base = Inr (base * base)" "ll_mod (base * base) m = Inr (base * base smod m)"
      using fits_product [of base m base] 1 m by (simp_all add: c_mod_pos)
    define r' where "r' = (if odd exp then result * base smod m else result)"
    have r': "(if exp smod 2 = 1 then rbind (ll_mul result base) (\<lambda>x. ll_mod x m) else Inr result) = Inr r'"
      using fits_product [of result m base] 1 m True by (simp add: c_mod_pos r'_def odd_iff_mod_2_eq_one)
    have "\<bar>r'\<bar> < m" "\<bar>base * base smod m\<bar> < m"
      using abs_smod_less [of m] m 1(2) by (auto simp: r'_def)
    then have "mod_pow_loop result base exp m = Inr ((r' * (base * base smod m) ^ nat (exp div 2)) smod m)"
      using 1(1) [OF True r' sq] 1 True sq r' by (simp add: mod_pow_loop.simps [of result base exp m])
    also have "(r' * (base * base smod m) ^ nat (exp div 2)) smod m = (r' * (base * base) ^ nat (exp div 2)) smod m"
      by (metis smod_mult_right smod_power)
    also have "\<dots> = (result * base ^ nat exp) smod m"
    proof -
      have "(base * base) ^ nat (exp div 2) = base ^ (2 * nat (exp div 2))"
        by (simp add: power_mult power2_eq_square)
      moreover have "nat exp = 2 * nat (exp div 2) + (if odd exp then 1 else 0)"
        using True by (auto elim!: evenE oddE)
      ultimately show ?thesis
        by (simp add: r'_def smod_mult_left power_add ac_simps)
    qed
    finally show ?thesis .
  next
    case False
    then show ?thesis using 1 by (simp add: mod_pow_loop.simps smod_small)
  qed
qed

lemma calculate_mod_pow_lemma:
  assumes "1 < m" and "m \<le> 3037000499" and "0 \<le> exp" and "fits 64 base"
  shows "calculate_mod_pow base exp m = Inr (base ^ nat exp smod m)"
proof -
  have "mod_pow_loop 1 (base smod m) exp m = Inr ((1 * (base smod m) ^ nat exp) smod m)"
    by (rule mod_pow_loop_lemma) (use assms abs_smod_less [of m base] in simp_all)
  then show ?thesis using assms by (simp add: calculate_mod_pow_def c_mod_pos smod_power)
qed

section \<open>Why RSA works\<close>

lemma prime_dvd_choose:
  assumes "prime_number (int p)" and "0 < k" and "k < p"
  shows "int p dvd int (p choose k)"
proof -
  have "k * (p choose k) = p * ((p - 1) choose (k - 1))"
    by (rule times_binomial_minus1_eq [OF assms(2)])
  then have "int p dvd int k * int (p choose k)"
    by (metis dvd_triv_left of_nat_mult)
  moreover have "\<not> int p dvd int k" using assms(2,3) by (auto dest: dvd_imp_le)
  ultimately show ?thesis using prime_number_dvd_mult [OF assms(1)] by blast
qed

text \<open>Fermat's little theorem.\<close>

lemma fermat:
  assumes p: "prime_number (int p)"
  shows "int p dvd int n ^ p - int n"
proof (induction n)
  case 0
  then show ?case using prime_number_pos [OF p] by (simp add: power_0_left)
next
  case (Suc n)
  let ?f = "\<lambda>k. int (p choose k) * int n ^ k"
  have "0 < p" using prime_number_pos [OF p] by simp
  then have parts: "{..p} = insert 0 (insert p {0<..<p})" by auto
  have "(int n + 1) ^ p = (\<Sum>k\<le>p. ?f k)"
    using binomial_ring [of "int n" 1 p] by simp
  also have "\<dots> = 1 + int n ^ p + (\<Sum>k\<in>{0<..<p}. ?f k)"
    unfolding parts using \<open>0 < p\<close> by simp
  finally have sum: "int (Suc n) ^ p - int (Suc n) = (int n ^ p - int n) + (\<Sum>k\<in>{0<..<p}. ?f k)"
    by (simp add: add.commute)
  have "int p dvd (\<Sum>k\<in>{0<..<p}. ?f k)"
    by (rule dvd_sum) (auto intro: dvd_mult2 prime_dvd_choose [OF p])
  with Suc show ?case unfolding sum by (rule dvd_add)
qed

lemma power_dvd_diff_1: "p dvd y - 1 \<Longrightarrow> p dvd y ^ k - 1" for p y :: int
  by (metis mod_eq_dvd_iff power_mod power_one)

lemma fermat_power:
  assumes "prime_number p" and "0 \<le> x"
  shows "p dvd x ^ (1 + k * nat (p - 1)) - x"
proof (cases "p dvd x")
  case False
  define P where "P = nat p"
  have P: "p = int P" "0 < P" "nat (p - 1) = P - 1"
    using prime_number_pos [OF assms(1)] by (simp_all add: P_def)
  have "p dvd x ^ P - x" using fermat [of P "nat x"] assms P(1) by simp
  also have "x ^ P - x = x * (x ^ (P - 1) - 1)" using P(2) by (simp add: right_diff_distrib power_eq_if)
  finally have "p dvd x ^ (P - 1) - 1" using False prime_number_dvd_mult [OF assms(1)] by blast
  then have "p dvd (x ^ (P - 1)) ^ k - 1" by (rule power_dvd_diff_1)
  then have "p dvd x * ((x ^ (P - 1)) ^ k - 1)" by simp
  then show ?thesis by (simp add: P(3) power_mult right_diff_distrib mult.commute [of k])
qed (simp add: dvd_diff)

lemma rsa_exponent:
  assumes "prime_number p" and "prime_number q" and "p \<noteq> q" and "0 \<le> x"
  shows "p * q dvd x ^ (1 + k * (nat (p - 1) * nat (q - 1))) - x"
proof (rule divides_mult)
  show "p dvd x ^ (1 + k * (nat (p - 1) * nat (q - 1))) - x"
    using fermat_power [OF assms(1,4), of "k * nat (q - 1)"] by (simp add: ac_simps)
  show "q dvd x ^ (1 + k * (nat (p - 1) * nat (q - 1))) - x"
    using fermat_power [OF assms(2,4), of "k * nat (p - 1)"] by (simp add: ac_simps)
  have "0 < p \<and> p dvd q \<longrightarrow> p = 1 \<or> p = q" using assms(2) by (simp add: prime_number_def)
  then have "\<not> p dvd q" using prime_number_pos [OF assms(1)] assms(3) by simp
  then show "coprime p q" by (rule prime_number_coprime [OF assms(1)])
qed

lemma odd_power_smod:
  fixes x n :: int
  assumes "odd E" and "n dvd \<bar>x\<bar> ^ E - \<bar>x\<bar>"
  shows "x ^ E smod n = x smod n"
proof -
  have "sgn (x ^ E) = sgn x" using assms(1) by (auto simp: sgn_if zero_less_power_eq)
  moreover have "\<bar>x\<bar> ^ E mod \<bar>n\<bar> = \<bar>x\<bar> mod \<bar>n\<bar>"
    using assms(2) by (simp add: mod_eq_dvd_iff)
  ultimately show ?thesis by (simp add: smod_sgn power_abs)
qed

lemma rsa_decrypts:
  assumes "prime_number p" and "prime_number q" and "p \<noteq> q"
    and "(d * e) mod ((p - 1) * (q - 1)) = 1" and "0 < d" and "0 < e" and "odd p"
  shows "(x ^ nat e smod (p * q)) ^ nat d smod (p * q) = x smod (p * q)"
proof -
  let ?phi = "(p - 1) * (q - 1)"
  have pos: "0 < p - 1" "0 < q - 1" using assms(1,2) prime_number_pos by simp_all
  have "0 \<le> (d * e) div ?phi" using assms(5,6) pos by (simp add: pos_imp_zdiv_nonneg_iff)
  moreover have "d * e = (d * e) div ?phi * ?phi + 1" using assms(4) by (metis div_mult_mod_eq)
  ultimately have "nat (d * e) = 1 + nat ((d * e) div ?phi) * (nat (p - 1) * nat (q - 1))"
    using pos by (metis add.commute nat_add_distrib nat_mult_distrib nat_one_as_int mult_nonneg_nonneg
        less_imp_le zero_le_one nat_1 One_nat_def)
  then obtain k where k: "nat e * nat d = 1 + k * (nat (p - 1) * nat (q - 1))"
    using assms(5,6) by (metis mult.commute nat_mult_distrib less_imp_le)
  have "even (nat (p - 1))" using pos assms(7) by (simp add: even_nat_iff)
  then have "odd (nat e * nat d)" unfolding k by simp
  then have "x ^ (nat e * nat d) smod (p * q) = x smod (p * q)"
    by (rule odd_power_smod) (use rsa_exponent [OF assms(1-3), of "\<bar>x\<bar>" k] k in simp)
  then show ?thesis by (simp add: smod_power power_mult)
qed

section \<open>The program\<close>

lemma prime_65537: "prime_number 65537"
proof -
  have "is_prime 65537 = Inr True"
    by (simp add: is_prime_def is_prime_loop.simps c_mod_def fits_64)
  then show ?thesis using is_prime_correct_lemma [of 65537] by simp
qed

definition prime_in_range :: "int \<Rightarrow> bool" where
  "prime_in_range p \<longleftrightarrow> prime_number p \<and> 100 \<le> p \<and> p \<le> 500"

lemma rand_values_tl: "rand_values (r # rand) \<Longrightarrow> rand_values rand"
  by (simp add: rand_values_def)

text \<open>The primes among the candidates, in the order in which \<open>rand()\<close> yields them.\<close>

definition drawn_primes :: "int list \<Rightarrow> int list" where
  "drawn_primes rand = filter prime_number (map (candidate 100 500) rand)"

lemma drawn_primes_in_range: "p \<in> set (drawn_primes rand) \<Longrightarrow> prime_in_range p"
  using candidate_range [of 100 500] by (auto simp: drawn_primes_def prime_in_range_def)

lemma generate_random_prime_drawn:
  assumes "rand_values rand"
  shows "case drawn_primes rand of
      [] \<Rightarrow> generate_random_prime 100 500 rand = Inl Exhausted
    | p # ps \<Rightarrow> \<exists>rand'. generate_random_prime 100 500 rand = Inr (p, rand') \<and> drawn_primes rand' = ps \<and> rand_values rand'"
proof -
  let ?d = "dropWhile (\<lambda>r. \<not> prime_number (candidate 100 500 r)) rand"
  have spec: "generate_random_prime 100 500 rand =
    (case ?d of [] \<Rightarrow> Inl Exhausted | r # rest \<Rightarrow> Inr (candidate 100 500 r, rest))"
    by (rule generate_random_prime_spec) (use assms in simp_all)
  have drawn: "drawn_primes rand = (case ?d of [] \<Rightarrow> [] | r # rest \<Rightarrow> candidate 100 500 r # drawn_primes rest)"
    by (induction rand) (simp_all add: drawn_primes_def)
  have "set ?d \<subseteq> set rand" by (auto dest: set_dropWhileD)
  then have rest: "?d = r # rest \<Longrightarrow> rand_values rest" for r rest using assms by (auto simp: rand_values_def)
  show ?thesis
  proof (cases ?d)
    case Nil
    show ?thesis unfolding spec drawn Nil by simp
  next
    case (Cons r d)
    then show ?thesis using rest [OF Cons] unfolding spec drawn Cons by simp
  qed
qed

lemma generate_other_prime_drawn:
  assumes "rand_values rand"
  shows "case filter (\<lambda>q. q \<noteq> p) (drawn_primes rand) of
      [] \<Rightarrow> generate_other_prime p rand = Inl Exhausted
    | q # qs \<Rightarrow> \<exists>rand'. generate_other_prime p rand = Inr (q, rand')"
  using assms
proof (induction p rand rule: generate_other_prime.induct)
  case (1 p rand)
  show ?case
  proof (cases "drawn_primes rand")
    case Nil
    then show ?thesis using generate_random_prime_drawn [OF 1(2)] by (simp add: generate_other_prime.simps [of p rand])
  next
    case (Cons q qs)
    then obtain rand' where rand': "generate_random_prime 100 500 rand = Inr (q, rand')" "drawn_primes rand' = qs" "rand_values rand'"
      using generate_random_prime_drawn [OF 1(2)] by auto
    show ?thesis
    proof (cases "q = p")
      case True
      have "generate_other_prime p rand = generate_other_prime p rand'"
        using rand'(1) True by (simp add: generate_other_prime.simps [of p rand])
      then show ?thesis using 1(1) [OF rand'(1) refl True rand'(3)] rand'(2) Cons True by (cases "filter (\<lambda>q. q \<noteq> p) qs") simp_all
    next
      case False
      then show ?thesis using rand' Cons by (simp add: generate_other_prime.simps [of p rand])
    qed
  qed
qed

lemma prime_in_range_odd: "prime_in_range p \<Longrightarrow> odd p"
  using divisor_not_prime [of 2 p] by (auto simp: prime_in_range_def)

lemma rsa_keys:
  assumes "prime_in_range p" and "prime_in_range q" and "p \<noteq> q"
  shows "fits 64 (p * q)" and "fits 64 ((p - 1) * (q - 1))" and "1 < (p - 1) * (q - 1)" and "1 < p * q"
    and "p * q \<le> 250000" and "gcd 65537 ((p - 1) * (q - 1)) = 1"
proof -
  have pq: "100 \<le> p" "p \<le> 500" "100 \<le> q" "q \<le> 500" using assms by (simp_all add: prime_in_range_def)
  then have "99 * 99 \<le> (p - 1) * (q - 1)" "(p - 1) * (q - 1) \<le> 500 * 500"
    "100 * 100 \<le> p * q" "p * q \<le> 500 * 500"
    using mult_mono [of 99 "p - 1" 99 "q - 1"] mult_mono [of "p - 1" 500 "q - 1" 500]
      mult_mono [of 100 p 100 q] mult_mono [of p 500 q 500] by simp_all
  then show "fits 64 (p * q)" "fits 64 ((p - 1) * (q - 1))" "1 < (p - 1) * (q - 1)" "1 < p * q"
    "p * q \<le> 250000"
    by (simp_all only: fits_64) linarith+
  have "\<not> 65537 dvd p - 1" "\<not> 65537 dvd q - 1" using pq by (auto dest!: zdvd_imp_le)
  then have "coprime 65537 ((p - 1) * (q - 1))"
    using prime_number_dvd_mult [OF prime_65537] prime_number_coprime [OF prime_65537] by blast
  then show "gcd 65537 ((p - 1) * (q - 1)) = 1" by (simp add: coprime_iff_gcd_eq_1)
qed

definition rsa_outcome :: "int \<Rightarrow> int \<Rightarrow> int \<Rightarrow> rsa_result \<Rightarrow> bool" where
  "rsa_outcome p q message r \<longleftrightarrow>
    (if p * q \<le> message then r = Message_too_large
     else \<exists>d. 0 < d \<and> d < (p - 1) * (q - 1) \<and> (d * 65537) mod ((p - 1) * (q - 1)) = 1 \<and>
       r = Keys_and_messages (p * q) d (message ^ 65537 smod (p * q))
             (if \<bar>message\<bar> < p * q then message else message smod (p * q)))"

lemma rsa_main_with_primes:
  assumes "generate_random_prime 100 500 rand = Inr (p, rand')" and "generate_other_prime p rand' = Inr (q, rand'')"
    and p: "prime_in_range p" and q: "prime_in_range q" and pq: "p \<noteq> q" and "fits 64 message"
  shows "\<exists>r. rsa_main rand (Some message) = Inr r \<and> rsa_outcome p q message r"
proof -
  let ?phi = "(p - 1) * (q - 1)"
  note keys = rsa_keys [OF p q pq]
  have tot: "calculate_euler_totient p = Inr (p - 1)" "calculate_euler_totient q = Inr (q - 1)"
    using p q by (simp_all add: calculate_euler_totient_def prime_in_range_def fits_64)
  have gcd: "calculate_gcd 65537 ?phi = Inr 1"
    using calculate_gcd_lemma [of 65537 ?phi] keys by (simp add: fits_64)
  obtain d where d: "calculate_mod_inverse 65537 ?phi = Inr d" "0 < d" "d < ?phi" "(d * 65537) mod ?phi = 1"
    using calculate_mod_inverse_lemma [of 65537 ?phi] keys by (auto simp: fits_64 split: if_splits)
  have enc: "calculate_mod_pow message 65537 (p * q) = Inr (message ^ 65537 smod (p * q))"
    using calculate_mod_pow_lemma [of "p * q" 65537 message] keys assms(6) by simp
  have fits: "fits 64 (message ^ 65537 smod (p * q))" by (rule fits_smod) (use keys in auto)
  have "(message ^ nat 65537 smod (p * q)) ^ nat d smod (p * q) = message smod (p * q)"
    by (rule rsa_decrypts) (use p q pq d prime_in_range_odd in \<open>auto simp: prime_in_range_def\<close>)
  then have dec: "calculate_mod_pow (message ^ 65537 smod (p * q)) d (p * q) = Inr (message smod (p * q))"
    using calculate_mod_pow_lemma [of "p * q" d "message ^ 65537 smod (p * q)"] keys d fits by simp
  show ?thesis
    using assms(1,2) keys(1,2) tot gcd d enc dec
    by (auto simp: rsa_main_def rsa_outcome_def smod_small)
qed

section \<open>The results\<close>

text \<open>C25: \<open>is_prime\<close> decides primality for every number below \<open>2^62\<close>, and none of its multiplications,
  divisions or additions overflows there.\<close>

theorem is_prime_correct:
  assumes "n < 2 ^ 62"
  shows "is_prime n = Inr (prime_number n)"
  by (rule is_prime_correct_lemma [OF assms])

theorem is_prime_correct_witness: "is_prime 437 = Inr False \<and> \<not> prime_number 437"
proof -
  have "is_prime 437 = Inr False"
    by (simp add: is_prime_def is_prime_loop.simps c_mod_def fits_64)
  then show ?thesis using is_prime_correct [of 437] by simp
qed

text \<open>\<open>generate_random_prime\<close> returns the first candidate in the range that is prime, so it returns
  as soon as \<open>rand()\<close> yields one and only then, and every candidate lies between the two bounds.\<close>

theorem generate_random_prime_correct:
  assumes "0 \<le> lower" and "lower \<le> upper" and "upper < 2 ^ 62" and "rand_values rand"
  shows "generate_random_prime lower upper rand =
      (case dropWhile (\<lambda>r. \<not> prime_number (candidate lower upper r)) rand of
         [] \<Rightarrow> Inl Exhausted
       | r # rest \<Rightarrow> Inr (candidate lower upper r, rest))
    \<and> lower \<le> candidate lower upper r \<and> candidate lower upper r \<le> upper"
  using generate_random_prime_spec [OF assms] candidate_range [OF assms(2)] by simp

theorem generate_random_prime_correct_witness:
  "generate_random_prime 2 3 [7] = Inr (3, [])"
  using generate_random_prime_correct [of 2 3 "[7]" 0]
  by (simp add: rand_values_def candidate_def prime_2_3)

text \<open>Euclid's algorithm returns the greatest common divisor of all non-negative arguments.\<close>

theorem calculate_gcd_correct:
  assumes "0 \<le> a" and "0 \<le> b" and "fits 64 a" and "fits 64 b"
  shows "calculate_gcd a b = Inr (gcd a b)"
  by (rule calculate_gcd_lemma [OF assms])

theorem calculate_gcd_correct_witness: "calculate_gcd 84 36 = Inr (gcd 84 36)"
  by (rule calculate_gcd_correct) (simp_all add: fits_64)

text \<open>C22: For every exponent above 0 and every modulus above 1 of the type, \<open>calculate_mod_inverse\<close> ends
  without overflow and returns the inverse between \<open>1\<close> and \<open>phi - 1\<close> when there is one, \<open>-1\<close> otherwise.\<close>

theorem calculate_mod_inverse_correct:
  assumes "0 < e" and "1 < phi" and "fits 64 e" and "fits 64 phi"
  shows "\<exists>d. calculate_mod_inverse e phi = Inr d \<and>
    (if gcd e phi = 1 then 0 < d \<and> d < phi \<and> (d * e) mod phi = 1 else d = - 1)"
  by (rule calculate_mod_inverse_lemma [OF assms])

theorem calculate_mod_inverse_correct_witness:
  "\<exists>d. calculate_mod_inverse 3 20 = Inr d \<and> (if gcd 3 20 = (1 :: int) then 0 < d \<and> d < 20 \<and> (d * 3) mod 20 = 1 else d = - 1)"
  by (rule calculate_mod_inverse_correct) (simp_all add: fits_64)

text \<open>C24: For every modulus from 2 up to the square root of the largest \<open>long long\<close>, every exponent that is not
  negative and every base of the type, \<open>calculate_mod_pow\<close> computes the power modulo \<open>mod\<close> by squaring, with
  the sign of C's remainder, without overflow.\<close>

theorem calculate_mod_pow_correct:
  assumes "1 < m" and "m \<le> 3037000499" and "0 \<le> exp" and "fits 64 base"
  shows "calculate_mod_pow base exp m = Inr (base ^ nat exp smod m)"
  by (rule calculate_mod_pow_lemma [OF assms])

theorem calculate_mod_pow_correct_witness: "calculate_mod_pow (- 7) 3 10 = Inr (- 3)"
  using calculate_mod_pow_correct [of 10 3 "- 7"] by (simp add: fits_64 smod_sgn)

text \<open>C2: What \<open>main\<close> does for every sequence of values of \<open>rand()\<close>: it goes on drawing until these have
  yielded two different primes between 100 and 500, takes the first two different ones as \<open>p\<close> and \<open>q\<close>,
  and then returns without overflow and without its two error exits: a message below \<open>n\<close> is encrypted to
  its power with exponent 65537 modulo \<open>n\<close>, and decrypted to itself when its absolute value is below \<open>n\<close>
  (a message \<open>\<le> -n\<close>, which the check lets through, comes back reduced).\<close>

theorem rsa_main_correct:
  assumes "rand_values rand" and "fits 64 message"
  shows "case drawn_primes rand of
      [] \<Rightarrow> rsa_main rand (Some message) = Inl Exhausted
    | p # ps \<Rightarrow>
        (case filter (\<lambda>q. q \<noteq> p) ps of
           [] \<Rightarrow> rsa_main rand (Some message) = Inl Exhausted
         | q # qs \<Rightarrow> prime_in_range p \<and> prime_in_range q \<and> p \<noteq> q \<and>
             (\<exists>r. rsa_main rand (Some message) = Inr r \<and> rsa_outcome p q message r))"
proof (cases "drawn_primes rand")
  case Nil
  then show ?thesis using generate_random_prime_drawn [OF assms(1)] by (simp add: rsa_main_def)
next
  case (Cons p ps)
  then obtain rand' where p: "generate_random_prime 100 500 rand = Inr (p, rand')" "drawn_primes rand' = ps" "rand_values rand'"
    using generate_random_prime_drawn [OF assms(1)] by auto
  note other = generate_other_prime_drawn [OF p(3), of p, unfolded p(2)]
  show ?thesis
  proof (cases "filter (\<lambda>q. q \<noteq> p) ps")
    case Nil
    then show ?thesis using Cons p(1) other by (simp add: rsa_main_def)
  next
    case (Cons q qs)
    then have "q \<in> set (filter (\<lambda>q. q \<noteq> p) ps)" by (simp only: list.set_intros)
    then have q: "q \<in> set ps" "q \<noteq> p" by simp_all
    have range: "prime_in_range p" "prime_in_range q"
      using drawn_primes_in_range [of _ rand] q(1) unfolding \<open>drawn_primes rand = p # ps\<close> by simp_all
    obtain rand'' where "generate_other_prime p rand' = Inr (q, rand'')" using other Cons by auto
    from rsa_main_with_primes [OF p(1) this range q(2) [symmetric] assms(2)] range q(2)
    show ?thesis by (simp add: \<open>drawn_primes rand = p # ps\<close> Cons)
  qed
qed

text \<open>The candidates \<open>r mod 401 + 100\<close> of the witness are 101, 100, 101 and 103.\<close>

theorem rsa_main_correct_witness:
  "\<exists>r. rsa_main [1, 0, 402, 3] (Some 42) = Inr r \<and> rsa_outcome 101 103 42 r"
proof -
  have "is_prime 101 = Inr True" "is_prime 103 = Inr True" "is_prime 100 = Inr False"
    by (simp_all add: is_prime_def is_prime_loop.simps c_mod_def fits_64)
  then have "prime_number 101" "prime_number 103" "\<not> prime_number 100"
    using is_prime_correct_lemma [of 101] is_prime_correct_lemma [of 103] is_prime_correct_lemma [of 100] by simp_all
  then have "drawn_primes [1, 0, 402, 3] = [101, 101, 103]" by (simp add: drawn_primes_def candidate_def)
  then show ?thesis using rsa_main_correct [of "[1, 0, 402, 3]" 42] by (simp add: rand_values_def fits_64)
qed

end
