(* ===== verification/Fd_Set.thy ===== *)
theory Fd_Set
  imports C_Prelude
begin

text \<open>
  The set of monitored file descriptors, the same in \<^verbatim>\<open>multiplex/server.c\<close> and
  \<^verbatim>\<open>multiplex-routinginfo/routing_server.c\<close>: an array of 32 slots in which \<open>-1\<close> marks a free slot.

  The locale \<open>fd_monitor\<close> is the contract of such a set with the server loop: what is watched after
  an insertion and a removal, and that a full set drops the descriptor.  Its facts on whole
  connection histories hold for the array by the interpretation \<open>slots\<close>.
\<close>

section \<open>The code\<close>

text \<open>The loops leave at the first slot that matches (\<open>break\<close>).\<close>

definition init_monitor_fd_set :: "int list" where
  "init_monitor_fd_set = replicate 32 (- 1)"

fun add_monitor_fd_set :: "int \<Rightarrow> int list \<Rightarrow> int list" where
  "add_monitor_fd_set socket_fd [] = []"
| "add_monitor_fd_set socket_fd (fd # fds) =
    (if fd \<noteq> - 1 then fd # add_monitor_fd_set socket_fd fds else socket_fd # fds)"

fun remove_monitor_fd_set :: "int \<Rightarrow> int list \<Rightarrow> int list" where
  "remove_monitor_fd_set socket_fd [] = []"
| "remove_monitor_fd_set socket_fd (fd # fds) =
    (if fd \<noteq> socket_fd then fd # remove_monitor_fd_set socket_fd fds else - 1 # fds)"

text \<open>An \<open>fd_set\<close> has 1024 bits; \<open>FD_SET\<close> of any other descriptor writes outside it.\<close>

definition FD_SET :: "int \<Rightarrow> int set \<Rightarrow> c_error + int set" where
  "FD_SET fd s = (if 0 \<le> fd \<and> fd < 1024 then Inr (insert fd s) else Inl Out_of_bounds)"

definition refresh_fd_set :: "int list \<Rightarrow> c_error + int set" where
  "refresh_fd_set monitor =
    fold (\<lambda>fd r. rbind r (\<lambda>s. if fd \<noteq> - 1 then FD_SET fd s else Inr s)) monitor (Inr {})"

definition get_max_fd :: "int list \<Rightarrow> int" where
  "get_max_fd monitor = fold (\<lambda>fd m. if m < fd then fd else m) monitor (- 1)"

section \<open>Invariant and contents\<close>

definition watched :: "int list \<Rightarrow> int set" where
  "watched monitor = set monitor - {- 1}"

definition full_monitor :: "int list \<Rightarrow> bool" where
  "full_monitor monitor \<longleftrightarrow> - 1 \<notin> set monitor"

definition wf_monitor :: "int list \<Rightarrow> bool" where
  "wf_monitor monitor \<longleftrightarrow> length monitor = 32 \<and> distinct (filter (\<lambda>fd. fd \<noteq> - 1) monitor) \<and>
     (\<forall>fd \<in> watched monitor. 0 \<le> fd)"

lemma length_add_remove [simp]:
  "length (add_monitor_fd_set fd m) = length m"
  "length (remove_monitor_fd_set fd m) = length m"
  by (induction m) simp_all

lemma watched_init: "watched init_monitor_fd_set = {}"
  by (simp add: watched_def init_monitor_fd_set_def)

lemma add_full: "full_monitor m \<Longrightarrow> add_monitor_fd_set fd m = m"
  by (induction m) (auto simp: full_monitor_def)

lemma watched_Cons: "watched (x # m) = (if x = - 1 then watched m else insert x (watched m))"
  by (auto simp: watched_def)

lemma watched_add_free:
  "\<not> full_monitor m \<Longrightarrow> fd \<noteq> - 1 \<Longrightarrow> watched (add_monitor_fd_set fd m) = insert fd (watched m)"
proof (induction m)
  case (Cons x m)
  then show ?case
    by (cases "x = - 1") (simp_all add: watched_Cons full_monitor_def insert_commute)
qed (simp add: full_monitor_def)

lemma watched_add:
  "fd \<noteq> - 1 \<Longrightarrow>
    watched (add_monitor_fd_set fd m) = (if full_monitor m then watched m else insert fd (watched m))"
  by (simp add: add_full watched_add_free)

lemma distinct_add:
  assumes "fd \<noteq> - 1" and "fd \<notin> set m" and "distinct (filter (\<lambda>x. x \<noteq> - 1) m)"
  shows "distinct (filter (\<lambda>x. x \<noteq> - 1) (add_monitor_fd_set fd m))"
  using assms
proof (induction m)
  case (Cons x m)
  have "set (add_monitor_fd_set fd m) \<subseteq> insert fd (set m)" by (induction m) auto
  with Cons show ?case by auto
qed simp

lemma set_remove_subset: "set (remove_monitor_fd_set fd m) \<subseteq> insert (- 1) (set m)"
  by (induction m) auto

lemma distinct_remove:
  "distinct (filter (\<lambda>x. x \<noteq> - 1) m) \<Longrightarrow>
    distinct (filter (\<lambda>x. x \<noteq> - 1) (remove_monitor_fd_set fd m))"
  using set_remove_subset by (induction m) fastforce+

lemma watched_remove:
  assumes "distinct (filter (\<lambda>x. x \<noteq> - 1) m)"
  shows "watched (remove_monitor_fd_set fd m) = watched m - {fd}"
  using assms by (induction m) (auto simp: watched_def split: if_splits)

lemma wf_init: "wf_monitor init_monitor_fd_set"
  by (simp add: wf_monitor_def watched_init) (simp add: init_monitor_fd_set_def)

lemma wf_add:
  assumes "wf_monitor m" and "0 \<le> fd" and "fd \<notin> watched m"
  shows "wf_monitor (add_monitor_fd_set fd m)"
  using assms distinct_add [of fd m] watched_add [of fd m]
  by (auto simp: wf_monitor_def watched_def split: if_splits)

lemma wf_remove: "wf_monitor m \<Longrightarrow> wf_monitor (remove_monitor_fd_set fd m)"
  by (simp add: wf_monitor_def distinct_remove watched_remove)

lemma wf_distinct: "wf_monitor m \<Longrightarrow> distinct (filter (\<lambda>x. x \<noteq> - 1) m)"
  by (simp add: wf_monitor_def)

lemma wf_length: "wf_monitor m \<Longrightarrow> length m = 32"
  by (simp add: wf_monitor_def)

text \<open>A slot is freed exactly where the descriptor stood.\<close>

lemma remove_nth:
  assumes "wf_monitor m" and "i < length m" and "m ! i = fd" and "fd \<noteq> - 1"
  shows "remove_monitor_fd_set fd m = m[i := - 1]"
proof -
  have "distinct (filter (\<lambda>x. x \<noteq> - 1) m)" using assms(1) by (simp add: wf_monitor_def)
  then show ?thesis using assms(2-4)
  proof (induction m arbitrary: i)
    case (Cons x m)
    then show ?case by (cases i) (auto split: if_splits)
  qed simp
qed

lemma add_first_free:
  assumes "\<not> full_monitor m"
  obtains i where "i < length m" "m ! i = - 1" "add_monitor_fd_set fd m = m[i := fd]"
proof -
  have "\<exists>i < length m. m ! i = - 1 \<and> add_monitor_fd_set fd m = m[i := fd]"
    using assms
  proof (induction m)
    case (Cons x m)
    show ?case
    proof (cases "x = - 1")
      case False
      then obtain i where "i < length m \<and> m ! i = - 1 \<and> add_monitor_fd_set fd m = m[i := fd]"
        using Cons by (auto simp: full_monitor_def)
      then show ?thesis using False by (intro exI [of _ "Suc i"]) simp
    qed (auto intro: exI [of _ 0])
  qed (simp add: full_monitor_def)
  then show thesis using that by blast
qed

section \<open>The contract with the server loop\<close>

datatype connection_event = Connected int | Closed int

definition opened :: "connection_event \<Rightarrow> int set \<Rightarrow> int set" where
  "opened e s = (case e of Connected fd \<Rightarrow> insert fd s | Closed fd \<Rightarrow> s - {fd})"

fun legal_history :: "connection_event list \<Rightarrow> int set \<Rightarrow> bool" where
  "legal_history [] used \<longleftrightarrow> True"
| "legal_history (Connected fd # es) used \<longleftrightarrow> 0 \<le> fd \<and> fd \<notin> used \<and> legal_history es (insert fd used)"
| "legal_history (Closed fd # es) used \<longleftrightarrow> legal_history es (used - {fd})"

fun within :: "nat \<Rightarrow> connection_event list \<Rightarrow> int set \<Rightarrow> bool" where
  "within n [] used \<longleftrightarrow> True"
| "within n (Connected fd # es) used \<longleftrightarrow> card used < n \<and> within n es (insert fd used)"
| "within n (Closed fd # es) used \<longleftrightarrow> within n es (used - {fd})"

locale fd_monitor =
  fixes start :: 'm
    and add :: "int \<Rightarrow> 'm \<Rightarrow> 'm"
    and remove :: "int \<Rightarrow> 'm \<Rightarrow> 'm"
    and contents :: "'m \<Rightarrow> int set"
    and full :: "'m \<Rightarrow> bool"
    and wf :: "'m \<Rightarrow> bool"
    and capacity :: nat
  assumes wf_start: "wf start"
    and contents_start: "contents start = {}"
    and wf_after_add: "wf m \<Longrightarrow> 0 \<le> fd \<Longrightarrow> fd \<notin> contents m \<Longrightarrow> wf (add fd m)"
    and contents_add: "wf m \<Longrightarrow> 0 \<le> fd \<Longrightarrow>
      contents (add fd m) = (if full m then contents m else insert fd (contents m))"
    and wf_after_remove: "wf m \<Longrightarrow> wf (remove fd m)"
    and contents_remove: "wf m \<Longrightarrow> contents (remove fd m) = contents m - {fd}"
    and full_card: "wf m \<Longrightarrow> full m \<Longrightarrow> card (contents m) = capacity"
begin

text \<open>The history of a server: descriptors that the kernel hands out are not in use.\<close>

definition event :: "connection_event \<Rightarrow> 'm \<Rightarrow> 'm" where
  "event e m = (case e of Connected fd \<Rightarrow> add fd m | Closed fd \<Rightarrow> remove fd m)"

text \<open>What is watched after a history is among the open descriptors, and the structure stays sound.\<close>

lemma history_sound:
  assumes "wf m" and "contents m \<subseteq> used" and "legal_history es used"
  shows "wf (fold event es m) \<and> contents (fold event es m) \<subseteq> fold opened es used"
  using assms
proof (induction es arbitrary: m used)
  case (Cons e es)
  have "wf (event e m) \<and> contents (event e m) \<subseteq> opened e used"
    using Cons.prems
    by (cases e) (auto simp: event_def opened_def contents_add contents_remove
        intro!: wf_after_add wf_after_remove split: if_splits)
  moreover have "legal_history es (opened e used)"
    using Cons.prems(3) by (cases e) (simp_all add: opened_def)
  ultimately show ?case using Cons.IH [of "event e m" "opened e used"] by simp
qed simp

text \<open>While no more descriptors are open than there is room for, exactly the open ones are watched.\<close>

lemma history_exact:
  assumes "wf m" and "contents m = used" and "legal_history es used" and "within capacity es used"
  shows "contents (fold event es m) = fold opened es used"
  using assms
proof (induction es arbitrary: m used)
  case (Cons e es)
  have "\<not> full m" if "e = Connected fd" for fd
    using Cons.prems that full_card [of m] by auto
  then have "wf (event e m)" "contents (event e m) = opened e used"
    using Cons.prems
    by (cases e; auto simp: event_def opened_def contents_add contents_remove
        intro!: wf_after_add wf_after_remove)+
  moreover have "legal_history es (opened e used)" "within capacity es (opened e used)"
    using Cons.prems(3,4) by (cases e; simp add: opened_def)+
  ultimately show ?case using Cons.IH by simp
qed simp

text \<open>A connection that comes and goes leaves the set as it was, full or not.\<close>

lemma come_and_go:
  assumes "wf m" and "0 \<le> fd" and "fd \<notin> contents m"
  shows "contents (fold event [Connected fd, Closed fd] m) = contents m"
  using assms by (simp add: event_def contents_remove wf_after_add contents_add)

end

lemma card_full:
  assumes "wf_monitor m" and "full_monitor m"
  shows "card (watched m) = 32"
proof -
  have "filter (\<lambda>x. x \<noteq> - 1) m = m" using assms(2) by (simp add: full_monitor_def filter_id_conv) metis
  then have "distinct m" "watched m = set m"
    using wf_distinct [OF assms(1)] assms(2) by (simp_all add: watched_def full_monitor_def)
  then show ?thesis using wf_length [OF assms(1)] by (simp add: distinct_card)
qed

interpretation slots: fd_monitor init_monitor_fd_set add_monitor_fd_set remove_monitor_fd_set
  watched full_monitor wf_monitor 32
  by unfold_locales
    (simp_all add: wf_init watched_init wf_add watched_add wf_remove wf_distinct watched_remove card_full)

section \<open>What \<open>select\<close> is given\<close>

lemma refresh_fd_set_lemma:
  assumes "\<forall>fd \<in> watched m. 0 \<le> fd \<and> fd < 1024"
  shows "refresh_fd_set m = Inr (watched m)"
proof -
  let ?f = "\<lambda>fd r. rbind r (\<lambda>s. if fd \<noteq> - 1 then FD_SET fd s else Inr s)"
  have "fold ?f m (Inr s) = Inr (s \<union> watched m)" for s
    using assms by (induction m arbitrary: s) (auto simp: watched_def FD_SET_def)
  then show ?thesis by (simp add: refresh_fd_set_def)
qed

lemma get_max_fd_lemma: "get_max_fd m = Max (insert (- 1) (set m))"
proof -
  have "fold (\<lambda>fd m. if m < fd then fd else m) m a = Max (insert a (set m))" for a :: int
  proof (induction m arbitrary: a)
    case (Cons x m)
    have "(if a < x then x else a) = max a x" by (simp add: max_def)
    then show ?case using Cons by (cases "m = []") (simp_all add: max.assoc)
  qed simp
  then show ?thesis by (simp add: get_max_fd_def)
qed

text \<open>One step of the history, on the array.\<close>

definition monitor_event :: "connection_event \<Rightarrow> int list \<Rightarrow> int list" where
  "monitor_event e m =
    (case e of Connected fd \<Rightarrow> add_monitor_fd_set fd m | Closed fd \<Rightarrow> remove_monitor_fd_set fd m)"

lemma monitor_event_slots: "monitor_event = slots.event"
  by (simp add: fun_eq_iff monitor_event_def slots.event_def)

section \<open>The results\<close>

text \<open>C27: After any history of connections and closures, with at most 32 descriptors open at a time, the
  array watches exactly the open ones; with more, only open ones.\<close>

theorem monitor_history:
  assumes "legal_history es {}"
  shows "wf_monitor (fold monitor_event es init_monitor_fd_set)
    \<and> watched (fold monitor_event es init_monitor_fd_set) \<subseteq> fold opened es {}
    \<and> (within 32 es {} \<longrightarrow> watched (fold monitor_event es init_monitor_fd_set) = fold opened es {})"
  using slots.history_sound [OF wf_init _ assms] slots.history_exact [OF wf_init watched_init assms]
  by (simp add: monitor_event_slots watched_init)

theorem monitor_history_witness:
  "watched (fold monitor_event [Connected 0, Connected 3, Connected 4, Closed 3, Connected 5]
     init_monitor_fd_set) = {0, 4, 5}"
  using monitor_history [of "[Connected 0, Connected 3, Connected 4, Closed 3, Connected 5]"]
  by (simp add: opened_def insert_Diff_if) auto

text \<open>What the loop passes to \<open>select\<close>: the set has exactly the watched descriptors, and the first
  argument is above each of them.\<close>

theorem select_arguments:
  assumes "wf_monitor m" and "\<forall>fd \<in> watched m. fd < 1024"
  shows "refresh_fd_set m = Inr (watched m) \<and> (\<forall>fd \<in> watched m. 0 \<le> fd \<and> fd < get_max_fd m + 1)"
  using assms refresh_fd_set_lemma [of m] get_max_fd_lemma [of m]
  by (auto simp: wf_monitor_def watched_def zle_add1_eq_le)

theorem select_arguments_witness:
  "refresh_fd_set (add_monitor_fd_set 7 (add_monitor_fd_set 0 init_monitor_fd_set)) = Inr {0, 7}"
proof -
  let ?m = "add_monitor_fd_set 7 (add_monitor_fd_set 0 init_monitor_fd_set)"
  have w: "watched ?m = {0, 7}"
    using slots.history_exact [OF wf_init watched_init, of "[Connected 0, Connected 7]"]
    by (simp add: slots.event_def opened_def insert_commute)
  moreover have "wf_monitor ?m"
    using slots.history_sound [OF wf_init, of "{}" "[Connected 0, Connected 7]"]
    by (simp add: slots.event_def watched_init)
  ultimately show ?thesis using select_arguments [of ?m] by simp
qed

end
