(* ===== verification/Int_Message.thy ===== *)
theory Int_Message
  imports C_Int C_String
begin

text \<open>
  The messages of the two servers that add up integers, \<^verbatim>\<open>basic-server/server.c\<close> and
  \<^verbatim>\<open>multiplex/server.c\<close>, and of their client: an integer as its four bytes, the buffer of 128 bytes it is
  read into, and the text of the result.
\<close>

text \<open>The buffer is cleared before each \<open>read\<close>; \<open>memcpy(&data, buffer, sizeof(int))\<close> takes its first
  four bytes as a little-endian integer.\<close>

definition read_buffer :: "byte list option \<Rightarrow> byte list" where
  "read_buffer r = (case r of None \<Rightarrow> replicate 128 0 | Some bs \<Rightarrow> bs @ replicate (128 - length bs) 0)"

definition le_int :: "byte list \<Rightarrow> int" where
  "le_int b =
    (let u = uint (b ! 0) + 256 * uint (b ! 1) + 65536 * uint (b ! 2) + 16777216 * uint (b ! 3)
     in if u < 2147483648 then u else u - 4294967296)"

definition int_bytes :: "int \<Rightarrow> byte list" where
  "int_bytes i =
    [word_of_int i, word_of_int (i div 256), word_of_int (i div 65536), word_of_int (i div 16777216)]"

definition result_message :: "int \<Rightarrow> string" where
  "result_message v = (let s = ''Result = '' @ print_int v in s @ replicate (128 - length s) NUL)"

lemma result_message_lemma:
  assumes "fits 32 v"
  shows "length (result_message v) = 128" and "c_str (result_message v) = ''Result = '' @ print_int v"
proof -
  have "length (print_int v) \<le> 11"
    using length_print_int [of 10 v] assms by (simp add: fits_32)
  then obtain n where n: "128 - length (''Result = '' @ print_int v) = Suc n" and l: "length (print_int v) \<le> 11"
    by (cases "128 - length (''Result = '' @ print_int v)") auto
  show "length (result_message v) = 128" using l by (simp add: result_message_def Let_def)
  show "c_str (result_message v) = ''Result = '' @ print_int v"
    unfolding result_message_def Let_def n using print_int_no_NUL [of v]
    by (simp only: replicate.simps) (rule c_str_append_NUL, simp)
qed


text \<open>An iteration in which one client has sent something.\<close>

section \<open>An integer that is sent is read\<close>

lemma le_int_int_bytes:
  assumes "fits 32 i"
  shows "le_int (int_bytes i @ rest) = i"
proof -
  have u: "uint (word_of_int k :: byte) = k mod 256" for k by (simp add: uint_word_of_int take_bit_eq_mod)
  have i: "- 2147483648 \<le> i" "i < 2147483648" using assms by (simp_all add: fits_32)
  have "i mod 4294967296 = 256 * ((i div 256) mod 16777216) + i mod 256"
    using zmod_zmult2_eq [of 16777216 i 256] by simp
  moreover have "(i div 256) mod 16777216 = 256 * ((i div 65536) mod 65536) + (i div 256) mod 256"
    using zmod_zmult2_eq [of 65536 "i div 256" 256] zdiv_zmult2_eq [of 256 i 256] by simp
  moreover have "(i div 65536) mod 65536 = 256 * ((i div 16777216) mod 256) + (i div 65536) mod 256"
    using zmod_zmult2_eq [of 256 "i div 65536" 256] zdiv_zmult2_eq [of 256 i 65536] by simp
  ultimately have "i mod 4294967296 = i mod 256 + 256 * ((i div 256) mod 256) + 65536 * ((i div 65536) mod 256)
      + 16777216 * ((i div 16777216) mod 256)"
    by linarith
  moreover have "i mod 4294967296 = (if 0 \<le> i then i else i + 4294967296)"
  proof (cases "0 \<le> i")
    case False
    then have "(i + 4294967296) mod 4294967296 = i + 4294967296" using i by (intro mod_pos_pos_trivial) auto
    then show ?thesis using False by simp
  qed (use i in simp)
  moreover have "le_int ([a, b, c, d] @ rest) =
      (let v = uint a + 256 * uint b + 65536 * uint c + 16777216 * uint d
       in if v < 2147483648 then v else v - 4294967296)" for a b c d
    by (simp add: le_int_def)
  ultimately have "le_int (int_bytes i @ rest) = (let v = if 0 \<le> i then i else i + 4294967296
      in if v < 2147483648 then v else v - 4294967296)"
    by (simp only: int_bytes_def u)
  then show ?thesis using i by (simp add: Let_def)
qed

lemma read_int_bytes: "fits 32 i \<Longrightarrow> le_int (read_buffer (Some (int_bytes i))) = i"
  by (simp add: read_buffer_def le_int_int_bytes)

end
