(* ===== verification/Sum_Server.thy ===== *)
theory Sum_Server
  imports Fd_Set Int_Message
begin

text \<open>
  \<^verbatim>\<open>multiplex/server.c\<close>: a server that adds up the integers of up to 30 clients and sends a client its
  sum when it sends zero.  The state is the two global arrays; an iteration of the endless loop is
  \<open>sum_server_step\<close>, a function of what the kernel answers in it (\<open>kernel\<close>): the descriptors
  \<open>select\<close> reports, what \<open>accept\<close> returns, what \<open>read\<close> delivers and whether \<open>write\<close> succeeds.

  The results: an iteration serves every slot on its own (a closed form of the loop over the slots),
  it refines the abstract server that keeps one sum per connected client, and over any run the sum of
  a client is the sum of what it has sent since it connected.
\<close>

section \<open>The code\<close>

record sum_server =
  monitor_fd_set :: "int list"
  client_result :: "int list"

record kernel =
  readable :: "int set"                   \<comment> \<open>the set \<open>readfds\<close> after \<open>select\<close>\<close>
  accepted :: int                         \<comment> \<open>the result of \<open>accept\<close>\<close>
  received :: "int \<Rightarrow> byte list option"   \<comment> \<open>what \<open>read\<close> stores; \<open>None\<close> for the result \<open>-1\<close>\<close>
  writable :: "int \<Rightarrow> bool"               \<comment> \<open>\<open>write\<close> does not return \<open>-1\<close>\<close>

definition summand :: "kernel \<Rightarrow> int \<Rightarrow> int" where
  "summand k fd = le_int (read_buffer (received k fd))"

text \<open>The body of the loop over the slots, for slot \<open>i\<close>; the second component collects what is written.\<close>

definition serve_slot :: "kernel \<Rightarrow> nat \<Rightarrow> sum_server \<times> (int \<times> string) list
    \<Rightarrow> c_error + sum_server \<times> (int \<times> string) list" where
  "serve_slot k i = (\<lambda>(s, out).
    let comm_socket_fd = monitor_fd_set s ! i
    in if comm_socket_fd \<noteq> - 1 \<and> comm_socket_fd \<in> readable k then
         (case received k comm_socket_fd of
            None \<Rightarrow> Inl Exit_failure
          | Some _ \<Rightarrow>
              let data = summand k comm_socket_fd
              in if data = 0 then
                   if \<not> writable k comm_socket_fd then Inl Exit_failure
                   else Inr (s\<lparr>client_result := (client_result s)[i := 0],
                               monitor_fd_set := remove_monitor_fd_set comm_socket_fd (monitor_fd_set s)\<rparr>,
                             out @ [(comm_socket_fd, result_message (client_result s ! i))])
                 else rbind (checked 32 (client_result s ! i + data)) (\<lambda>v.
                        Inr (s\<lparr>client_result := (client_result s)[i := v]\<rparr>, out)))
       else Inr (s, out))"

definition sum_server_step :: "int \<Rightarrow> kernel \<Rightarrow> sum_server \<Rightarrow> c_error + sum_server \<times> (int \<times> string) list" where
  "sum_server_step connection_socket k s =
    rbind (refresh_fd_set (monitor_fd_set s)) (\<lambda>_.
      if connection_socket \<in> readable k then
        (if accepted k = - 1 then Inl Exit_failure
         else Inr (s\<lparr>monitor_fd_set := add_monitor_fd_set (accepted k) (monitor_fd_set s)\<rparr>, []))
      else if 0 \<in> readable k then
        rbind (c_string_of (map char_of_byte (read_buffer (received k 0)))) (\<lambda>_. Inr (s, []))
      else for_to 0 32 (\<lambda>i r. rbind r (serve_slot k i)) (Inr (s, [])))"

text \<open>The part of \<open>main\<close> before the loop; the three arguments are the results of the system calls.\<close>

definition sum_server_start :: "int \<Rightarrow> int \<Rightarrow> int \<Rightarrow> c_error + sum_server" where
  "sum_server_start connection_socket bind_ret listen_ret =
    (let monitor = add_monitor_fd_set 0 init_monitor_fd_set
     in if connection_socket = - 1 then Inl Exit_failure
        else if bind_ret = - 1 then Inl Exit_failure
        else if listen_ret = - 1 then Inl Exit_failure
        else Inr \<lparr>monitor_fd_set = add_monitor_fd_set connection_socket monitor,
                  client_result = replicate 32 0\<rparr>)"

section \<open>The loop over the slots in closed form\<close>

abbreviation slots_of :: "sum_server \<Rightarrow> (int \<times> int) list" where
  "slots_of s \<equiv> zip (monitor_fd_set s) (client_result s)"

definition busy :: "kernel \<Rightarrow> int \<Rightarrow> bool" where
  "busy k fd \<longleftrightarrow> fd \<noteq> - 1 \<and> fd \<in> readable k"

definition slot_after :: "kernel \<Rightarrow> int \<times> int \<Rightarrow> int \<times> int" where
  "slot_after k = (\<lambda>(fd, v). if busy k fd then if summand k fd = 0 then (- 1, 0) else (fd, v + summand k fd) else (fd, v))"

definition slot_reply :: "kernel \<Rightarrow> int \<times> int \<Rightarrow> (int \<times> string) list" where
  "slot_reply k = (\<lambda>(fd, v). if busy k fd \<and> summand k fd = 0 then [(fd, result_message v)] else [])"

text \<open>What the system calls and the range of \<open>int\<close> must allow for a slot to be served.\<close>

definition slot_ok :: "kernel \<Rightarrow> int \<times> int \<Rightarrow> bool" where
  "slot_ok k = (\<lambda>(fd, v). if busy k fd then received k fd \<noteq> None \<and> writable k fd \<and> fits 32 (v + summand k fd) else True)"

definition sum_inv :: "sum_server \<Rightarrow> bool" where
  "sum_inv s \<longleftrightarrow> wf_monitor (monitor_fd_set s) \<and> length (client_result s) = 32 \<and>
     (\<forall>fd \<in> watched (monitor_fd_set s). fd < 1024) \<and>
     list_all (\<lambda>(fd, v). if fd = - 1 then v = 0 else True) (slots_of s)"

lemma serve_slot_lemma:
  assumes wf: "wf_monitor (monitor_fd_set s)" and len: "length (client_result s) = 32" and i: "i < 32"
    and ok: "slot_ok k (slots_of s ! i)"
  shows "\<exists>s'. serve_slot k i (s, out) = Inr (s', out @ slot_reply k (slots_of s ! i)) \<and>
      wf_monitor (monitor_fd_set s') \<and> length (client_result s') = 32 \<and>
      slots_of s' = (slots_of s)[i := slot_after k (slots_of s ! i)]"
proof -
  define fd v where "fd = monitor_fd_set s ! i" and "v = client_result s ! i"
  have at: "slots_of s ! i = (fd, v)"
    using i len wf by (simp add: fd_def v_def wf_length)
  show ?thesis
  proof (cases "busy k fd")
    case False
    then have "serve_slot k i (s, out) = Inr (s, out)"
      by (auto simp: serve_slot_def busy_def fd_def)
    moreover have "slot_after k (fd, v) = slots_of s ! i" "slot_reply k (fd, v) = []"
      using False by (simp_all add: slot_after_def slot_reply_def at)
    ultimately show ?thesis using wf len list_update_id [of "slots_of s" i] by (simp add: at)
  next
    case True
    then obtain bs where k: "received k fd = Some bs" "writable k fd" "fits 32 (v + summand k fd)"
      using ok by (auto simp: slot_ok_def at)
    have rem: "remove_monitor_fd_set fd (monitor_fd_set s) = (monitor_fd_set s)[i := - 1]"
      by (rule remove_nth) (use wf i True in \<open>simp_all add: busy_def wf_length fd_def\<close>)
    have same: "(monitor_fd_set s)[i := fd] = monitor_fd_set s" by (simp add: fd_def)
    show ?thesis
    proof (cases "summand k fd = 0")
      case zero: True
      let ?s = "s\<lparr>client_result := (client_result s)[i := 0], monitor_fd_set := (monitor_fd_set s)[i := - 1]\<rparr>"
      have "serve_slot k i (s, out) = Inr (?s, out @ [(fd, result_message v)])"
        using True zero k rem by (simp add: serve_slot_def busy_def Let_def flip: fd_def v_def)
      moreover have "wf_monitor ((monitor_fd_set s)[i := - 1])" using wf_remove [OF wf] rem by metis
      ultimately show ?thesis
        using True zero len by (simp add: at slot_after_def slot_reply_def update_zip)
    next
      case False
      let ?s = "s\<lparr>client_result := (client_result s)[i := v + summand k fd]\<rparr>"
      have "serve_slot k i (s, out) = Inr (?s, out)"
        using True False k by (simp add: serve_slot_def busy_def Let_def flip: fd_def v_def)
      moreover have "slots_of ?s = (slots_of s)[i := (fd, v + summand k fd)]"
        using update_zip [of "monitor_fd_set s" "client_result s" i "(fd, v + summand k fd)"] same by simp
      ultimately show ?thesis
        using True False len wf by (simp add: at slot_after_def slot_reply_def)
    qed
  qed
qed

lemma serve_slots:
  assumes "wf_monitor (monitor_fd_set s)" and "length (client_result s) = 32"
    and ok: "list_all (slot_ok k) (slots_of s)" and "n \<le> 32"
  shows "\<exists>s'. for_to 0 n (\<lambda>i r. rbind r (serve_slot k i)) (Inr (s, [])) =
      Inr (s', concat (map (slot_reply k) (take n (slots_of s))))
    \<and> wf_monitor (monitor_fd_set s') \<and> length (client_result s') = 32
    \<and> slots_of s' = map (slot_after k) (take n (slots_of s)) @ drop n (slots_of s)"
  using assms(4)
proof (induction n)
  case 0
  then show ?case using assms by simp
next
  case (Suc n)
  let ?xs = "slots_of s" and ?out = "concat (map (slot_reply k) (take n (slots_of s)))"
  obtain s' where s': "for_to 0 n (\<lambda>i r. rbind r (serve_slot k i)) (Inr (s, [])) = Inr (s', ?out)"
    and wf: "wf_monitor (monitor_fd_set s')" and len: "length (client_result s') = 32"
    and slots: "slots_of s' = map (slot_after k) (take n ?xs) @ drop n ?xs"
    using Suc by auto
  have lens: "length ?xs = 32" "n < 32" using assms Suc.prems by (simp_all add: wf_length)
  then have at: "slots_of s' ! n = ?xs ! n" by (simp add: slots nth_append)
  have "slot_ok k (?xs ! n)" using ok lens by (metis list_all_length)
  then obtain s'' where "serve_slot k n (s', ?out) = Inr (s'', ?out @ slot_reply k (?xs ! n))"
    and "wf_monitor (monitor_fd_set s'')" "length (client_result s'') = 32"
    and "slots_of s'' = (slots_of s')[n := slot_after k (?xs ! n)]"
    using serve_slot_lemma [OF wf len lens(2), of k ?out] unfolding at by blast
  moreover have "take (Suc n) ?xs = take n ?xs @ [?xs ! n]" "drop n ?xs = ?xs ! n # drop (Suc n) ?xs"
    using lens by (simp_all only: take_Suc_conv_app_nth Cons_nth_drop_Suc)
  moreover have "(slots_of s')[n := slot_after k (?xs ! n)] =
      map (slot_after k) (take n ?xs) @ slot_after k (?xs ! n) # drop (Suc n) ?xs"
    using lens unfolding slots by (subst \<open>drop n ?xs = _\<close>) (simp add: list_update_append)
  ultimately show ?case using s' by (simp add: for_to_Suc)
qed

section \<open>The abstract server\<close>

text \<open>One sum per watched descriptor.  (Standard input and the listening socket are watched, too;
  their sum stays 0.)\<close>

abbreviation used_slot :: "int \<times> int \<Rightarrow> bool" where
  "used_slot p \<equiv> fst p \<noteq> - 1"

definition sums_of :: "sum_server \<Rightarrow> int \<rightharpoonup> int" where
  "sums_of s = map_of (filter used_slot (slots_of s))"

text \<open>What an iteration does to the sums: a new client starts at 0 if there is room for it; a summand
  is added; a zero ends the session.\<close>

definition sum_spec :: "int \<Rightarrow> kernel \<Rightarrow> (int \<rightharpoonup> int) \<Rightarrow> (int \<rightharpoonup> int)" where
  "sum_spec connection_socket k m =
    (if connection_socket \<in> readable k then (if card (dom m) < 32 then m(accepted k \<mapsto> 0) else m)
     else if 0 \<in> readable k then m
     else (\<lambda>fd. if fd \<in> readable k then
             Option.bind (m fd) (\<lambda>v. if summand k fd = 0 then None else Some (v + summand k fd))
           else m fd))"

definition reply_spec :: "int \<Rightarrow> kernel \<Rightarrow> (int \<rightharpoonup> int) \<Rightarrow> (int \<times> string) set" where
  "reply_spec connection_socket k m =
    (if connection_socket \<in> readable k \<or> 0 \<in> readable k then {}
     else {(fd, msg). fd \<in> readable k \<and> summand k fd = 0 \<and> (\<exists>v. m fd = Some v \<and> msg = result_message v)})"

text \<open>The answers of the kernel that an iteration relies on.\<close>

definition kernel_ok :: "int \<Rightarrow> kernel \<Rightarrow> sum_server \<Rightarrow> bool" where
  "kernel_ok connection_socket k s \<longleftrightarrow>
    (if connection_socket \<in> readable k then
       0 \<le> accepted k \<and> accepted k < 1024 \<and> accepted k \<notin> watched (monitor_fd_set s)
     else if 0 \<in> readable k then 0 \<in> set (read_buffer (received k 0))
     else list_all (slot_ok k) (slots_of s))"

lemma keys_of_slots:
  "length m = length r \<Longrightarrow> map fst (filter used_slot (zip m r)) = filter (\<lambda>fd. fd \<noteq> - 1) m"
  by (induction m r rule: list_induct2) simp_all

lemma dom_sums: "length (client_result s) = length (monitor_fd_set s) \<Longrightarrow> dom (sums_of s) = watched (monitor_fd_set s)"
  using arg_cong [OF keys_of_slots [of "monitor_fd_set s" "client_result s"], of set]
  by (auto simp: sums_of_def dom_map_of_conv_image_fst watched_def)

lemma sums_minus_1: "map_of (filter used_slot xs) (- 1) = None"
  by (auto simp: map_of_eq_None_iff)

lemma sums_after:
  assumes "distinct (map fst (filter used_slot xs))"
  shows "map_of (filter used_slot (map (slot_after k) xs)) fd =
    (if fd \<in> readable k then
       Option.bind (map_of (filter used_slot xs) fd) (\<lambda>v. if summand k fd = 0 then None else Some (v + summand k fd))
     else map_of (filter used_slot xs) fd)"
  using assms
proof (induction xs)
  case (Cons p xs)
  obtain fd' v where p: "p = (fd', v)" by force
  show ?case
  proof (cases "fd' = fd")
    case True
    then have "fd \<noteq> - 1 \<Longrightarrow> map_of (filter used_slot xs) fd = None"
      using Cons.prems p by (auto simp: map_of_eq_None_iff)
    then show ?thesis
      using Cons p True by (cases "fd = - 1") (auto simp: slot_after_def busy_def)
  next
    case False
    then show ?thesis using Cons p by (auto simp: slot_after_def busy_def)
  qed
qed simp

lemma sums_add:
  assumes "i < length xs" and "xs ! i = (- 1, 0)" and "fd \<noteq> - 1"
    and "fd \<notin> fst ` set xs"
  shows "map_of (filter used_slot (xs[i := (fd, 0)])) = (map_of (filter used_slot xs))(fd \<mapsto> 0)"
  using assms
proof (induction xs arbitrary: i)
  case (Cons p xs)
  then show ?case by (cases i) (auto simp: fun_eq_iff)
qed simp

lemma replies_of_slots:
  assumes "distinct (map fst (filter used_slot xs))"
  shows "set (concat (map (slot_reply k) xs)) =
    {(fd, msg). fd \<in> readable k \<and> summand k fd = 0 \<and>
       (\<exists>v. map_of (filter used_slot xs) fd = Some v \<and> msg = result_message v)}"
  using assms by (auto simp: slot_reply_def busy_def map_of_eq_Some_iff split: if_splits)

lemma sum_invE:
  assumes "sum_inv s"
  shows "wf_monitor (monitor_fd_set s)" and "length (client_result s) = 32"
    and "length (monitor_fd_set s) = 32" and "length (slots_of s) = 32"
    and "refresh_fd_set (monitor_fd_set s) = Inr (watched (monitor_fd_set s))"
    and "distinct (map fst (filter used_slot (slots_of s)))"
    and "dom (sums_of s) = watched (monitor_fd_set s)"
proof -
  show wf: "wf_monitor (monitor_fd_set s)" and l: "length (client_result s) = 32"
    using assms by (simp_all add: sum_inv_def)
  then show m: "length (monitor_fd_set s) = 32" and "length (slots_of s) = 32"
    by (simp_all add: wf_length)
  show "refresh_fd_set (monitor_fd_set s) = Inr (watched (monitor_fd_set s))"
    by (rule refresh_fd_set_lemma) (use assms in \<open>auto simp: sum_inv_def wf_monitor_def\<close>)
  show "distinct (map fst (filter used_slot (slots_of s)))"
    using l m by (simp only: keys_of_slots) (rule wf_distinct [OF wf])
  show "dom (sums_of s) = watched (monitor_fd_set s)" using l m by (simp add: dom_sums)
qed

lemma sum_inv_after:
  assumes "sum_inv s" and "wf_monitor (monitor_fd_set s')" and "length (client_result s') = 32"
    and "slots_of s' = map (slot_after k) (slots_of s)"
  shows "sum_inv s'"
proof -
  have "\<forall>p \<in> set (slots_of s). fst p = - 1 \<longrightarrow> snd p = 0"
    using assms(1) by (fastforce simp: sum_inv_def list_all_iff)
  then have "list_all (\<lambda>(fd, v). if fd = - 1 then v = 0 else True) (slots_of s')"
    unfolding assms(4) by (fastforce simp: list_all_iff slot_after_def busy_def split: if_splits)
  moreover have "monitor_fd_set s' = map fst (slots_of s')" "monitor_fd_set s = map fst (slots_of s)"
    using assms(2,3) sum_invE [OF assms(1)] by (simp_all add: wf_length)
  then have "set (monitor_fd_set s') \<subseteq> insert (- 1) (set (monitor_fd_set s))"
    unfolding assms(4) by (auto simp: slot_after_def split: if_splits dest: set_zip_leftD)
  then have "watched (monitor_fd_set s') \<subseteq> watched (monitor_fd_set s)" by (auto simp: watched_def)
  ultimately show ?thesis using assms(1-3) by (auto simp: sum_inv_def)
qed


lemma step_new_client:
  assumes inv: "sum_inv s" and "connection_socket \<in> readable k" and ok: "kernel_ok connection_socket k s"
  shows "\<exists>s'. sum_server_step connection_socket k s = Inr (s', []) \<and> sum_inv s' \<and>
    sums_of s' = sum_spec connection_socket k (sums_of s)"
proof -
  note facts = sum_invE [OF inv]
  let ?fd = "accepted k" and ?m = "monitor_fd_set s"
  have fd: "0 \<le> ?fd" "?fd < 1024" "?fd \<notin> watched ?m" using assms by (simp_all add: kernel_ok_def)
  let ?s = "s\<lparr>monitor_fd_set := add_monitor_fd_set ?fd ?m\<rparr>"
  have step: "sum_server_step connection_socket k s = Inr (?s, [])"
    using assms(2) fd facts by (simp add: sum_server_step_def)
  have wf: "wf_monitor (add_monitor_fd_set ?fd ?m)" by (rule wf_add [OF facts(1) fd(1,3)])
  show ?thesis
  proof (cases "full_monitor ?m")
    case True
    then have "card (dom (sums_of s)) = 32" using card_full facts by simp
    then show ?thesis using step inv True assms(2) by (auto simp: add_full sum_spec_def)
  next
    case False
    obtain i where i: "i < length ?m" "?m ! i = - 1" "add_monitor_fd_set ?fd ?m = ?m[i := ?fd]"
      using add_first_free [OF False] by blast
    have "list_all (\<lambda>(fd, v). if fd = - 1 then v = 0 else True) (slots_of s)"
      using inv by (simp add: sum_inv_def)
    then have zero: "slots_of s ! i = (- 1, 0)"
      using i(1,2) facts(2,3) by (auto simp: list_all_length)
    then have "client_result s ! i = 0" using i(1) facts(2,3) by simp
    then have slots: "slots_of ?s = (slots_of s)[i := (?fd, 0)]"
      using update_zip [of ?m "client_result s" i "(?fd, 0)"] i(3) list_update_id [of "client_result s" i] by simp
    have "?fd \<notin> fst ` set (slots_of s)"
      using fd facts(2,3) by (auto simp: watched_def dest: set_zip_leftD)
    then have sums: "sums_of ?s = (sums_of s)(?fd \<mapsto> 0)"
      unfolding sums_of_def slots using i(1) zero facts fd(1) by (intro sums_add) auto
    have finite: "finite (watched ?m)" by (simp add: watched_def)
    have "card (watched ?m) \<le> card (set (filter (\<lambda>x. x \<noteq> - 1) ?m))"
      by (rule card_mono) (auto simp: watched_def)
    also have "\<dots> \<le> length (filter (\<lambda>x. x \<noteq> - 1) ?m)" by (rule card_length)
    also have "\<dots> < length ?m" using i(1,2) by (intro length_filter_less [of "- 1"]) (auto simp: in_set_conv_nth)
    finally have "card (dom (sums_of s)) < 32" using facts by simp
    moreover have "sum_inv ?s"
      using inv wf fd watched_add [of ?fd ?m] facts slots False zero i(1)
      by (auto simp: sum_inv_def list_all_iff dest!: set_update_subset_insert [THEN subsetD])
    ultimately show ?thesis using step sums assms(2) by (auto simp: sum_spec_def)
  qed
qed

lemma step_serve:
  assumes inv: "sum_inv s" and idle: "connection_socket \<notin> readable k" "0 \<notin> readable k"
    and ok: "kernel_ok connection_socket k s"
  shows "\<exists>s' out. sum_server_step connection_socket k s = Inr (s', out) \<and> sum_inv s' \<and>
    sums_of s' = sum_spec connection_socket k (sums_of s) \<and>
    set out = reply_spec connection_socket k (sums_of s)"
proof -
  note facts = sum_invE [OF inv]
  have "list_all (slot_ok k) (slots_of s)" using ok idle by (simp add: kernel_ok_def)
  from serve_slots [OF facts(1,2) this, of 32] obtain s' where
    s': "for_to 0 32 (\<lambda>i r. rbind r (serve_slot k i)) (Inr (s, []))
        = Inr (s', concat (map (slot_reply k) (slots_of s)))"
      "wf_monitor (monitor_fd_set s')" "length (client_result s') = 32"
      "slots_of s' = map (slot_after k) (slots_of s)"
    using facts(4) by auto
  have "sums_of s' = sum_spec connection_socket k (sums_of s)"
    unfolding sums_of_def s'(4) sum_spec_def using idle sums_after [OF facts(6)] by auto
  moreover have "set (concat (map (slot_reply k) (slots_of s))) = reply_spec connection_socket k (sums_of s)"
    unfolding reply_spec_def sums_of_def using idle replies_of_slots [OF facts(6)] by simp
  moreover have "sum_server_step connection_socket k s = Inr (s', concat (map (slot_reply k) (slots_of s)))"
    using idle facts(5) s'(1) by (simp add: sum_server_step_def)
  ultimately show ?thesis using sum_inv_after [OF inv s'(2-4)] by blast
qed

lemma step_lemma:
  assumes "sum_inv s" and ok: "kernel_ok connection_socket k s"
  shows "\<exists>s' out. sum_server_step connection_socket k s = Inr (s', out) \<and> sum_inv s' \<and>
    sums_of s' = sum_spec connection_socket k (sums_of s) \<and>
    set out = reply_spec connection_socket k (sums_of s)"
proof -
  consider "connection_socket \<in> readable k" | "connection_socket \<notin> readable k" "0 \<in> readable k"
    | "connection_socket \<notin> readable k" "0 \<notin> readable k" by blast
  then show ?thesis
  proof cases
    case 1
    then show ?thesis using step_new_client [OF assms(1) 1 ok] by (auto simp: reply_spec_def)
  next
    case 2
    have "NUL \<in> set (map char_of_byte (read_buffer (received k 0)))"
      using ok 2 by (force simp: kernel_ok_def)
    then show ?thesis
      using 2 assms(1) sum_invE(5) [OF assms(1)]
      by (simp add: sum_server_step_def c_string_of_def sum_spec_def reply_spec_def)
  next
    case 3
    then show ?thesis using step_serve assms by blast
  qed
qed


section \<open>Runs\<close>

fun sum_run :: "int \<Rightarrow> kernel list \<Rightarrow> sum_server \<Rightarrow> c_error + sum_server \<times> (int \<times> string) list" where
  "sum_run connection_socket [] s = Inr (s, [])"
| "sum_run connection_socket (k # ks) s =
    rbind (sum_server_step connection_socket k s) (\<lambda>(s, out).
    rbind (sum_run connection_socket ks s) (\<lambda>(s, outs). Inr (s, out @ outs)))"

text \<open>The kernel answers as \<open>kernel_ok\<close> asks in every iteration.\<close>

fun run_ok :: "int \<Rightarrow> kernel list \<Rightarrow> sum_server \<Rightarrow> bool" where
  "run_ok connection_socket [] s \<longleftrightarrow> True"
| "run_ok connection_socket (k # ks) s \<longleftrightarrow> kernel_ok connection_socket k s \<and>
    (case sum_server_step connection_socket k s of Inl _ \<Rightarrow> True | Inr (s', _) \<Rightarrow> run_ok connection_socket ks s')"

lemma run_lemma:
  assumes "sum_inv s" and "run_ok connection_socket ks s"
  shows "\<exists>s' outs. sum_run connection_socket ks s = Inr (s', outs) \<and> sum_inv s' \<and>
    sums_of s' = fold (sum_spec connection_socket) ks (sums_of s)"
  using assms
proof (induction ks arbitrary: s)
  case (Cons k ks)
  then obtain s1 out where s1: "sum_server_step connection_socket k s = Inr (s1, out)" "sum_inv s1"
    "sums_of s1 = sum_spec connection_socket k (sums_of s)"
    using step_lemma by (metis run_ok.simps(2))
  then have "run_ok connection_socket ks s1" using Cons.prems(2) by simp
  then show ?case using Cons.IH [OF s1(2)] s1 by auto
qed simp

text \<open>What a client adds in an iteration.\<close>

definition contribution :: "int \<Rightarrow> int \<Rightarrow> kernel \<Rightarrow> int" where
  "contribution connection_socket fd k =
    (if connection_socket \<in> readable k \<or> 0 \<in> readable k \<or> fd \<notin> readable k then 0 else summand k fd)"

definition keeps_going :: "int \<Rightarrow> int \<Rightarrow> kernel \<Rightarrow> bool" where
  "keeps_going connection_socket fd k \<longleftrightarrow>
    connection_socket \<in> readable k \<or> 0 \<in> readable k \<or> fd \<notin> readable k \<or> summand k fd \<noteq> 0"

lemma client_sum_lemma:
  assumes "sum_inv s" and "run_ok connection_socket ks s" and "sums_of s fd = Some v"
    and "list_all (keeps_going connection_socket fd) ks"
  shows "fold (sum_spec connection_socket) ks (sums_of s) fd
    = Some (v + sum_list (map (contribution connection_socket fd) ks))"
  using assms
proof (induction ks arbitrary: s v)
  case (Cons k ks)
  from Cons.prems obtain s1 out where s1: "sum_server_step connection_socket k s = Inr (s1, out)" "sum_inv s1"
    "sums_of s1 = sum_spec connection_socket k (sums_of s)"
    using step_lemma by (metis run_ok.simps(2))
  have "run_ok connection_socket ks s1" using Cons.prems(2) s1(1) by simp
  moreover have "fd \<in> watched (monitor_fd_set s)" using Cons.prems(3) sum_invE(7) [OF Cons.prems(1)] by blast
  then have "connection_socket \<in> readable k \<Longrightarrow> accepted k \<noteq> fd"
    using Cons.prems(2) by (auto simp: kernel_ok_def)
  then have "sums_of s1 fd = Some (v + contribution connection_socket fd k)"
    unfolding s1(3) using Cons.prems(3,4)
    by (auto simp: sum_spec_def contribution_def keeps_going_def)
  ultimately show ?case
    using Cons.IH [OF s1(2)] Cons.prems(4) s1(3) by (simp add: add.assoc)
qed simp

section \<open>The start of the server\<close>

lemma sum_start_lemma:
  assumes "0 < connection_socket" and "connection_socket < 1024" and "bind_ret \<noteq> - 1" and "listen_ret \<noteq> - 1"
  shows "\<exists>s. sum_server_start connection_socket bind_ret listen_ret = Inr s \<and> sum_inv s \<and>
    watched (monitor_fd_set s) = {0, connection_socket} \<and> sums_of s connection_socket = Some 0"
proof -
  let ?es = "[Connected 0, Connected connection_socket]"
  let ?m = "add_monitor_fd_set connection_socket (add_monitor_fd_set 0 init_monitor_fd_set)"
  have w: "watched ?m = {0, connection_socket}"
    using slots.history_exact [OF wf_init watched_init, of ?es] assms
    by (simp add: slots.event_def opened_def insert_commute)
  have wf: "wf_monitor ?m"
    using slots.history_sound [OF wf_init, of "{}" ?es] assms by (simp add: slots.event_def watched_init)
  let ?s = "\<lparr>monitor_fd_set = ?m, client_result = replicate 32 0\<rparr>"
  have "list_all (\<lambda>(fd, v). if fd = - 1 then v = 0 else True) (slots_of ?s)"
    by (auto simp: list_all_iff dest!: set_zip_rightD)
  then have inv: "sum_inv ?s" using wf w assms by (auto simp: sum_inv_def)
  have "sum_server_start connection_socket bind_ret listen_ret = Inr ?s"
    using assms by (simp add: sum_server_start_def Let_def)
  moreover have "connection_socket \<in> dom (sums_of ?s)" using sum_invE(7) [OF inv] w by simp
  then obtain v where v: "sums_of ?s connection_socket = Some v" by blast
  then have "(connection_socket, v) \<in> set (slots_of ?s)"
    by (auto simp: sums_of_def dest: map_of_SomeD)
  then have "v = 0" by (auto dest: set_zip_rightD)
  ultimately show ?thesis using inv w v by auto
qed

lemma slot_ok_single:
  assumes "sum_inv s" and "readable k = {fd}" and "sums_of s fd = Some v"
    and "received k fd \<noteq> None" and "writable k fd" and "fits 32 (v + summand k fd)"
  shows "list_all (slot_ok k) (slots_of s)"
  unfolding list_all_iff
proof
  fix p assume p: "p \<in> set (slots_of s)"
  obtain fd' v' where fdv: "p = (fd', v')" by force
  show "slot_ok k p"
  proof (cases "busy k fd'")
    case True
    then have "fd' = fd" "fd' \<noteq> - 1" using assms(2) by (simp_all add: busy_def)
    then have "sums_of s fd = Some v'"
      using p fdv sum_invE(6) [OF assms(1)] by (simp add: sums_of_def)
    then show ?thesis using assms \<open>fd' = fd\<close> by (simp add: fdv slot_ok_def)
  qed (simp add: fdv slot_ok_def)
qed

section \<open>The results\<close>

text \<open>C4: Every iteration of the server refines the abstract server that keeps one sum per watched
  descriptor: it keeps the invariant (no descriptor twice, free slots hold 0), changes the sums as the
  abstract step does, and sends their sums to exactly the clients that sent zero; a client accepted
  when the array is full is neither watched nor answered.\<close>

theorem sum_server_refines:
  assumes "sum_inv s" and "kernel_ok connection_socket k s"
  shows "\<exists>s' out. sum_server_step connection_socket k s = Inr (s', out) \<and> sum_inv s' \<and>
    sums_of s' = sum_spec connection_socket k (sums_of s) \<and>
    set out = reply_spec connection_socket k (sums_of s)"
  by (rule step_lemma [OF assms])

definition demo_connect :: kernel where
  "demo_connect = \<lparr>readable = {3}, accepted = 4, received = (\<lambda>_. None), writable = (\<lambda>_. True)\<rparr>"

definition demo_send :: kernel where
  "demo_send = \<lparr>readable = {4}, accepted = - 1, received = (\<lambda>_. Some [5, 1, 0, 0]), writable = (\<lambda>_. True)\<rparr>"

theorem sum_server_refines_witness:
  "\<exists>s s'. sum_server_start 3 0 0 = Inr s \<and> sum_server_step 3 demo_connect s = Inr (s', []) \<and>
     sums_of s' 4 = Some 0"
proof -
  obtain s where s: "sum_server_start 3 0 0 = Inr s" "sum_inv s" "watched (monitor_fd_set s) = {0, 3}"
    using sum_start_lemma [of 3 0 0] by auto
  then have "kernel_ok 3 demo_connect s" by (simp add: kernel_ok_def demo_connect_def)
  moreover have "card (dom (sums_of s)) = 2" using sum_invE(7) [OF s(2)] s(3) by simp
  ultimately show ?thesis
    using sum_server_refines [OF s(2), of 3 demo_connect] s(1)
    by (auto simp: sum_spec_def reply_spec_def demo_connect_def)
qed

text \<open>C10: Over every run from a sound state, whatever the other clients do, the sum of a client that has
  not sent zero is its sum at the start plus all it has sent since.\<close>

theorem sum_server_client_total:
  assumes "sum_inv s" and "run_ok connection_socket ks s" and "sums_of s fd = Some v"
    and "list_all (keeps_going connection_socket fd) ks"
  shows "\<exists>s' outs. sum_run connection_socket ks s = Inr (s', outs) \<and> sum_inv s' \<and>
    sums_of s' fd = Some (v + sum_list (map (contribution connection_socket fd) ks))"
  using run_lemma [OF assms(1,2)] client_sum_lemma [OF assms] by auto

theorem sum_server_client_total_witness:
  "\<exists>s s1 s2 outs. sum_server_start 3 0 0 = Inr s \<and> sum_server_step 3 demo_connect s = Inr (s1, []) \<and>
     sum_run 3 [demo_send] s1 = Inr (s2, outs) \<and> sums_of s2 4 = Some 261"
proof -
  obtain s where s: "sum_server_start 3 0 0 = Inr s" "sum_inv s" "watched (monitor_fd_set s) = {0, 3}"
    using sum_start_lemma [of 3 0 0] by auto
  then have "kernel_ok 3 demo_connect s" by (simp add: kernel_ok_def demo_connect_def)
  moreover have "card (dom (sums_of s)) = 2" using sum_invE(7) [OF s(2)] s(3) by simp
  ultimately obtain s1 where s1: "sum_server_step 3 demo_connect s = Inr (s1, [])" "sum_inv s1"
    "sums_of s1 4 = Some 0"
    using step_new_client [OF s(2), of 3 demo_connect]
    by (auto simp: sum_spec_def demo_connect_def)
  have sum: "summand demo_send 4 = 261"
    by (simp add: summand_def demo_send_def read_buffer_def le_int_def)
  then have "list_all (slot_ok demo_send) (slots_of s1)"
    using slot_ok_single [OF s1(2), of demo_send 4 0] s1(3) by (simp add: demo_send_def fits_32)
  then have "run_ok 3 [demo_send] s1"
    by (simp add: kernel_ok_def demo_send_def split: sum.split)
  moreover have "contribution 3 4 demo_send = 261" "keeps_going 3 4 demo_send"
    using sum by (simp_all add: contribution_def keeps_going_def demo_send_def)
  ultimately show ?thesis
    using sum_server_client_total [OF s1(2) _ s1(3), of 3 "[demo_send]"] s(1) s1(1) by auto
qed

text \<open>The server starts with the listening socket and standard input watched and every sum 0; a
  failed \<open>socket\<close>, \<open>bind\<close> or \<open>listen\<close> ends it.  Every sum of type \<open>int\<close> is sent as a terminated string
  that fits the buffer.\<close>

theorem sum_server_starts:
  assumes "0 < connection_socket" and "connection_socket < 1024" and "fits 32 v"
  shows "(if bind_ret = - 1 \<or> listen_ret = - 1
      then sum_server_start connection_socket bind_ret listen_ret = Inl Exit_failure
      else \<exists>s. sum_server_start connection_socket bind_ret listen_ret = Inr s \<and> sum_inv s \<and>
        watched (monitor_fd_set s) = {0, connection_socket})
    \<and> length (result_message v) = 128 \<and> c_str (result_message v) = ''Result = '' @ print_int v"
  using sum_start_lemma [OF assms(1,2), of bind_ret listen_ret] result_message_lemma [OF assms(3)] assms(1)
  by (auto simp: sum_server_start_def Let_def)

theorem sum_server_starts_witness:
  "sum_server_start 3 0 (- 1) = Inl Exit_failure \<and> c_str (result_message (- 42)) = ''Result = -42''"
  using sum_server_starts [of 3 "- 42" 0 "- 1"] by (simp add: fits_32 print_int_def print_nat.simps)

end
