(* ===== verification/Basic_Server.thy ===== *)
theory Basic_Server
  imports Int_Message
begin

text \<open>
  \<^verbatim>\<open>basic-server\<close>: a server that adds up the integers of one client after the other, and the client
  that reads integers from the console, sends them and prints the answer.  Both are functions of what
  their system calls return and, for the client, of the text typed.

  The two do not meet: they use different sockets, and the client connects to the one of
  \<^verbatim>\<open>multiplex/server.c\<close> (\<open>Sum_Session\<close>).

  The results: the server answers every client with its own sum; the client prints the answer it gets; a text that is not a number makes the client send the last number for ever.
\<close>

section \<open>The server\<close>

definition basic_server_socket :: string where
  "basic_server_socket = ''/tmp/FirstSocket''"

text \<open>The inner loop, for the results of \<open>read\<close> (\<open>None\<close> for \<open>-1\<close>); it leaves the results not used.\<close>

fun add_summands :: "int \<Rightarrow> byte list option list \<Rightarrow> c_error + int \<times> byte list option list" where
  "add_summands result [] = Inl Exhausted"
| "add_summands result (None # reads) = Inl Exit_failure"
| "add_summands result (Some bs # reads) =
    (let data = le_int (read_buffer (Some bs))
     in if data = 0 then Inr (result, reads)
        else rbind (checked 32 (result + data)) (\<lambda>result. add_summands result reads))"

text \<open>The outer loop, for the connections that arrive: what \<open>accept\<close>, the \<open>read\<close>s and \<open>write\<close> return.\<close>

fun basic_server_loop :: "(int \<times> byte list option list \<times> int) list \<Rightarrow> c_error + string list" where
  "basic_server_loop [] = Inr []"
| "basic_server_loop ((data_socket, reads, write_ret) # connections) =
    (if data_socket = - 1 then Inl Exit_failure
     else rbind (add_summands 0 reads) (\<lambda>(result, _).
       if write_ret = - 1 then Inl Exit_failure
       else rbind (basic_server_loop connections) (\<lambda>replies. Inr (result_message result # replies))))"

definition basic_server_main :: "int \<Rightarrow> int \<Rightarrow> int \<Rightarrow> (int \<times> byte list option list \<times> int) list
    \<Rightarrow> c_error + string list" where
  "basic_server_main connection_socket bind_ret listen_ret connections =
    (if connection_socket = - 1 then Inl Exit_failure
     else if bind_ret = - 1 then Inl Exit_failure
     else if listen_ret = - 1 then Inl Exit_failure
     else basic_server_loop connections)"

section \<open>The client\<close>

definition basic_client_socket :: string where
  "basic_client_socket = ''/tmp/DemoSocket''"

text \<open>
  The loop, for the variable \<open>i\<close> (\<open>None\<close> until it is stored), the text typed and the results of
  \<open>write\<close>; it returns the messages and the results not used.  A text without a number leaves \<open>i\<close>.
\<close>

fun send_numbers :: "int option \<Rightarrow> string \<Rightarrow> int list \<Rightarrow> c_error + byte list list \<times> int list" where
  "send_numbers i inp [] = Inl Exhausted"
| "send_numbers i inp (write_ret # writes) =
    (let (scanned, inp) = scan_int inp
     in rbind (case scanned of None \<Rightarrow> (case i of None \<Rightarrow> Inl Uninitialised | Some v \<Rightarrow> Inr v)
               | Some v \<Rightarrow> checked 32 v) (\<lambda>v.
        if write_ret = - 1 then Inr ([], writes)
        else if v = 0 then Inr ([int_bytes v], writes)
        else rbind (send_numbers (Some v) inp writes) (\<lambda>(sent, writes). Inr (int_bytes v # sent, writes))))"

text \<open>After the numbers, the client asks for the result with one more message, which the server has
  stopped reading for, and prints what it reads.\<close>

definition basic_client_main :: "int \<Rightarrow> int \<Rightarrow> string \<Rightarrow> int list \<Rightarrow> string option
    \<Rightarrow> c_error + byte list list \<times> string" where
  "basic_client_main data_socket connect_ret inp writes reply =
    (if data_socket = - 1 then Inl Exit_failure
     else if connect_ret = - 1 then Inl Exit_failure
     else rbind (send_numbers None inp writes) (\<lambda>(sent, writes).
       case writes of
         [] \<Rightarrow> Inl Exhausted
       | write_ret # _ \<Rightarrow>
           if write_ret = - 1 then Inl Exit_failure
           else
             (case reply of
                None \<Rightarrow> Inl Exit_failure
              | Some msg \<Rightarrow>
                  let buffer = (splice (replicate 128 NUL) 0 msg)[127 := NUL]
                  in Inr (sent @ [map byte_of_char ''RES''], ''Result = '' @ c_str buffer @ [newline]))))"

section \<open>Sums\<close>

text \<open>Numbers that the client can send and the server can add up from \<open>a\<close> on without overflow.\<close>

fun sums_fit :: "int \<Rightarrow> int list \<Rightarrow> bool" where
  "sums_fit a [] \<longleftrightarrow> True"
| "sums_fit a (v # vs) \<longleftrightarrow> v \<noteq> 0 \<and> fits 32 v \<and> fits 32 (a + v) \<and> sums_fit (a + v) vs"

definition messages_of :: "int list \<Rightarrow> byte list list" where
  "messages_of vs = map int_bytes (vs @ [0])"

definition typed :: "int list \<Rightarrow> string" where
  "typed vs = concat (map (\<lambda>v. print_int v @ [newline]) (vs @ [0]))"

lemma fits_0: "fits 32 0"
  by (simp add: fits_32)

lemma add_summands_lemma:
  "sums_fit a vs \<Longrightarrow> add_summands a (map Some (messages_of vs) @ rest) = Inr (a + sum_list vs, rest)"
proof (induction vs arbitrary: a)
  case Nil
  then show ?case by (simp add: messages_of_def read_int_bytes fits_0)
next
  case (Cons v vs)
  then show ?case by (simp add: messages_of_def read_int_bytes checked_def Let_def)
qed

lemma sums_fit_total: "fits 32 a \<Longrightarrow> sums_fit a vs \<Longrightarrow> fits 32 (a + sum_list vs)"
  by (induction vs arbitrary: a) (simp_all flip: add.assoc)

lemma scan_typed: "scan_int (print_int v @ newline # rest) = (Some v, newline # rest)"
  by (rule scan_print_int) (simp add: isdigit_def)

lemma scan_newline: "scan_int (newline # rest) = scan_int rest"
  by (rule scan_int_space) (simp add: isspace_def)

lemma send_numbers_typed:
  assumes "sums_fit a vs" and "length writes = length vs + 1" and "- 1 \<notin> set writes"
  shows "send_numbers i (typed vs) (writes @ rest) = Inr (messages_of vs, rest)
    \<and> send_numbers i (newline # typed vs) (writes @ rest) = Inr (messages_of vs, rest)"
  using assms
proof (induction vs arbitrary: a i writes)
  case Nil
  then obtain w where "writes = [w]" "w \<noteq> - 1" by (cases writes) auto
  then show ?case
    by (simp add: typed_def messages_of_def scan_typed scan_newline checked_def fits_0)
next
  case (Cons v vs)
  then obtain w ws where "writes = w # ws" "w \<noteq> - 1" "length ws = length vs + 1" "- 1 \<notin> set ws"
    by (cases writes) auto
  moreover have "typed (v # vs) = print_int v @ newline # typed vs" by (simp add: typed_def)
  moreover have "send_numbers (Some v) (newline # typed vs) (ws @ rest) = Inr (messages_of vs, rest)"
    using Cons.IH [of "a + v" ws "Some v"] Cons.prems(1) calculation by simp
  ultimately show ?case
    using Cons.prems(1) by (simp add: messages_of_def scan_typed scan_newline checked_def)
qed

lemma basic_server_loop_lemma:
  assumes "\<forall>(fd, vs, rest, write_ret) \<in> set clients. fd \<noteq> - 1 \<and> write_ret \<noteq> - 1 \<and> sums_fit 0 vs"
  shows "basic_server_loop (map (\<lambda>(fd, vs, rest, write_ret). (fd, map Some (messages_of vs) @ rest, write_ret)) clients)
    = Inr (map (\<lambda>(fd, vs, rest, write_ret). result_message (sum_list vs)) clients)"
  using assms
proof (induction clients)
  case (Cons c clients)
  obtain fd vs rest write_ret where c: "c = (fd, vs, rest, write_ret)" by (cases c)
  then have "add_summands 0 (map Some (messages_of vs) @ rest) = Inr (sum_list vs, rest)"
    using add_summands_lemma [of 0 vs rest] Cons.prems by simp
  then show ?case using Cons c by simp
qed simp

lemma reply_in_buffer:
  assumes "fits 32 v"
  shows "c_str ((splice (replicate 128 NUL) 0 (result_message v))[127 := NUL]) = ''Result = '' @ print_int v"
proof -
  note msg = result_message_lemma [OF assms]
  have "length (print_int v) \<le> 11" using length_print_int [of 10 v] assms by (simp add: fits_32)
  then have "result_message v ! 127 = NUL" by (simp add: result_message_def Let_def nth_append)
  then have "(result_message v)[127 := NUL] = result_message v" using msg(1) by (simp add: list_update_same_conv)
  moreover have "splice (replicate 128 NUL) 0 (result_message v) = result_message v" using msg(1) by (simp add: splice_def)
  ultimately show ?thesis using msg(2) by simp
qed

text \<open>The client with the answer it is sent.\<close>

lemma client_prints:
  assumes "sums_fit 0 vs" and "length writes = length vs + 2" and "- 1 \<notin> set writes"
  shows "basic_client_main 3 0 (typed vs) writes (Some (result_message (sum_list vs))) =
    Inr (messages_of vs @ [map byte_of_char ''RES''], ''Result = Result = '' @ print_int (sum_list vs) @ [newline])"
proof -
  obtain ws w where writes: "writes = ws @ [w]" "length ws = length vs + 1" "w \<noteq> - 1" "- 1 \<notin> set ws"
    using assms(2,3) by (cases writes rule: rev_cases) auto
  have "send_numbers None (typed vs) writes = Inr (messages_of vs, [w])"
    using send_numbers_typed [OF assms(1) writes(2,4)] writes(1) by simp
  moreover have "fits 32 (sum_list vs)" using sums_fit_total [OF fits_0 assms(1)] by simp
  ultimately show ?thesis using writes(3) by (simp add: basic_client_main_def reply_in_buffer Let_def)
qed

section \<open>The results\<close>

text \<open>C33: For any sequence of clients whose numbers can be added up without overflow, each number in a
  message of its own and a zero at the end, the server answers each client with the sum of its own
  numbers; what a client sends after its zero is never read, and no sum is carried over to the next
  client.  (The client in the same directory connects to another socket and is never one of these.)\<close>

theorem basic_server_sums:
  assumes "connection_socket \<noteq> - 1" and "bind_ret \<noteq> - 1" and "listen_ret \<noteq> - 1"
    and "\<forall>(fd, vs, rest, write_ret) \<in> set clients. fd \<noteq> - 1 \<and> write_ret \<noteq> - 1 \<and> sums_fit 0 vs"
  shows "basic_server_main connection_socket bind_ret listen_ret
      (map (\<lambda>(fd, vs, rest, write_ret). (fd, map Some (messages_of vs) @ rest, write_ret)) clients)
    = Inr (map (\<lambda>(fd, vs, rest, write_ret). result_message (sum_list vs)) clients)"
  using assms basic_server_loop_lemma [OF assms(4)] by (simp add: basic_server_main_def)

theorem basic_server_sums_witness:
  "basic_server_main 3 0 0 [(4, map Some (messages_of [2, - 5]) @ [Some (int_bytes 9)], 128), (5, map Some (messages_of [7]), 128)]
    = Inr [result_message (- 3), result_message 7]"
  using basic_server_sums [of 3 0 0 "[(4, [2, - 5], [Some (int_bytes 9)], 128), (5, [7], [], 128)]"] by (simp add: fits_32)

text \<open>A text that does not start with a number is never read: once a number has been sent, the client
  sends it again and again and does not end, however many of its messages go through.\<close>

theorem basic_client_never_ends:
  assumes "scan_int inp = (None, inp)" and "fits 32 v" and "v \<noteq> 0" and "- 1 \<notin> set writes"
  shows "send_numbers (Some v) inp writes = Inl Exhausted"
  using assms(4) by (induction writes) (simp_all add: assms(1-3))

theorem basic_client_never_ends_witness:
  "send_numbers None (''5 five'') (4 # replicate 1000 4) = Inl Exhausted"
proof -
  have "send_numbers (Some 5) ''five'' (replicate 1000 4) = Inl Exhausted"
    by (rule basic_client_never_ends) (simp_all add: scan_int_def isspace_def isdigit_def fits_32)
  moreover have "scan_int ''5 five'' = (Some 5, '' five'')"
    by (simp add: scan_int_def isspace_def isdigit_def nat_of_digits_def digit_value_def)
  moreover have "send_numbers (Some 5) '' five'' ws = send_numbers (Some 5) ''five'' ws" for ws
    by (cases ws) (simp_all add: scan_int_space isspace_def)
  ultimately show ?thesis by (simp add: checked_def fits_32)
qed

end
