(* ===== verification/Server_Loop.thy ===== *)
theory Server_Loop
  imports C_Prelude
begin

text \<open>
  The endless loop of a server: an iteration is a function \<open>step\<close>
  of the answers of the kernel, and \<open>server_run\<close> relates the state before a finite number of iterations
  to the state after them and to what was sent.

  The locale \<open>server\<close> is the contract of the iterations with their loop: an invariant that the start
  establishes and every iteration keeps, and a promise on every message sent.  Its facts hold for the
  servers of \<^verbatim>\<open>http-setup\<close>, \<^verbatim>\<open>system-info\<close> and \<^verbatim>\<open>multiplex-routinginfo\<close> by the interpretations in their
  theories.
\<close>

inductive server_run :: "('k \<Rightarrow> 's \<Rightarrow> c_error + 's \<times> 'm list) \<Rightarrow> ('k \<Rightarrow> 's \<Rightarrow> bool) \<Rightarrow> 's \<Rightarrow> 'm list \<Rightarrow> 's \<Rightarrow> bool"
  for step :: "'k \<Rightarrow> 's \<Rightarrow> c_error + 's \<times> 'm list" and legal :: "'k \<Rightarrow> 's \<Rightarrow> bool" where
  idle: "server_run step legal s [] s"
| iteration: "server_run step legal s out s' \<Longrightarrow> legal k s' \<Longrightarrow> step k s' = Inr (s'', out')
    \<Longrightarrow> server_run step legal s (out @ out') s''"

lemma server_run_one:
  "legal k s \<Longrightarrow> step k s = Inr (s', out) \<Longrightarrow> server_run step legal s out s'"
  by (rule server_run.iteration [OF server_run.idle, where out' = out, unfolded append_Nil])

lemma server_run_trans:
  assumes "server_run step legal s' out' s''" and "server_run step legal s out s'"
  shows "server_run step legal s (out @ out') s''"
  using assms
proof (induction rule: server_run.induct)
  case (iteration s' out' t k t' out'')
  then show ?case using server_run.iteration [of step legal s "out @ out'" t k t' out''] by simp
qed simp

text \<open>What a list of messages holds for one receiver.\<close>

abbreviation sent_to :: "'f \<Rightarrow> ('f \<times> 'm) list \<Rightarrow> 'm list" where
  "sent_to fd out \<equiv> map snd (filter (\<lambda>m. fst m = fd) out)"

text \<open>The same run with the answers of the kernel as a list, one for each iteration, and with what each
  iteration has sent.\<close>

fun run_steps :: "('k \<Rightarrow> 's \<Rightarrow> c_error + 's \<times> 'm list) \<Rightarrow> 'k list \<Rightarrow> 's \<Rightarrow> c_error + 's \<times> 'm list list" where
  "run_steps step [] s = Inr (s, [])"
| "run_steps step (k # ks) s =
    rbind (step k s) (\<lambda>(s, out). rbind (run_steps step ks s) (\<lambda>(s, outs). Inr (s, out # outs)))"

fun legal_steps :: "('k \<Rightarrow> 's \<Rightarrow> c_error + 's \<times> 'm list) \<Rightarrow> ('k \<Rightarrow> 's \<Rightarrow> bool) \<Rightarrow> 'k list \<Rightarrow> 's \<Rightarrow> bool" where
  "legal_steps step legal [] s \<longleftrightarrow> True"
| "legal_steps step legal (k # ks) s \<longleftrightarrow> legal k s \<and>
    (case step k s of Inl e \<Rightarrow> True | Inr (s', out) \<Rightarrow> legal_steps step legal ks s')"

lemma run_steps_Cons:
  "run_steps step (k # ks) s = Inr (s'', outs) \<longleftrightarrow>
    (\<exists>s' out outs'. step k s = Inr (s', out) \<and> run_steps step ks s' = Inr (s'', outs') \<and> outs = out # outs')"
  by (auto simp: rbind_eq_Inr)

lemma run_steps_is_run:
  "run_steps step ks s = Inr (s', outs) \<Longrightarrow> legal_steps step legal ks s \<Longrightarrow> server_run step legal s (concat outs) s'"
proof (induction ks arbitrary: s outs)
  case Nil
  then show ?case by (simp add: server_run.idle)
next
  case (Cons k ks)
  then obtain s1 out outs' where first: "step k s = Inr (s1, out)" and "run_steps step ks s1 = Inr (s', outs')"
    and outs: "outs = out # outs'"
    unfolding run_steps_Cons by blast
  then have "server_run step legal s1 (concat outs') s'" using Cons by simp
  moreover have "server_run step legal s out s1" using Cons.prems(2) first by (intro server_run_one) simp_all
  ultimately show ?case unfolding outs concat.simps by (rule server_run_trans)
qed

locale server =
  fixes start :: "'s \<Rightarrow> bool"
    and step :: "'k \<Rightarrow> 's \<Rightarrow> c_error + 's \<times> 'm list"
    and legal :: "'k \<Rightarrow> 's \<Rightarrow> bool"
    and inv :: "'s \<Rightarrow> bool"
    and safe :: "'m \<Rightarrow> bool"
  assumes inv_start: "start s \<Longrightarrow> inv s"
    and inv_step: "inv s \<Longrightarrow> legal k s \<Longrightarrow> step k s = Inr (s', out) \<Longrightarrow> inv s'"
    and safe_step: "inv s \<Longrightarrow> legal k s \<Longrightarrow> step k s = Inr (s', out) \<Longrightarrow> list_all safe out"
begin

lemma run_keeps:
  assumes "server_run step legal s out s'" and "inv s"
  shows "inv s' \<and> list_all safe out"
  using assms
proof (induction rule: server_run.induct)
  case (iteration s out s' k s'' out')
  then show ?case using inv_step [of s' k s'' out'] safe_step [of s' k s'' out'] by simp
qed simp

lemma run_safe: "start s \<Longrightarrow> server_run step legal s out s' \<Longrightarrow> inv s' \<and> list_all safe out"
  using run_keeps inv_start by blast

text \<open>A relation between the states before and after and what was sent in between, that every iteration
  satisfies and that can be composed, holds across a run.\<close>

lemma run_history:
  assumes run: "server_run step legal s out s'" and start: "inv s"
    and refl: "\<And>t. R t [] t" and trans: "\<And>t u v out out'. R t out u \<Longrightarrow> R u out' v \<Longrightarrow> R t (out @ out') v"
    and one: "\<And>t k u out. inv t \<Longrightarrow> legal k t \<Longrightarrow> step k t = Inr (u, out) \<Longrightarrow> R t out u"
  shows "R s out s'"
  using run start
proof (induction rule: server_run.induct)
  case (iteration s out s' k s'' out')
  then have "inv s'" using run_keeps by blast
  then show ?case using iteration one [of s' k s'' out'] trans by blast
qed (rule refl)

lemma run_relation:
  assumes "server_run step legal s out s'" and "inv s"
    and "\<And>t. R t t" and "\<And>t u v. R t u \<Longrightarrow> R u v \<Longrightarrow> R t v"
    and "\<And>t k u out. inv t \<Longrightarrow> legal k t \<Longrightarrow> step k t = Inr (u, out) \<Longrightarrow> R t u"
  shows "R s s'"
  by (rule run_history [OF assms(1,2), of "\<lambda>s out s'. R s s'"]) (use assms(3-5) in blast)+

end

end
