(* ===== verification/Sum_Session.thy ===== *)
theory Sum_Session
  imports Sum_Server Basic_Server Server_Loop
begin

text \<open>
  The client \<^verbatim>\<open>basic-server/client.c\<close> connects to the socket of \<^verbatim>\<open>multiplex/server.c\<close>, so these two programs
  run together.  The result: whatever other clients do in between, the client is sent one message, the
  sum of the numbers its user typed, and prints it.
\<close>

definition sum_server_socket :: string where
  "sum_server_socket = ''/tmp/DemoSocket''"

lemma sockets: "basic_client_socket = sum_server_socket \<and> basic_client_socket \<noteq> basic_server_socket"
  by (simp add: basic_client_socket_def basic_server_socket_def sum_server_socket_def)

section \<open>What a client is sent\<close>

lemma replies_distinct:
  assumes "distinct (map fst (filter used_slot xs))"
  shows "distinct (map fst (concat (map (slot_reply k) xs)))"
  using assms
proof (induction xs)
  case (Cons p xs)
  let ?out = "concat (map (slot_reply k) xs)"
  have sub: "fst ` set ?out \<subseteq> fst ` set (filter used_slot xs)"
    by (force simp: slot_reply_def busy_def split: if_splits)
  have "distinct (map fst (filter used_slot xs))" using Cons.prems by (simp split: if_splits)
  then have IH: "distinct (map fst ?out)" by (rule Cons.IH)
  have "slot_reply k p = [] \<or> fst p \<noteq> - 1 \<and> slot_reply k p = [(fst p, result_message (snd p))]"
    by (simp add: slot_reply_def busy_def case_prod_unfold)
  then show ?case
  proof (elim disjE conjE)
    assume 2: "fst p \<noteq> - 1" "slot_reply k p = [(fst p, result_message (snd p))]"
    then have "fst p \<notin> fst ` set ?out" using sub Cons.prems by auto
    then show ?thesis using IH 2(2) by simp
  qed (use IH in simp)
qed simp

lemma step_replies_distinct:
  assumes inv: "sum_inv s" and ok: "kernel_ok connection_socket k s"
    and step: "sum_server_step connection_socket k s = Inr (s', out)"
  shows "distinct (map fst out)"
proof (cases "connection_socket \<in> readable k \<or> 0 \<in> readable k")
  case True
  then have "out = []" using step by (auto simp: sum_server_step_def rbind_eq_Inr split: if_splits)
  then show ?thesis by simp
next
  case False
  note facts = sum_invE [OF inv]
  have "list_all (slot_ok k) (slots_of s)" using ok False by (simp add: kernel_ok_def)
  from serve_slots [OF facts(1,2) this, of 32]
  have "out = concat (map (slot_reply k) (slots_of s))"
    using step False facts(4,5) by (auto simp: sum_server_step_def)
  then show ?thesis using replies_distinct [OF facts(6)] by simp
qed

text \<open>The messages of a run for one client, and the iterations that read from it.\<close>

definition served :: "int \<Rightarrow> int \<Rightarrow> kernel \<Rightarrow> bool" where
  "served connection_socket fd k \<longleftrightarrow> connection_socket \<notin> readable k \<and> 0 \<notin> readable k \<and> fd \<in> readable k"

definition deliveries :: "int \<Rightarrow> int \<Rightarrow> kernel list \<Rightarrow> byte list option list" where
  "deliveries connection_socket fd ks = map (\<lambda>k. received k fd) (filter (served connection_socket fd) ks)"

lemma sent_to_single:
  assumes "distinct (map fst out)" and "(fd, msg) \<in> set out"
  shows "sent_to fd out = [msg]"
  using assms by (induction out) (auto simp: filter_empty_conv rev_image_eqI)

lemma sent_to_none: "fd \<notin> fst ` set out \<Longrightarrow> sent_to fd out = []"
  by (auto simp: filter_empty_conv rev_image_eqI)

text \<open>One iteration, from the side of a client with the sum \<open>v\<close>.\<close>

lemma client_step:
  assumes inv: "sum_inv s" and ok: "kernel_ok connection_socket k s" and v: "sums_of s fd = Some v"
  obtains s' out where "sum_server_step connection_socket k s = Inr (s', out)" and "sum_inv s'"
    and "\<not> served connection_socket fd k \<Longrightarrow> sums_of s' fd = Some v \<and> sent_to fd out = []"
    and "served connection_socket fd k \<Longrightarrow> summand k fd \<noteq> 0 \<Longrightarrow> sums_of s' fd = Some (v + summand k fd) \<and> sent_to fd out = []"
    and "served connection_socket fd k \<Longrightarrow> summand k fd = 0 \<Longrightarrow> sent_to fd out = [result_message v]"
proof -
  obtain s' out where s': "sum_server_step connection_socket k s = Inr (s', out)" "sum_inv s'"
    "sums_of s' = sum_spec connection_socket k (sums_of s)" "set out = reply_spec connection_socket k (sums_of s)"
    using step_lemma [OF inv ok] by blast
  have "fd \<in> watched (monitor_fd_set s)" using v sum_invE(7) [OF inv] by blast
  then have "connection_socket \<in> readable k \<Longrightarrow> accepted k \<noteq> fd" using ok by (auto simp: kernel_ok_def)
  then have rest: "\<not> served connection_socket fd k \<Longrightarrow> sums_of s' fd = Some v"
    "served connection_socket fd k \<Longrightarrow> summand k fd \<noteq> 0 \<Longrightarrow> sums_of s' fd = Some (v + summand k fd)"
    using v by (auto simp: s'(3) sum_spec_def served_def)
  have quiet: "\<not> (served connection_socket fd k \<and> summand k fd = 0) \<Longrightarrow> sent_to fd out = []"
    by (rule sent_to_none) (auto simp: s'(4) reply_spec_def served_def split: if_splits)
  have answer: "served connection_socket fd k \<Longrightarrow> summand k fd = 0 \<Longrightarrow> sent_to fd out = [result_message v]"
    by (rule sent_to_single [OF step_replies_distinct [OF inv ok s'(1)]])
      (use v in \<open>auto simp: s'(4) reply_spec_def served_def\<close>)
  show thesis using that [OF s'(1,2)] rest quiet answer by blast
qed

text \<open>A client that is not read from is sent nothing.\<close>

lemma client_idle:
  assumes "sum_inv s" and "run_ok connection_socket ks s" and "deliveries connection_socket fd ks = []"
  shows "\<exists>s' outs. sum_run connection_socket ks s = Inr (s', outs) \<and> sent_to fd outs = []"
  using assms
proof (induction ks arbitrary: s)
  case (Cons k ks)
  then obtain s1 out where s1: "sum_server_step connection_socket k s = Inr (s1, out)" "sum_inv s1"
    "set out = reply_spec connection_socket k (sums_of s)"
    using step_lemma by (metis run_ok.simps(2))
  have idle: "\<not> served connection_socket fd k" "deliveries connection_socket fd ks = []"
    using Cons.prems(3) by (auto simp: deliveries_def split: if_splits)
  then have "sent_to fd out = []"
    by (intro sent_to_none) (auto simp: s1(3) reply_spec_def served_def split: if_splits)
  moreover have "run_ok connection_socket ks s1" using Cons.prems(2) s1(1) by simp
  ultimately show ?case using Cons.IH [OF s1(2) _ idle(2)] s1(1) by auto
qed simp

lemma select_client_session:
  assumes "sum_inv s" and "run_ok connection_socket ks s" and "sums_of s fd = Some v"
    and "sums_fit v vs" and "deliveries connection_socket fd ks = map Some (messages_of vs)"
  shows "\<exists>s' outs. sum_run connection_socket ks s = Inr (s', outs)
    \<and> sent_to fd outs = [result_message (v + sum_list vs)]"
  using assms
proof (induction ks arbitrary: s v vs)
  case Nil
  then show ?case by (simp add: deliveries_def messages_of_def)
next
  case (Cons k ks)
  have ok: "kernel_ok connection_socket k s" using Cons.prems(2) by simp
  obtain s1 out where s1: "sum_server_step connection_socket k s = Inr (s1, out)" "sum_inv s1"
    and idle: "\<not> served connection_socket fd k \<Longrightarrow> sums_of s1 fd = Some v \<and> sent_to fd out = []"
    and add: "served connection_socket fd k \<Longrightarrow> summand k fd \<noteq> 0 \<Longrightarrow> sums_of s1 fd = Some (v + summand k fd) \<and> sent_to fd out = []"
    and answer: "served connection_socket fd k \<Longrightarrow> summand k fd = 0 \<Longrightarrow> sent_to fd out = [result_message v]"
    using client_step [OF Cons.prems(1) ok Cons.prems(3)] by metis
  have run: "run_ok connection_socket ks s1" using Cons.prems(2) s1(1) by simp
  show ?case
  proof (cases "served connection_socket fd k")
    case False
    then have "deliveries connection_socket fd ks = map Some (messages_of vs)"
      using Cons.prems(5) by (simp add: deliveries_def)
    then show ?thesis
      using Cons.IH [OF s1(2) run] idle [OF False] Cons.prems(4) s1(1) by fastforce
  next
    case True
    then have here: "received k fd = Some (hd (messages_of vs))"
      and later: "deliveries connection_socket fd ks = map Some (tl (messages_of vs))"
      using Cons.prems(5) by (cases vs; simp add: deliveries_def messages_of_def)+
    show ?thesis
    proof (cases vs)
      case Nil
      then have "summand k fd = 0" using here by (simp add: summand_def messages_of_def read_int_bytes fits_0)
      moreover have "deliveries connection_socket fd ks = []" using later Nil by (simp add: messages_of_def)
      ultimately show ?thesis
        using client_idle [OF s1(2) run] answer [OF True] Nil s1(1) by fastforce
    next
      case (Cons u us)
      then have u: "summand k fd = u" "u \<noteq> 0" "sums_fit (v + u) us"
        using here Cons.prems(4) by (simp_all add: summand_def messages_of_def read_int_bytes)
      have "deliveries connection_socket fd ks = map Some (messages_of us)"
        using later Cons by (simp add: messages_of_def)
      then have "\<exists>s' outs. sum_run connection_socket ks s1 = Inr (s', outs)
          \<and> sent_to fd outs = [result_message ((v + u) + sum_list us)]"
        using Cons.IH [OF s1(2) run] add [OF True] u by simp
      then show ?thesis using add [OF True] u s1(1) Cons by (auto simp: add.assoc)
    qed
  qed
qed

section \<open>The result\<close>

text \<open>C19: The client of \<^verbatim>\<open>basic-server\<close> with the server of \<^verbatim>\<open>multiplex\<close>: from the moment it is connected, when
  the user types numbers that can be added up and then 0, each message is delivered by one \<open>read\<close> and no
  call fails, the server sends it exactly one message, whatever other clients connect, send and leave
  in between, and the client prints the sum of its own numbers.\<close>

theorem client_with_select_server:
  assumes "sums_fit 0 vs" and "length writes = length vs + 2" and "- 1 \<notin> set writes"
    and "sum_inv s" and "run_ok connection_socket ks s" and "sums_of s fd = Some 0"
    and "deliveries connection_socket fd ks = map Some (messages_of vs)"
  shows "\<exists>s' outs reply. sum_run connection_socket ks s = Inr (s', outs) \<and> sent_to fd outs = [reply]
    \<and> basic_client_main 3 0 (typed vs) writes (Some reply) =
        Inr (messages_of vs @ [map byte_of_char ''RES''], ''Result = Result = '' @ print_int (sum_list vs) @ [newline])"
proof -
  obtain s' outs where "sum_run connection_socket ks s = Inr (s', outs)" "sent_to fd outs = [result_message (sum_list vs)]"
    using select_client_session [OF assms(4-6,1,7)] by auto
  moreover have "basic_client_main 3 0 (typed vs) writes (Some (result_message (sum_list vs))) =
      Inr (messages_of vs @ [map byte_of_char ''RES''], ''Result = Result = '' @ print_int (sum_list vs) @ [newline])"
    by (rule client_prints [OF assms(1-3)])
  ultimately show ?thesis
    by (intro exI [of _ s'] exI [of _ outs] exI [of _ "result_message (sum_list vs)"] conjI)
qed

definition demo_numbers :: "int \<Rightarrow> kernel" where
  "demo_numbers v = \<lparr>readable = {4}, accepted = - 1, received = (\<lambda>_. Some (int_bytes v)), writable = (\<lambda>_. True)\<rparr>"

lemma demo_numbers_ok:
  assumes "sum_inv s" and "sums_of s 4 = Some w" and "fits 32 v" and "fits 32 (w + v)"
  shows "kernel_ok 3 (demo_numbers v) s" and "summand (demo_numbers v) 4 = v" and "served 3 4 (demo_numbers v)"
proof -
  show sum: "summand (demo_numbers v) 4 = v" using assms(3) by (simp add: summand_def demo_numbers_def read_int_bytes)
  show "served 3 4 (demo_numbers v)" by (simp add: served_def demo_numbers_def)
  have "list_all (slot_ok (demo_numbers v)) (slots_of s)"
    by (rule slot_ok_single [OF assms(1), of _ 4 w]) (use assms sum in \<open>simp_all add: demo_numbers_def\<close>)
  then show "kernel_ok 3 (demo_numbers v) s" by (simp add: kernel_ok_def demo_numbers_def)
qed

theorem client_with_select_server_witness:
  "\<exists>s s1 s' outs reply. sum_server_start 3 0 0 = Inr s \<and> sum_server_step 3 demo_connect s = Inr (s1, [])
    \<and> sum_run 3 [demo_numbers 5, demo_numbers 0] s1 = Inr (s', outs) \<and> sent_to 4 outs = [reply]
    \<and> basic_client_main 3 0 (typed [5]) [4, 4, 3] (Some reply) =
        Inr (messages_of [5] @ [map byte_of_char ''RES''], ''Result = Result = 5'' @ [newline])"
proof -
  obtain s where s: "sum_server_start 3 0 0 = Inr s" "sum_inv s" "watched (monitor_fd_set s) = {0, 3}"
    using sum_start_lemma [of 3 0 0] by auto
  then have "kernel_ok 3 demo_connect s" by (simp add: kernel_ok_def demo_connect_def)
  moreover have "card (dom (sums_of s)) = 2" using sum_invE(7) [OF s(2)] s(3) by simp
  ultimately obtain s1 where s1: "sum_server_step 3 demo_connect s = Inr (s1, [])" "sum_inv s1" "sums_of s1 4 = Some 0"
    using step_new_client [OF s(2), of 3 demo_connect] by (auto simp: sum_spec_def demo_connect_def)
  note five = demo_numbers_ok [OF s1(2,3), of 5]
  have "fits 32 5" "fits 32 (0 + 5)" by (simp_all add: fits_32)
  note five = five [OF this]
  obtain s2 out where s2: "sum_server_step 3 (demo_numbers 5) s1 = Inr (s2, out)" "sum_inv s2"
    and "sums_of s2 4 = Some (0 + summand (demo_numbers 5) 4)"
    using client_step [OF s1(2) five(1) s1(3)] five(2,3) by (metis zero_neq_numeral)
  then have s2: "sum_server_step 3 (demo_numbers 5) s1 = Inr (s2, out)" "sum_inv s2" "sums_of s2 4 = Some 5"
    using five(2) by simp_all
  note zero = demo_numbers_ok [OF s2(2,3), of 0]
  have run: "run_ok 3 [demo_numbers 5, demo_numbers 0] s1"
    using five(1) zero(1) s2(1) by (simp add: fits_32 split: sum.split)
  have "deliveries 3 4 [demo_numbers 5, demo_numbers 0] = map Some (messages_of [5])"
    by (simp add: deliveries_def served_def demo_numbers_def messages_of_def)
  moreover have "sums_fit 0 [5]" by (simp add: fits_32)
  moreover have "print_int 5 = ''5''" by (simp add: print_int_def print_nat.simps)
  ultimately show ?thesis
    using client_with_select_server [of "[5]" "[4, 4, 3]", OF _ _ _ s1(2) run s1(3)] s(1) s1(1) by force
qed

end
