(* ===== verification/Routing_Table.thy ===== *)
theory Routing_Table
  imports C_String
begin

text \<open>
  \<^verbatim>\<open>multiplex-routinginfo/routing_table.c\<close>: an array of ten route entries with a size.

  An entry holds the strings of its four character arrays (what follows the terminating zero is never
  read); \<open>wf_entry\<close> says that they fit the arrays.  The abstract view of a table is the list \<open>routes\<close>
  of the entries in use, on which addition appends, update replaces the first match and deletion
  moves the last entry into the place of the first match.
\<close>

section \<open>The code\<close>

record RouteEntry =
  destination :: string
  mask :: string
  gateway :: string
  oif :: string

record routing =
  routing_table :: "RouteEntry list"
  table_size :: nat
  table_change_flag :: int

definition empty_entry :: RouteEntry where
  "empty_entry = \<lparr>destination = [], mask = [], gateway = [], oif = []\<rparr>"

text \<open>The static initialisation of the three variables.\<close>

definition routing_globals :: routing where
  "routing_globals = \<lparr>routing_table = replicate 10 empty_entry, table_size = 0, table_change_flag = 0\<rparr>"

definition init_routing_table :: "routing \<Rightarrow> routing" where
  "init_routing_table s = s\<lparr>table_size := 0, table_change_flag := 0\<rparr>"

definition add_route :: "RouteEntry \<Rightarrow> routing \<Rightarrow> routing \<times> int" where
  "add_route new_entry s =
    (if table_size s < 10
     then (s\<lparr>routing_table := (routing_table s)[table_size s := new_entry],
             table_size := table_size s + 1\<rparr>, 1)
     else (s, 0))"

text \<open>The first index below \<open>table_size\<close> at which \<open>strcmp\<close> finds the destination.\<close>

definition matching_index :: "string \<Rightarrow> routing \<Rightarrow> nat option" where
  "matching_index dest s =
    List.find (\<lambda>i. destination (routing_table s ! i) = dest) [0..<table_size s]"

definition update_route :: "string \<Rightarrow> RouteEntry \<Rightarrow> routing \<Rightarrow> routing \<times> int" where
  "update_route dest updated_entry s =
    (case matching_index dest s of
       None \<Rightarrow> (s, 0)
     | Some i \<Rightarrow> (s\<lparr>routing_table := (routing_table s)[i := updated_entry]\<rparr>, 1))"

definition delete_route :: "string \<Rightarrow> routing \<Rightarrow> routing \<times> int" where
  "delete_route dest s =
    (case matching_index dest s of
       None \<Rightarrow> (s, 0)
     | Some i \<Rightarrow>
         (s\<lparr>routing_table := (routing_table s)[i := routing_table s ! (table_size s - 1)],
            table_size := table_size s - 1\<rparr>, 1))"

definition route_line :: "RouteEntry \<Rightarrow> string" where
  "route_line e = ''Destination: '' @ destination e @ '', Mask: '' @ mask e
     @ '', Gateway: '' @ gateway e @ '', OIF: '' @ oif e @ [newline]"

definition print_routing_table :: "routing \<Rightarrow> string" where
  "print_routing_table s =
    for_to 0 (table_size s) (\<lambda>i out. out @ route_line (routing_table s ! i)) []"

definition get_routing_table_size :: "routing \<Rightarrow> nat" where
  "get_routing_table_size s = table_size s"

definition check_table_change :: "routing \<Rightarrow> int" where
  "check_table_change s = table_change_flag s"

definition reset_table_changed :: "routing \<Rightarrow> routing" where
  "reset_table_changed s = s\<lparr>table_change_flag := 0\<rparr>"

section \<open>Invariant and abstract view\<close>

definition wf_entry :: "RouteEntry \<Rightarrow> bool" where
  "wf_entry e \<longleftrightarrow> length (destination e) \<le> 15 \<and> length (mask e) \<le> 15 \<and> length (gateway e) \<le> 15 \<and>
     length (oif e) \<le> 9 \<and> NUL \<notin> set (destination e @ mask e @ gateway e @ oif e)"

definition wf_routing :: "routing \<Rightarrow> bool" where
  "wf_routing s \<longleftrightarrow> length (routing_table s) = 10 \<and> table_size s \<le> 10 \<and> list_all wf_entry (routing_table s)"

definition routes :: "routing \<Rightarrow> RouteEntry list" where
  "routes s = take (table_size s) (routing_table s)"

lemma length_routes: "wf_routing s \<Longrightarrow> length (routes s) = table_size s"
  by (simp add: routes_def wf_routing_def)

lemma wf_init_routing [simp]: "wf_routing (init_routing_table routing_globals)"
  by (simp add: wf_routing_def init_routing_table_def routing_globals_def empty_entry_def wf_entry_def
      list_all_iff)

lemma routes_init [simp]: "routes (init_routing_table s) = []"
  by (simp add: routes_def init_routing_table_def)

lemma list_all_update: "list_all P xs \<Longrightarrow> P x \<Longrightarrow> list_all P (xs[i := x])"
  by (auto simp: list_all_iff dest!: set_update_subset_insert [THEN subsetD])

lemma add_route_room:
  assumes "wf_routing s" and "length (routes s) < 10"
  shows "routes (fst (add_route e s)) = routes s @ [e]" and "snd (add_route e s) = 1"
  using assms length_routes [OF assms(1)]
  by (simp_all add: add_route_def routes_def wf_routing_def take_Suc_conv_app_nth)

lemma add_route_full:
  assumes "wf_routing s" and "\<not> length (routes s) < 10"
  shows "add_route e s = (s, 0)"
  using assms length_routes [OF assms(1)] by (simp add: add_route_def)

lemma wf_add_route: "wf_routing s \<Longrightarrow> wf_entry e \<Longrightarrow> wf_routing (fst (add_route e s))"
  by (auto simp: wf_routing_def add_route_def intro: list_all_update)

text \<open>The search in terms of the abstract list.\<close>

lemma matching_index_None:
  assumes "wf_routing s"
  shows "matching_index dest s = None \<longleftrightarrow> dest \<notin> destination ` set (routes s)"
  using assms by (force simp: matching_index_def find_None_iff routes_def wf_routing_def in_set_conv_nth)

lemma matching_index_Some:
  assumes "wf_routing s" and "matching_index dest s = Some i"
  shows "i < table_size s" and "destination (routing_table s ! i) = dest"
    and "routes s = take i (routing_table s) @ routing_table s ! i # drop (Suc i) (routes s)"
    and "dest \<notin> destination ` set (take i (routing_table s))"
proof -
  have i: "i < table_size s \<and> destination (routing_table s ! i) = dest \<and>
      (\<forall>j < i. destination (routing_table s ! j) \<noteq> dest)"
    using assms(2) by (auto simp: matching_index_def find_Some_iff)
  then show "i < table_size s" "destination (routing_table s ! i) = dest" by simp_all
  have len: "i < length (routes s)" "length (routing_table s) = 10" "table_size s \<le> 10"
    using i assms(1) by (simp_all add: length_routes) (simp_all add: wf_routing_def)
  have "routes s = take i (routes s) @ routes s ! i # drop (Suc i) (routes s)"
    using len(1) by (rule id_take_nth_drop)
  then show "routes s = take i (routing_table s) @ routing_table s ! i # drop (Suc i) (routes s)"
    using i by (simp add: routes_def min_def)
  show "dest \<notin> destination ` set (take i (routing_table s))"
    using i len by (fastforce simp: in_set_conv_nth)
qed

definition first_match :: "string \<Rightarrow> RouteEntry list \<Rightarrow> RouteEntry list \<Rightarrow> RouteEntry \<Rightarrow> RouteEntry list \<Rightarrow> bool" where
  "first_match dest rs xs e ys \<longleftrightarrow>
    rs = xs @ e # ys \<and> destination e = dest \<and> dest \<notin> destination ` set xs"

lemma update_route_lemma:
  assumes "wf_routing s" and "wf_entry e'"
  shows "if dest \<in> destination ` set (routes s)
    then \<exists>xs e ys s'. first_match dest (routes s) xs e ys \<and>
      update_route dest e' s = (s', 1) \<and> routes s' = xs @ e' # ys \<and> wf_routing s'
    else update_route dest e' s = (s, 0)"
proof (cases "matching_index dest s")
  case None
  then have "dest \<notin> destination ` set (routes s)" using matching_index_None [OF assms(1)] by simp
  then show ?thesis using None by (simp add: update_route_def)
next
  case (Some i)
  note idx = matching_index_Some [OF assms(1) Some]
  let ?s = "s\<lparr>routing_table := (routing_table s)[i := e']\<rparr>"
  have "routes ?s = (routes s)[i := e']" by (simp add: routes_def take_update_swap)
  also have "\<dots> = (take i (routing_table s) @ routing_table s ! i # drop (Suc i) (routes s))[i := e']"
    using idx(3) by simp
  also have "\<dots> = take i (routing_table s) @ e' # drop (Suc i) (routes s)"
    using assms(1) idx(1) by (simp add: list_update_append wf_routing_def)
  finally have "routes ?s = take i (routing_table s) @ e' # drop (Suc i) (routes s)" .
  moreover have "wf_routing ?s" using assms by (auto simp: wf_routing_def intro: list_all_update)
  ultimately show ?thesis
    using idx Some matching_index_None [OF assms(1), of dest]
    by (auto simp: update_route_def first_match_def intro!: exI)
qed

lemma delete_route_lemma:
  assumes "wf_routing s"
  shows "if dest \<in> destination ` set (routes s)
    then \<exists>xs e ys s'. first_match dest (routes s) xs e ys \<and>
      delete_route dest s = (s', 1) \<and> wf_routing s' \<and>
      routes s' = (if ys = [] then xs else xs @ last ys # butlast ys)
    else delete_route dest s = (s, 0)"
proof (cases "matching_index dest s")
  case None
  then have "dest \<notin> destination ` set (routes s)" using matching_index_None [OF assms(1)] by simp
  then show ?thesis using None by (simp add: delete_route_def)
next
  case (Some i)
  note idx = matching_index_Some [OF assms(1) Some]
  let ?n = "table_size s" and ?t = "routing_table s"
  let ?xs = "take i ?t" and ?ys = "drop (Suc i) (routes s)"
  let ?s = "s\<lparr>routing_table := ?t[i := ?t ! (?n - 1)], table_size := ?n - 1\<rparr>"
  have len: "length ?t = 10" "?n \<le> 10" "length (routes s) = ?n"
    using assms by (simp_all add: length_routes) (simp_all add: wf_routing_def)
  have ys: "?ys = [] \<longleftrightarrow> i = ?n - 1" using idx(1) len by auto
  have "routes ?s = (if ?ys = [] then ?xs else ?xs @ last ?ys # butlast ?ys)"
  proof (cases "?ys = []")
    case True
    then show ?thesis using ys idx(1) len by (simp add: routes_def)
  next
    case False
    then have "Suc (?n - 2) = ?n - Suc 0" using len idx(1) by auto
    then have "last ?ys = ?t ! (?n - 1)"
      using False len idx(1) by (simp add: last_drop last_conv_nth routes_def)
    moreover have "butlast ?ys = drop (Suc i) (take (?n - 1) ?t)"
      using len by (simp add: routes_def butlast_drop butlast_take)
    moreover have "take (?n - 1) (?t[i := x]) = ?xs @ x # drop (Suc i) (take (?n - 1) ?t)" for x
      using False ys idx(1) len by (simp add: take_update_swap upd_conv_take_nth_drop take_Cons' drop_take)
    ultimately show ?thesis using False by (simp add: routes_def)
  qed
  moreover have "wf_routing ?s"
    using assms idx(1) by (auto simp: wf_routing_def list_all_length nth_list_update)
  moreover have "first_match dest (routes s) ?xs (?t ! i) ?ys"
    using idx by (simp add: first_match_def)
  moreover have "delete_route dest s = (?s, 1)" by (simp add: delete_route_def Some)
  moreover have "dest \<in> destination ` set (routes s)"
    using Some matching_index_None [OF assms(1), of dest] by simp
  ultimately show ?thesis by (simp only: if_True) blast
qed

section \<open>The contract with the server\<close>

text \<open>The server only adds to the table and lists it: a list of bounded length.\<close>

locale bounded_list =
  fixes items :: "'s \<Rightarrow> 'a list"
    and add :: "'a \<Rightarrow> 's \<Rightarrow> 's \<times> int"
    and sound :: "'s \<Rightarrow> bool"
    and fine :: "'a \<Rightarrow> bool"
    and bound :: nat
  assumes add_room: "sound s \<Longrightarrow> length (items s) < bound \<Longrightarrow>
      items (fst (add x s)) = items s @ [x] \<and> snd (add x s) = 1"
    and add_full: "sound s \<Longrightarrow> \<not> length (items s) < bound \<Longrightarrow> add x s = (s, 0)"
    and sound_add: "sound s \<Longrightarrow> fine x \<Longrightarrow> sound (fst (add x s))"
    and sound_bound: "sound s \<Longrightarrow> length (items s) \<le> bound"
begin

text \<open>Of any sequence of additions the first that fit are kept, in their order.\<close>

lemma add_all:
  assumes "sound s" and "list_all fine xs"
  shows "sound (fold (\<lambda>x s. fst (add x s)) xs s) \<and>
    items (fold (\<lambda>x s. fst (add x s)) xs s) = take bound (items s @ xs)"
  using assms
proof (induction xs arbitrary: s)
  case Nil
  then show ?case using sound_bound [of s] by simp
next
  case (Cons x xs)
  then have sound: "sound (fst (add x s))" by (simp add: sound_add)
  show ?case
  proof (cases "length (items s) < bound")
    case True
    then show ?thesis using Cons sound add_room [of s x] by (simp add: take_Cons')
  next
    case False
    then show ?thesis using Cons sound_bound [of s] add_full [of s x] by simp
  qed
qed

end

interpretation table: bounded_list routes add_route wf_routing wf_entry 10
  by unfold_locales
    (simp_all add: add_route_room add_route_full wf_add_route length_routes, simp add: wf_routing_def)

section \<open>Printing\<close>

lemma print_routing_table_lemma:
  assumes "wf_routing s"
  shows "print_routing_table s = concat (map route_line (routes s))"
proof -
  have "n \<le> table_size s \<Longrightarrow>
      for_to 0 n (\<lambda>i out. out @ route_line (routing_table s ! i)) [] = concat (map route_line (take n (routing_table s)))" for n
    by (induction n) (use assms in \<open>auto simp: for_to_Suc take_Suc_conv_app_nth wf_routing_def\<close>)
  then show ?thesis by (simp add: print_routing_table_def routes_def)
qed

lemma length_route_line: "wf_entry e \<Longrightarrow> length (route_line e) \<le> 94"
  by (simp add: route_line_def wf_entry_def)

section \<open>The results\<close>

text \<open>C30: On the list of entries in use, \<open>add_route\<close> appends while there is room for ten and otherwise
  changes nothing and reports 0, \<open>update_route\<close> replaces the first entry with the destination, and
  \<open>delete_route\<close> removes it, the last entry taking its place; without a match both report 0 and
  change nothing.  All three keep the table well-formed.\<close>

theorem routing_table_operations:
  assumes "wf_routing s" and "wf_entry e'"
  shows "(if length (routes s) < 10
      then \<exists>s'. add_route e' s = (s', 1) \<and> wf_routing s' \<and> routes s' = routes s @ [e']
      else add_route e' s = (s, 0))
    \<and> (if dest \<in> destination ` set (routes s)
      then \<exists>xs e ys s'. first_match dest (routes s) xs e ys \<and> update_route dest e' s = (s', 1) \<and>
        routes s' = xs @ e' # ys \<and> wf_routing s'
      else update_route dest e' s = (s, 0))
    \<and> (if dest \<in> destination ` set (routes s)
      then \<exists>xs e ys s'. first_match dest (routes s) xs e ys \<and> delete_route dest s = (s', 1) \<and>
        wf_routing s' \<and> routes s' = (if ys = [] then xs else xs @ last ys # butlast ys)
      else delete_route dest s = (s, 0))"
  using update_route_lemma [OF assms, of dest] delete_route_lemma [OF assms(1), of dest]
    add_route_room [OF assms(1), of e'] add_route_full [OF assms(1), of e'] wf_add_route [OF assms]
  by (cases "add_route e' s") simp

definition entry1 :: RouteEntry where
  "entry1 = \<lparr>destination = ''192.168.1.0'', mask = ''255.255.255.0'', gateway = ''192.168.1.1'', oif = ''eth0''\<rparr>"

lemma wf_entry1: "wf_entry entry1"
  by (simp add: entry1_def wf_entry_def)

theorem routing_table_operations_witness:
  "\<exists>s'. add_route entry1 (init_routing_table routing_globals) = (s', 1) \<and> routes s' = [entry1]"
  using routing_table_operations [OF wf_init_routing wf_entry1] by auto

end
