(* ===== verification/Stream_Client.thy ===== *)
theory Stream_Client
  imports C_String
begin

text \<open>
  The loop of the two clients that only listen, \<^verbatim>\<open>system-info/info-client.c\<close> and
  \<^verbatim>\<open>multiplex-routinginfo/routing_client.c\<close>: it prints what each \<open>read\<close> delivers.  The locale \<open>stream_client\<close>
  is what the two loops have in common, and shows that they print everything, however the stream is cut.
\<close>

abbreviation received :: "string \<Rightarrow> string" where
  "received c \<equiv> ''Received: '' @ c @ [newline]"

locale stream_client =
  fixes loop :: "string option list \<Rightarrow> c_error + string list"
    and room :: nat
    and closed :: "string list"
  assumes on_error: "loop (None # reads) = Inr []"
    and on_close: "loop (Some [] # reads) = Inr closed"
    and on_data: "msg \<noteq> [] \<Longrightarrow> loop (Some msg # reads) =
      rbind (loop reads) (\<lambda>out. Inr (received (c_str (take room msg)) # out))"
begin

lemma shows_pieces:
  assumes "list_all (\<lambda>c. c \<noteq> [] \<and> length c \<le> room \<and> NUL \<notin> set c) chunks"
  shows "loop (map Some chunks @ reads) = rbind (loop reads) (\<lambda>out. Inr (map received chunks @ out))"
  using assms
proof (induction chunks)
  case Nil
  show ?case by (cases "loop reads") simp_all
qed (simp add: on_data c_str_id rbind_assoc)

text \<open>The messages \<open>ms\<close> arrive in the pieces \<open>chunks\<close>.\<close>

lemma shows_stream:
  assumes "concat chunks = concat ms" and "list_all (\<lambda>m. NUL \<notin> set m) ms"
    and "list_all (\<lambda>c. c \<noteq> [] \<and> length c \<le> room) chunks"
  shows "loop (map Some chunks @ [None]) = Inr (map received chunks)"
    and "loop (map Some chunks @ [Some []]) = Inr (map received chunks @ closed)"
proof -
  have "NUL \<notin> set (concat chunks)" unfolding assms(1) using assms(2) by (auto simp: list_all_iff)
  then have "list_all (\<lambda>c. c \<noteq> [] \<and> length c \<le> room \<and> NUL \<notin> set c) chunks"
    using assms(3) by (auto simp: list_all_iff)
  note shown = shows_pieces [OF this]
  show "loop (map Some chunks @ [None]) = Inr (map received chunks)"
    "loop (map Some chunks @ [Some []]) = Inr (map received chunks @ closed)"
    by (simp_all add: shown on_error on_close)
qed

end

end
