(* ===== verification/Routing_Server.thy ===== *)
theory Routing_Server
  imports Routing_Table Fd_Set Server_Loop Stream_Client
begin

text \<open>
  The server of \<^verbatim>\<open>multiplex-routinginfo\<close> and its two clients: \<^verbatim>\<open>routing_server.c\<close> keeps the routing table,
  sends it to every client that connects, adds the routes that clients send and sends the new table
  to all; \<^verbatim>\<open>routing_update_client.c\<close> reads routes from the console and sends them; \<^verbatim>\<open>routing_client.c\<close>
  prints what it receives.

  An iteration of the server loop is \<open>routing_server_step\<close>, a function of the answers of the kernel.
  The buffer of \<open>main\<close> lives across iterations: its characters are \<open>None\<close> until they are written, and
  \<open>sscanf\<close> reads up to the first zero byte, wherever an earlier message left it.
\<close>

section \<open>The server\<close>

record routing_kernel =
  select_ret :: int
  ready :: "int set"                        \<comment> \<open>the set \<open>readfds\<close> after \<open>select\<close>\<close>
  accept_ret :: int
  fcntl_ok :: bool                          \<comment> \<open>both calls of \<open>fcntl\<close> succeed\<close>
  incoming :: "int \<Rightarrow> string option"       \<comment> \<open>what \<open>read\<close> stores; \<open>None\<close> for the result \<open>-1\<close>\<close>

record routing_server =
  fds :: "int list"
  routing :: routing
  buffer :: "char option list"

definition set_socket_non_blocking :: "routing_kernel \<Rightarrow> c_error + unit" where
  "set_socket_non_blocking k = (if fcntl_ok k then Inr () else Inl Exit_failure)"

text \<open>\<open>snprintf(buffer + strlen(buffer), sizeof(buffer) - strlen(buffer), ...)\<close>, once per entry.\<close>

definition snprintf_append :: "nat \<Rightarrow> string \<Rightarrow> string \<Rightarrow> string" where
  "snprintf_append cap buf s = buf @ take (cap - length buf - 1) s"

definition serialize_table :: "routing \<Rightarrow> string" where
  "serialize_table rt =
    for_to 0 (get_routing_table_size rt)
      (\<lambda>i buf. snprintf_append 1024 buf (route_line (routing_table rt ! i))) []"

definition send_routing_table_to_client :: "routing \<Rightarrow> int \<Rightarrow> (int \<times> string) list" where
  "send_routing_table_to_client rt client_socket = [(client_socket, serialize_table rt)]"

text \<open>A failed \<open>send\<close> is only reported, so the list holds the messages that are attempted.\<close>

definition send_routing_table_to_clients :: "routing \<Rightarrow> int list \<Rightarrow> int \<Rightarrow> (int \<times> string) list" where
  "send_routing_table_to_clients rt client_sockets connection_socket =
    map (\<lambda>fd. (fd, serialize_table rt)) (filter (\<lambda>fd. 0 < fd \<and> fd \<noteq> connection_socket) client_sockets)"

text \<open>\<open>read(fd, buffer, 260)\<close> overwrites the front of the buffer only.\<close>

definition read_into :: "char option list \<Rightarrow> string \<Rightarrow> char option list" where
  "read_into buf s = splice buf 0 (map Some s)"

text \<open>
  \<open>sscanf(buffer, "%s %s %s %s", ...)\<close> into the arrays of a local entry.  An array without a word stays
  indeterminate, and then so does the entry (\<open>None\<close>).
\<close>

definition parse_route :: "string \<Rightarrow> c_error + RouteEntry option" where
  "parse_route inp =
    rbind (sscanf_field 16 inp) (\<lambda>(d, inp).
    rbind (sscanf_field 16 inp) (\<lambda>(m, inp).
    rbind (sscanf_field 16 inp) (\<lambda>(g, inp).
    rbind (sscanf_field 10 inp) (\<lambda>(oi, inp).
      Inr (case (d, m, g, oi) of
          (Some d, Some m, Some g, Some oi) \<Rightarrow>
             Some \<lparr>destination = d, mask = m, gateway = g, oif = oi\<rparr>
        | _ \<Rightarrow> None)))))"

text \<open>A client descriptor that is ready.  An entry with an indeterminate array is stored and then
  printed, unless the table is full.\<close>

definition handle_client :: "int \<Rightarrow> routing_kernel \<Rightarrow> int \<Rightarrow> routing_server \<times> (int \<times> string) list
    \<Rightarrow> c_error + routing_server \<times> (int \<times> string) list" where
  "handle_client connection_socket k fd = (\<lambda>(s, out).
    let closed = Inr (s\<lparr>fds := remove_monitor_fd_set fd (fds s)\<rparr>, out)
    in case incoming k fd of
         None \<Rightarrow> closed
       | Some msg \<Rightarrow>
           if msg = [] then closed
           else let s = s\<lparr>buffer := read_into (buffer s) msg\<rparr>
                in rbind (string_in (buffer s)) (\<lambda>text.
                   rbind (parse_route text) (\<lambda>entry.
                     case entry of
                       None \<Rightarrow> if get_routing_table_size (routing s) < 10 then Inl Uninitialised else Inr (s, out)
                     | Some new_entry \<Rightarrow>
                         (case add_route new_entry (routing s) of (rt, ok) \<Rightarrow>
                            if ok \<noteq> 0
                            then Inr (s\<lparr>routing := rt\<rparr>,
                                      out @ send_routing_table_to_clients rt (fds s) connection_socket)
                            else Inr (s, out)))))"

definition handle_slot :: "int \<Rightarrow> routing_kernel \<Rightarrow> nat \<Rightarrow> routing_server \<times> (int \<times> string) list
    \<Rightarrow> c_error + routing_server \<times> (int \<times> string) list" where
  "handle_slot connection_socket k i = (\<lambda>(s, out).
    let fd = fds s ! i
    in if fd \<noteq> - 1 \<and> fd \<in> ready k then handle_client connection_socket k fd (s, out) else Inr (s, out))"

definition routing_server_step :: "int \<Rightarrow> routing_kernel \<Rightarrow> routing_server
    \<Rightarrow> c_error + routing_server \<times> (int \<times> string) list" where
  "routing_server_step connection_socket k s =
    rbind (refresh_fd_set (fds s)) (\<lambda>_.
      if select_ret k < 0 then Inl Exit_failure
      else if connection_socket \<in> ready k then
        (if accept_ret k = - 1 then Inl Exit_failure
         else rbind (set_socket_non_blocking k) (\<lambda>_.
           Inr (s\<lparr>fds := add_monitor_fd_set (accept_ret k) (fds s)\<rparr>,
                send_routing_table_to_client (routing s) (accept_ret k))))
      else if 0 \<in> ready k then
        (let buf = (case incoming k 0 of None \<Rightarrow> replicate 260 (Some NUL)
                    | Some msg \<Rightarrow> read_into (replicate 260 (Some NUL)) msg)
         in rbind (string_in buf) (\<lambda>_. Inr (s\<lparr>buffer := buf\<rparr>, [])))
      else for_to 0 32 (\<lambda>i r. rbind r (handle_slot connection_socket k i)) (Inr (s, [])))"

definition routing_server_start :: "int \<Rightarrow> bool \<Rightarrow> int \<Rightarrow> int \<Rightarrow> c_error + routing_server" where
  "routing_server_start connection_socket non_blocking bind_ret listen_ret =
    (let monitor = add_monitor_fd_set 0 init_monitor_fd_set;
         rt = fst (add_route entry1 (init_routing_table routing_globals))
     in if connection_socket = - 1 then Inl Exit_failure
        else if \<not> non_blocking then Inl Exit_failure
        else if bind_ret = - 1 then Inl Exit_failure
        else if listen_ret = - 1 then Inl Exit_failure
        else Inr \<lparr>fds = add_monitor_fd_set connection_socket monitor, routing = rt,
                  buffer = replicate 260 None\<rparr>)"

section \<open>The clients\<close>

text \<open>\<^verbatim>\<open>routing_client.c\<close>: the results of its system calls, and the \<open>read\<close>s of its loop; the buffer is
  cleared and terminated around each.\<close>

fun routing_client_loop :: "string option list \<Rightarrow> c_error + string list" where
  "routing_client_loop [] = Inl Exhausted"
| "routing_client_loop (None # reads) = Inr []"
| "routing_client_loop (Some msg # reads) =
    (if msg = [] then Inr []
     else rbind (routing_client_loop reads) (\<lambda>out. Inr ((''Received: '' @ c_str (take 259 msg) @ [newline]) # out)))"

definition routing_client_main :: "nat \<Rightarrow> int \<Rightarrow> int \<Rightarrow> string option list \<Rightarrow> c_error + string list" where
  "routing_client_main argc socket_ret connect_ret reads =
    (if argc < 2 then Inl Exit_failure
     else if socket_ret = - 1 then Inl Exit_failure
     else if connect_ret = - 1 then Inl Exit_failure
     else routing_client_loop reads)"

interpretation routing_client: stream_client routing_client_loop 259 "[]"
  by unfold_locales simp_all

text \<open>\<^verbatim>\<open>routing_update_client.c\<close>: \<open>scanf("%s")\<close> into an array of 64 characters, which keeps its value
  when the input has ended; \<open>snprintf\<close> into 260 characters.\<close>

definition scanf_64 :: "string option \<Rightarrow> string \<Rightarrow> c_error + string option \<times> string" where
  "scanf_64 old inp =
    (let (w, rest) = scan_word inp
     in if w = [] then Inr (old, rest)
        else if 64 \<le> length w then Inl Out_of_bounds else Inr (Some w, rest))"

definition route_request :: "string \<Rightarrow> string \<Rightarrow> string \<Rightarrow> string \<Rightarrow> string" where
  "route_request d m g oi = take 259 (d @ '' '' @ m @ '' '' @ g @ '' '' @ oi)"

type_synonym update_vars = "string option \<times> string option \<times> string option \<times> string option"

text \<open>One round up to the \<open>send\<close>: the request, or \<open>None\<close> for \<open>exit\<close>.\<close>

definition update_client_round :: "update_vars \<Rightarrow> string \<Rightarrow> c_error + string option \<times> update_vars \<times> string" where
  "update_client_round = (\<lambda>(d, m, g, oi) inp.
    rbind (scanf_64 d inp) (\<lambda>(d, inp).
      if d = None then Inl Uninitialised
      else if d = Some ''exit'' then Inr (None, (d, m, g, oi), inp)
      else rbind (scanf_64 m inp) (\<lambda>(m, inp).
           rbind (scanf_64 g inp) (\<lambda>(g, inp).
           rbind (scanf_64 oi inp) (\<lambda>(oi, inp).
             case (d, m, g, oi) of
               (Some d', Some m', Some g', Some oi') \<Rightarrow>
                 Inr (Some (route_request d' m' g' oi'), (d, m, g, oi), inp)
             | _ \<Rightarrow> Inl Uninitialised)))))"

text \<open>The loop, with the answers the \<open>read\<close>s give, one after each request; it returns the requests in
  order.  When the answers are used up it still waits in its \<open>read\<close> (\<open>Exhausted\<close>).\<close>

fun update_client_loop :: "update_vars \<Rightarrow> string \<Rightarrow> string option list \<Rightarrow> c_error + string list" where
  "update_client_loop vars inp replies =
    rbind (update_client_round vars inp) (\<lambda>(request, vars, inp).
      case request of
        None \<Rightarrow> Inr []
      | Some r \<Rightarrow>
          (case replies of
             [] \<Rightarrow> Inl Exhausted
           | reply # replies \<Rightarrow>
               (case reply of
                  None \<Rightarrow> Inr [r]
                | Some msg \<Rightarrow>
                    if msg = [] then Inr [r]
                    else rbind (update_client_loop vars inp replies) (\<lambda>rs. Inr (r # rs)))))"

declare update_client_loop.simps [simp del]

definition update_client_main :: "nat \<Rightarrow> int \<Rightarrow> int \<Rightarrow> string \<Rightarrow> string option list \<Rightarrow> c_error + string list" where
  "update_client_main argc socket_ret connect_ret inp replies =
    (if argc < 2 then Inl Exit_failure
     else if socket_ret = - 1 then Inl Exit_failure
     else if connect_ret = - 1 then Inl Exit_failure
     else update_client_loop (None, None, None, None) inp replies)"

section \<open>The message with the table\<close>

lemma serialize_lemma:
  assumes "wf_routing rt"
  shows "serialize_table rt = concat (map route_line (routes rt))" and "length (serialize_table rt) \<le> 940"
proof -
  have t: "length (routing_table rt) = 10" "table_size rt \<le> 10" "\<And>i. i < 10 \<Longrightarrow> wf_entry (routing_table rt ! i)"
    using assms by (simp_all add: wf_routing_def list_all_length)
  let ?f = "\<lambda>i buf. snprintf_append 1024 buf (route_line (routing_table rt ! i))"
  let ?c = "\<lambda>n. concat (map route_line (take n (routing_table rt)))"
  have "n \<le> table_size rt \<Longrightarrow> for_to 0 n ?f [] = ?c n \<and> length (?c n) \<le> 94 * n" for n
  proof (induction n)
    case (Suc n)
    then have IH: "for_to 0 n ?f [] = ?c n" "length (?c n) \<le> 94 * n" by simp_all
    have line: "length (route_line (routing_table rt ! n)) \<le> 94"
      using Suc.prems t by (intro length_route_line) simp
    have step: "?c (Suc n) = ?c n @ route_line (routing_table rt ! n)"
      using Suc.prems t by (simp add: take_Suc_conv_app_nth)
    have "length (?c n) \<le> 900" using IH(2) Suc.prems t(2) by linarith
    then have "snprintf_append 1024 (?c n) (route_line (routing_table rt ! n)) = ?c (Suc n)"
      using line by (simp add: step snprintf_append_def)
    moreover have "for_to 0 (Suc n) ?f [] = snprintf_append 1024 (?c n) (route_line (routing_table rt ! n))"
      using IH(1) by (simp add: for_to_Suc)
    ultimately have "for_to 0 (Suc n) ?f [] = ?c (Suc n)" by simp
    then show ?case using IH(2) line step by simp
  qed simp
  from this [of "table_size rt"] t(2)
  show "serialize_table rt = concat (map route_line (routes rt))" "length (serialize_table rt) \<le> 940"
    by (simp_all add: serialize_table_def get_routing_table_size_def routes_def)
qed

section \<open>Requests\<close>

definition plain_word :: "string \<Rightarrow> bool" where
  "plain_word w \<longleftrightarrow> w \<noteq> [] \<and> (\<forall>c \<in> set w. \<not> isspace c \<and> c \<noteq> NUL)"

definition plain_entry :: "RouteEntry \<Rightarrow> bool" where
  "plain_entry e \<longleftrightarrow> wf_entry e \<and> plain_word (destination e) \<and> plain_word (mask e) \<and>
     plain_word (gateway e) \<and> plain_word (oif e)"

definition request_of :: "RouteEntry \<Rightarrow> string" where
  "request_of e = route_request (destination e) (mask e) (gateway e) (oif e)"

lemma scan_plain_word:
  assumes "plain_word w" and "rest = [] \<or> isspace (hd rest)"
  shows "scan_word (w @ rest) = (w, rest)" and "scan_word (CHR '' '' # w @ rest) = (w, rest)"
proof -
  show "scan_word (w @ rest) = (w, rest)"
    by (rule scan_word_word) (use assms in \<open>auto simp: plain_word_def\<close>)
  then show "scan_word (CHR '' '' # w @ rest) = (w, rest)"
    by (simp add: scan_word_space isspace_def)
qed

lemma isspace_blank [simp]: "isspace CHR '' ''"
  by (simp add: isspace_def)

lemma request_text:
  assumes "wf_entry e"
  shows "request_of e = destination e @ CHR '' '' # mask e @ CHR '' '' # gateway e @ CHR '' '' # oif e"
    and "length (request_of e) \<le> 57"
proof -
  let ?s = "destination e @ CHR '' '' # mask e @ CHR '' '' # gateway e @ CHR '' '' # oif e"
  have "length ?s \<le> 57" using assms by (auto simp: wf_entry_def)
  then show "request_of e = ?s" "length (request_of e) \<le> 57"
    by (simp_all add: request_of_def route_request_def)
qed

lemma parse_request:
  assumes "plain_entry e" and "rest = [] \<or> isspace (hd rest)"
  shows "parse_route (request_of e @ rest) = Inr (Some e)"
proof -
  have wf: "wf_entry e" and words: "plain_word (destination e)" "plain_word (mask e)"
    "plain_word (gateway e)" "plain_word (oif e)"
    using assms(1) by (simp_all add: plain_entry_def)
  have "destination e \<noteq> []" "mask e \<noteq> []" "gateway e \<noteq> []" "oif e \<noteq> []"
    using words by (simp_all add: plain_word_def)
  moreover have "length (destination e) < 16" "length (mask e) < 16" "length (gateway e) < 16" "length (oif e) < 10"
    using wf by (simp_all add: wf_entry_def)
  ultimately show ?thesis
    using scan_plain_word(1) [OF words(1), of "CHR '' '' # mask e @ CHR '' '' # gateway e @ CHR '' '' # oif e @ rest"]
      scan_plain_word(2) [OF words(2), of "CHR '' '' # gateway e @ CHR '' '' # oif e @ rest"]
      scan_plain_word(2) [OF words(3), of "CHR '' '' # oif e @ rest"]
      scan_plain_word(2) [OF words(4), of rest] assms(2)
    by (simp add: request_text [OF wf] parse_route_def sscanf_field_def)
qed

lemma sscanf_field_result:
  "sscanf_field cap inp = Inr (Some w, rest) \<Longrightarrow> length w < cap \<and> set w \<subseteq> set inp \<and> set rest \<subseteq> set inp"
  "sscanf_field cap inp = Inr (r, rest) \<Longrightarrow> set rest \<subseteq> set inp"
  by (auto simp: sscanf_field_def scan_word_def Let_def split: if_splits
      dest!: set_takeWhileD set_dropWhileD)

lemma parse_route_wf:
  assumes "parse_route inp = Inr (Some e)" and "NUL \<notin> set inp"
  shows "wf_entry e"
proof -
  obtain d' m' g' oi' i1 i2 i3 i4 where
    f': "sscanf_field 16 inp = Inr (d', i1)" "sscanf_field 16 i1 = Inr (m', i2)"
      "sscanf_field 16 i2 = Inr (g', i3)" "sscanf_field 10 i3 = Inr (oi', i4)"
    and "(case (d', m', g', oi') of
          (Some d, Some m, Some g, Some oi) \<Rightarrow>
             Some \<lparr>destination = d, mask = m, gateway = g, oif = oi\<rparr>
        | _ \<Rightarrow> None) = Some e"
    using assms(1) by (auto simp: parse_route_def rbind_eq_Inr)
  then obtain d m g oi where
    f: "sscanf_field 16 inp = Inr (Some d, i1)" "sscanf_field 16 i1 = Inr (Some m, i2)"
      "sscanf_field 16 i2 = Inr (Some g, i3)" "sscanf_field 10 i3 = Inr (Some oi, i4)"
    and e: "e = \<lparr>destination = d, mask = m, gateway = g, oif = oi\<rparr>"
    by (cases d'; cases m'; cases g'; cases oi') auto
  note res = f [THEN sscanf_field_result(1)]
  then have "set (d @ m @ g @ oi) \<subseteq> set inp" unfolding set_append by (meson Un_least order.trans)
  then have "NUL \<notin> set (d @ m @ g @ oi)" using assms(2) by blast
  then show ?thesis using res by (simp add: wf_entry_def e)
qed

text \<open>The buffer.\<close>

lemma length_read_into: "length s \<le> length buf \<Longrightarrow> length (read_into buf s) = length buf"
  by (simp add: read_into_def)

lemma read_into_eq: "read_into buf s = map Some s @ drop (length s) buf"
  by (simp add: read_into_def splice_def)


section \<open>The invariant of the server\<close>

definition routing_inv :: "int \<Rightarrow> routing_server \<Rightarrow> bool" where
  "routing_inv connection_socket s \<longleftrightarrow> wf_monitor (fds s) \<and> (\<forall>fd \<in> watched (fds s). fd < 1024) \<and>
     0 < connection_socket \<and> wf_routing (routing s) \<and> length (buffer s) = 260"

definition routing_kernel_ok :: "routing_kernel \<Rightarrow> routing_server \<Rightarrow> bool" where
  "routing_kernel_ok k s \<longleftrightarrow> 0 \<le> accept_ret k \<and> accept_ret k < 1024 \<and> accept_ret k \<notin> watched (fds s) \<and>
     accept_ret k \<noteq> 0 \<and> (\<forall>fd msg. incoming k fd = Some msg \<longrightarrow> length msg \<le> 260)"

text \<open>A message is the complete listing of a well-formed table, to a watched client.\<close>

definition message_ok :: "int \<Rightarrow> int set \<Rightarrow> int \<times> string \<Rightarrow> bool" where
  "message_ok connection_socket clients m \<longleftrightarrow> fst m \<in> clients - {0, connection_socket} \<and>
     (\<exists>rt. wf_routing rt \<and> snd m = concat (map route_line (routes rt)) \<and> length (snd m) < 1024)"

lemma messages_to_clients:
  assumes "wf_routing rt" and "watched ms \<subseteq> clients"
  shows "\<forall>m \<in> set (send_routing_table_to_clients rt ms connection_socket). message_ok connection_socket clients m"
  using assms serialize_lemma [OF assms(1)]
  by (auto simp: send_routing_table_to_clients_def message_ok_def watched_def)

lemma handle_client_safe:
  assumes inv: "routing_inv connection_socket s" and k: "\<forall>fd msg. incoming k fd = Some msg \<longrightarrow> length msg \<le> 260"
    and out: "\<forall>m \<in> set out. message_ok connection_socket clients m" and sub: "watched (fds s) \<subseteq> clients"
    and res: "handle_client connection_socket k fd (s, out) = Inr (s', out')"
  shows "routing_inv connection_socket s' \<and> watched (fds s') \<subseteq> watched (fds s) \<and>
    (\<forall>m \<in> set out'. message_ok connection_socket clients m)"
proof (cases "incoming k fd = None \<or> incoming k fd = Some []")
  case True
  then have "s' = s\<lparr>fds := remove_monitor_fd_set fd (fds s)\<rparr>" "out' = out"
    using res by (auto simp: handle_client_def Let_def)
  then show ?thesis
    using inv out watched_remove [OF wf_distinct, of "fds s" fd]
    by (auto simp: routing_inv_def wf_remove)
next
  case False
  then obtain msg where msg: "incoming k fd = Some msg" "msg \<noteq> []" by (cases "incoming k fd") auto
  let ?s = "s\<lparr>buffer := read_into (buffer s) msg\<rparr>"
  have inv': "routing_inv connection_socket ?s"
    using inv k msg(1) by (simp add: routing_inv_def length_read_into)
  from res msg obtain str entry where str: "string_in (buffer ?s) = Inr str" "parse_route str = Inr entry"
    and rest: "(case entry of
       None \<Rightarrow> if get_routing_table_size (routing s) < 10 then Inl Uninitialised else Inr (?s, out)
     | Some new_entry \<Rightarrow>
         (case add_route new_entry (routing s) of (rt, ok) \<Rightarrow>
            if ok \<noteq> 0
            then Inr (?s\<lparr>routing := rt\<rparr>, out @ send_routing_table_to_clients rt (fds ?s) connection_socket)
            else Inr (?s, out))) = Inr (s', out')"
    by (auto simp: handle_client_def rbind_eq_Inr Let_def)
  show ?thesis
  proof (cases entry)
    case None
    then show ?thesis using rest inv' out by (auto split: if_splits)
  next
    case (Some e)
    have wf: "wf_entry e" using parse_route_wf str string_in_NUL_free Some by blast
    obtain rt ok where add: "add_route e (routing s) = (rt, ok)" by force
    then have "wf_routing rt" using wf_add_route [OF _ wf, of "routing s"] inv by (simp add: routing_inv_def)
    then show ?thesis
      using rest Some add inv' out messages_to_clients [of rt "fds s" clients connection_socket] sub
      by (auto simp: routing_inv_def split: if_splits)
  qed
qed

lemma handle_slots_safe:
  assumes inv: "routing_inv connection_socket s" and k: "\<forall>fd msg. incoming k fd = Some msg \<longrightarrow> length msg \<le> 260"
  shows "case for_to 0 n (\<lambda>i r. rbind r (handle_slot connection_socket k i)) (Inr (s, [])) of
      Inl e \<Rightarrow> True
    | Inr (s', out) \<Rightarrow> routing_inv connection_socket s' \<and> watched (fds s') \<subseteq> watched (fds s) \<and>
        (\<forall>m \<in> set out. message_ok connection_socket (watched (fds s)) m)"
proof (induction n)
  case (Suc n)
  show ?case
  proof (cases "for_to 0 n (\<lambda>i r. rbind r (handle_slot connection_socket k i)) (Inr (s, []))")
    case (Inr r)
    obtain s1 out1 where r: "r = (s1, out1)" by force
    note 1 = Suc [unfolded Inr r sum.case prod.case]
    show ?thesis
    proof (cases "handle_slot connection_socket k n (s1, out1)")
      case res: (Inr r')
      obtain s2 out2 where r': "r' = (s2, out2)" by force
      have "routing_inv connection_socket s2 \<and> watched (fds s2) \<subseteq> watched (fds s1) \<and>
          (\<forall>m \<in> set out2. message_ok connection_socket (watched (fds s)) m)"
      proof (cases "fds s1 ! n \<noteq> - 1 \<and> fds s1 ! n \<in> ready k")
        case True
        then have "handle_client connection_socket k (fds s1 ! n) (s1, out1) = Inr (s2, out2)"
          using res r' by (simp add: handle_slot_def)
        then show ?thesis using handle_client_safe 1 k by blast
      next
        case False
        then show ?thesis using res r' 1 by (auto simp: handle_slot_def Let_def split: if_splits)
      qed
      then show ?thesis using Inr r res r' 1 by (auto simp: for_to_Suc)
    qed (simp add: for_to_Suc Inr r)
  qed (simp add: for_to_Suc)
qed (use inv in simp)


lemma refresh_ok: "routing_inv connection_socket s \<Longrightarrow> refresh_fd_set (fds s) = Inr (watched (fds s))"
  by (rule refresh_fd_set_lemma) (auto simp: routing_inv_def wf_monitor_def)

lemma routing_step_safe:
  assumes inv: "routing_inv connection_socket s" and k: "routing_kernel_ok k s" and "accept_ret k \<noteq> connection_socket"
    and res: "routing_server_step connection_socket k s = Inr (s', out)"
  shows "routing_inv connection_socket s' \<and> watched (fds s') \<subseteq> insert (accept_ret k) (watched (fds s)) \<and>
    (\<forall>m \<in> set out. message_ok connection_socket (insert (accept_ret k) (watched (fds s))) m)"
proof -
  have k': "0 \<le> accept_ret k" "accept_ret k < 1024" "accept_ret k \<notin> watched (fds s)" "accept_ret k \<noteq> 0"
    "\<forall>fd msg. incoming k fd = Some msg \<longrightarrow> length msg \<le> 260"
    using k by (simp_all add: routing_kernel_ok_def)
  consider "connection_socket \<in> ready k" | "connection_socket \<notin> ready k" "0 \<in> ready k"
    | "connection_socket \<notin> ready k" "0 \<notin> ready k" by blast
  then show ?thesis
  proof cases
    case 1
    then have s': "s' = s\<lparr>fds := add_monitor_fd_set (accept_ret k) (fds s)\<rparr>"
      and out: "out = [(accept_ret k, serialize_table (routing s))]"
      using res refresh_ok [OF inv] k'
      by (auto simp: routing_server_step_def send_routing_table_to_client_def rbind_eq_Inr split: if_splits)
    have "wf_monitor (add_monitor_fd_set (accept_ret k) (fds s))"
      using inv k' by (intro wf_add) (simp_all add: routing_inv_def)
    moreover have "watched (add_monitor_fd_set (accept_ret k) (fds s)) \<subseteq> insert (accept_ret k) (watched (fds s))"
      using watched_add [of "accept_ret k" "fds s"] k' by auto
    moreover have rt: "wf_routing (routing s)" using inv by (simp add: routing_inv_def)
    ultimately show ?thesis
      using inv k' assms(3) serialize_lemma [OF rt]
      by (auto simp: s' out routing_inv_def message_ok_def)
  next
    case 2
    then have "out = []" "\<exists>buf. s' = s\<lparr>buffer := buf\<rparr> \<and> length buf = 260"
      using res refresh_ok [OF inv] k'(5)
      by (auto simp: routing_server_step_def rbind_eq_Inr Let_def length_read_into split: if_splits option.splits)
    then show ?thesis using inv by (auto simp: routing_inv_def)
  next
    case 3
    then have "for_to 0 32 (\<lambda>i r. rbind r (handle_slot connection_socket k i)) (Inr (s, [])) = Inr (s', out)"
      using res refresh_ok [OF inv] by (auto simp: routing_server_step_def split: if_splits)
    then show ?thesis
      using handle_slots_safe [OF inv k'(5), of 32] by (auto simp: message_ok_def)
  qed
qed

section \<open>A request of one client\<close>

text \<open>Only one descriptor is ready: the other slots are skipped.\<close>

lemma single_slot:
  assumes "wf_monitor m" and "fd \<in> watched m"
  obtains j where "j < 32" "m ! j = fd" "\<And>i. i < 32 \<Longrightarrow> m ! i = fd \<Longrightarrow> i = j"
proof -
  have len: "length m = 32" using assms(1) by (rule wf_length)
  have fd: "fd \<in> set m" "fd \<noteq> - 1" using assms(2) by (simp_all add: watched_def)
  then obtain j where j: "j < 32" "m ! j = fd" using len by (metis in_set_conv_nth)
  have "i = j" if i: "i < 32" "m ! i = fd" for i
  proof -
    have "m[i := - 1] = m[j := - 1]"
      using remove_nth [OF assms(1), of i fd] remove_nth [OF assms(1), of j fd] i j len fd(2) by simp
    then have "m[i := - 1] ! j = - 1" using j(1) len by simp
    then show "i = j" using j fd(2) len by (metis nth_list_update_neq)
  qed
  with that j show thesis by blast
qed

lemma single_client:
  assumes wf: "wf_monitor (fds s)" and fd: "fd \<in> watched (fds s)" and ready: "ready k = {fd}"
    and res: "handle_client connection_socket k fd (s, []) = Inr (s', out)" and same: "fds s' = fds s"
  shows "for_to 0 32 (\<lambda>i r. rbind r (handle_slot connection_socket k i)) (Inr (s, [])) = Inr (s', out)"
proof -
  obtain j where j: "j < 32" "fds s ! j = fd" "\<And>i. i < 32 \<Longrightarrow> fds s ! i = fd \<Longrightarrow> i = j"
    using single_slot [OF wf fd] by blast
  have "fd \<noteq> - 1" using fd by (simp add: watched_def)
  then have at: "handle_slot connection_socket k j (s, []) = Inr (s', out)"
    using j(2) ready res by (simp add: handle_slot_def)
  have skip: "handle_slot connection_socket k i (t, o') = Inr (t, o')" if "i < 32" "i \<noteq> j" "fds t = fds s" for i t o'
  proof -
    have "fds t ! i \<noteq> fd" using that j(3) by metis
    then show ?thesis using ready by (simp add: handle_slot_def)
  qed
  have "n \<le> 32 \<Longrightarrow> for_to 0 n (\<lambda>i r. rbind r (handle_slot connection_socket k i)) (Inr (s, []))
      = (if n \<le> j then Inr (s, []) else Inr (s', out))" for n
  proof (induction n)
    case (Suc n)
    consider "n < j" | "n = j" | "j < n" by linarith
    then show ?case using Suc skip [of n] at same by cases (simp_all add: for_to_Suc)
  qed simp
  from this [of 32] j(1) show ?thesis by simp
qed

lemma request_lemma:
  assumes inv: "routing_inv connection_socket s" and fd: "fd \<in> watched (fds s)" "fd \<noteq> 0" "fd \<noteq> connection_socket"
    and k: "0 \<le> select_ret k" "ready k = {fd}" "incoming k fd = Some (request_of e)"
    and e: "plain_entry e" and clean: "drop (length (request_of e)) (buffer s) = Some NUL # tail"
  shows "\<exists>s' out. routing_server_step connection_socket k s = Inr (s', out) \<and>
    routes (routing s') = take 10 (routes (routing s) @ [e]) \<and> fds s' = fds s \<and>
    routing_inv connection_socket s' \<and> buffer s' = read_into (buffer s) (request_of e) \<and> out = (if length (routes (routing s)) < 10
      then map (\<lambda>fd. (fd, concat (map route_line (routes (routing s'))))) (filter (\<lambda>fd. 0 < fd \<and> fd \<noteq> connection_socket) (fds s))
      else [])"
proof -
  let ?s = "s\<lparr>buffer := read_into (buffer s) (request_of e)\<rparr>"
  have wf: "wf_entry e" using e by (simp add: plain_entry_def)
  have "request_of e \<noteq> []" "NUL \<notin> set (request_of e)"
    using e by (auto simp: request_text [OF wf] plain_entry_def plain_word_def)
  then have str: "string_in (buffer ?s) = Inr (request_of e)"
    by (simp add: read_into_eq clean string_in_terminated)
  have parse: "parse_route (request_of e) = Inr (Some e)" using parse_request [OF e, of "[]"] by simp
  have rt: "wf_routing (routing s)" using inv by (simp add: routing_inv_def)
  obtain rt' ok where add: "add_route e (routing s) = (rt', ok)" by force
  have rt': "wf_routing rt'" using wf_add_route [OF rt wf] add by simp
  let ?r = "(if length (routes (routing s)) < 10
     then (?s\<lparr>routing := rt'\<rparr>, send_routing_table_to_clients rt' (fds s) connection_socket) else (?s, []))"
  have add': "length (routes (routing s)) < 10 \<Longrightarrow> ok = 1 \<and> routes rt' = routes (routing s) @ [e]"
    "\<not> length (routes (routing s)) < 10 \<Longrightarrow> ok = 0"
    using add_route_room [OF rt, of e] add_route_full [OF rt, of e] add by auto
  then have "handle_client connection_socket k fd (s, []) = Inr ?r"
    using k(3) str parse add \<open>request_of e \<noteq> []\<close> by (auto simp: handle_client_def)
  then have "for_to 0 32 (\<lambda>i r. rbind r (handle_slot connection_socket k i)) (Inr (s, [])) = Inr ?r"
    using single_client [of s fd k connection_socket "fst ?r" "snd ?r"] inv fd(1) k(2)
    by (simp add: routing_inv_def split: if_splits)
  then have step: "routing_server_step connection_socket k s = Inr ?r"
    using refresh_ok [OF inv] k fd by (auto simp: routing_server_step_def)
  have "length (buffer s) = 260" using inv by (simp add: routing_inv_def)
  then have "length (buffer ?s) = 260" using request_text(2) [OF wf] by (simp add: length_read_into)
  then have "routing_inv connection_socket (fst ?r)" using inv rt' by (simp add: routing_inv_def)
  moreover have "length (routes (routing s)) \<le> 10" using rt by (simp add: length_routes) (simp add: wf_routing_def)
  ultimately show ?thesis
    using step add' serialize_lemma(1) [OF rt']
    by (intro exI [of _ "fst ?r"] exI [of _ "snd ?r"]) (auto simp: send_routing_table_to_clients_def)
qed


section \<open>The start, and the first requests\<close>

lemma monitor_of_two:
  assumes "0 < a" and "a < 1024"
  shows "wf_monitor (add_monitor_fd_set a (add_monitor_fd_set 0 init_monitor_fd_set))"
    and "watched (add_monitor_fd_set a (add_monitor_fd_set 0 init_monitor_fd_set)) = {0, a}"
  using slots.history_sound [OF wf_init, of "{}" "[Connected 0, Connected a]"]
    slots.history_exact [OF wf_init watched_init, of "[Connected 0, Connected a]"] assms
  by (simp_all add: slots.event_def watched_init opened_def insert_commute)

lemma routing_start_lemma:
  assumes "0 < connection_socket" and "connection_socket < 1024" and "bind_ret \<noteq> - 1" and "listen_ret \<noteq> - 1"
  shows "\<exists>s. routing_server_start connection_socket True bind_ret listen_ret = Inr s \<and>
    routing_inv connection_socket s \<and> watched (fds s) = {0, connection_socket} \<and>
    routes (routing s) = [entry1] \<and> buffer s = replicate 260 None"
proof -
  have "wf_routing (fst (add_route entry1 (init_routing_table routing_globals)))"
    by (rule wf_add_route [OF wf_init_routing wf_entry1])
  then show ?thesis
    using assms monitor_of_two [OF assms(1,2)] add_route_room [OF wf_init_routing, of entry1]
    by (simp add: routing_server_start_def Let_def routing_inv_def)
qed

lemma read_shorter:
  assumes "NUL \<notin> set old" and "NUL \<notin> set msg" and "length msg \<le> length old" and "length old < 260"
  shows "string_in (read_into (read_into (replicate 260 (Some NUL)) old) msg) = Inr (msg @ drop (length msg) old)"
proof -
  obtain n where n: "260 - length old = Suc n" using assms(4) by (cases "260 - length old") auto
  have "read_into (read_into (replicate 260 (Some NUL)) old) msg
      = map Some (msg @ drop (length msg) old) @ Some NUL # replicate n (Some NUL)"
    using assms(3) n by (simp add: read_into_eq drop_map)
  moreover have "NUL \<notin> set (msg @ drop (length msg) old)" using assms(1,2) by (auto dest: in_set_dropD)
  ultimately show ?thesis using string_in_terminated by metis
qed

section \<open>The results\<close>

text \<open>Every iteration of the routing server that succeeds keeps its invariant (a sound descriptor set
  and a well-formed table of at most ten entries), and sends only complete listings of well-formed
  tables, below the 1024 bytes of the message buffer, to watched clients, never to standard input or
  the listening socket.\<close>

theorem routing_server_safe:
  assumes "routing_inv connection_socket s" and "routing_kernel_ok k s" and "accept_ret k \<noteq> connection_socket"
    and "routing_server_step connection_socket k s = Inr (s', out)"
  shows "routing_inv connection_socket s' \<and> watched (fds s') \<subseteq> insert (accept_ret k) (watched (fds s)) \<and>
    (\<forall>m \<in> set out. message_ok connection_socket (insert (accept_ret k) (watched (fds s))) m)"
  by (rule routing_step_safe [OF assms])

definition demo_accept :: routing_kernel where
  "demo_accept = \<lparr>select_ret = 1, ready = {3}, accept_ret = 4, fcntl_ok = True, incoming = (\<lambda>_. None)\<rparr>"

theorem routing_server_safe_witness:
  "\<exists>s s' out. routing_server_start 3 True 0 0 = Inr s \<and> routing_server_step 3 demo_accept s = Inr (s', out) \<and>
     routing_inv 3 s' \<and> out \<noteq> []"
proof -
  obtain s where s: "routing_server_start 3 True 0 0 = Inr s" "routing_inv 3 s" "watched (fds s) = {0, 3}"
    using routing_start_lemma [of 3 0 0] by auto
  let ?s = "s\<lparr>fds := add_monitor_fd_set 4 (fds s)\<rparr>"
  have step: "routing_server_step 3 demo_accept s = Inr (?s, [(4, serialize_table (routing s))])"
    using refresh_ok [OF s(2)]
    by (simp add: routing_server_step_def demo_accept_def set_socket_non_blocking_def send_routing_table_to_client_def)
  have "routing_kernel_ok demo_accept s" using s(3) by (simp add: routing_kernel_ok_def demo_accept_def)
  then have "routing_inv 3 ?s"
    using routing_server_safe [OF s(2) _ _ step] by (simp add: demo_accept_def)
  then show ?thesis using s(1) step by blast
qed

text \<open>A request that arrives over a cleared buffer from the one client that is ready adds its route, and
  every connected client is sent the listing of the new table; when the table is full nothing changes
  and nothing is sent.\<close>

theorem routing_request:
  assumes "routing_inv connection_socket s" and "fd \<in> watched (fds s)" and "fd \<noteq> 0" and "fd \<noteq> connection_socket"
    and "0 \<le> select_ret k" and "ready k = {fd}" and "incoming k fd = Some (request_of e)"
    and "plain_entry e" and "drop (length (request_of e)) (buffer s) = Some NUL # tail"
  shows "\<exists>s' out. routing_server_step connection_socket k s = Inr (s', out) \<and>
    routes (routing s') = take 10 (routes (routing s) @ [e]) \<and> fds s' = fds s \<and>
    out = (if length (routes (routing s)) < 10
      then map (\<lambda>fd. (fd, concat (map route_line (routes (routing s'))))) (filter (\<lambda>fd. 0 < fd \<and> fd \<noteq> connection_socket) (fds s))
      else [])"
  using request_lemma [OF assms] by blast

definition entry2 :: RouteEntry where
  "entry2 = \<lparr>destination = ''10.0.0.0'', mask = ''255.0.0.0'', gateway = ''10.0.0.1'', oif = ''lo''\<rparr>"

lemma plain_entry2: "plain_entry entry2"
  by (simp add: plain_entry_def entry2_def wf_entry_def plain_word_def isspace_def)

lemma request_entry2: "request_of entry2 = ''10.0.0.0 255.0.0.0 10.0.0.1 lo''"
  by (simp add: request_of_def entry2_def route_request_def)

definition demo_server :: routing_server where
  "demo_server = \<lparr>fds = add_monitor_fd_set 4 (add_monitor_fd_set 0 init_monitor_fd_set),
     routing = init_routing_table routing_globals, buffer = replicate 260 (Some NUL)\<rparr>"

definition demo_request :: routing_kernel where
  "demo_request = \<lparr>select_ret = 1, ready = {4}, accept_ret = - 1, fcntl_ok = True,
     incoming = (\<lambda>_. Some (request_of entry2))\<rparr>"

theorem routing_request_witness:
  "\<exists>s' out. routing_server_step 3 demo_request demo_server = Inr (s', out) \<and> routes (routing s') = [entry2]"
proof -
  have inv: "routing_inv 3 demo_server"
    using monitor_of_two [of 4] by (simp add: routing_inv_def demo_server_def)
  have "drop 30 (replicate 260 (Some NUL)) = Some NUL # replicate 229 (Some NUL)"
    by (simp add: numeral_eq_Suc)
  then have "\<exists>s' out. routing_server_step 3 demo_request demo_server = Inr (s', out) \<and>
      routes (routing s') = take 10 (routes (routing demo_server) @ [entry2])"
    using routing_request [OF inv, of 4 demo_request entry2 "replicate 229 (Some NUL)"] plain_entry2
      monitor_of_two [of 4]
    by (auto simp: demo_request_def demo_server_def request_entry2)
  then show ?thesis by (simp add: demo_server_def)
qed

text \<open>The route that a user types into the update client, four words on a line, is sent as a request
  that fits the client's buffer and that the server's \<open>sscanf\<close> reads back as the same entry.\<close>

theorem update_client_roundtrip:
  assumes "plain_entry e" and "destination e \<noteq> ''exit''" and "isspace c"
  shows "\<exists>vars. update_client_round old
      (destination e @ CHR '' '' # mask e @ CHR '' '' # gateway e @ CHR '' '' # oif e @ c # rest)
        = Inr (Some (request_of e), vars, c # rest)
    \<and> parse_route (request_of e) = Inr (Some e) \<and> length (request_of e) < 260"
proof -
  have wf: "wf_entry e" and words: "plain_word (destination e)" "plain_word (mask e)"
    "plain_word (gateway e)" "plain_word (oif e)"
    using assms(1) by (simp_all add: plain_entry_def)
  have ne: "destination e \<noteq> []" "mask e \<noteq> []" "gateway e \<noteq> []" "oif e \<noteq> []"
    using words by (simp_all add: plain_word_def)
  have len: "length (destination e) < 64" "length (mask e) < 64" "length (gateway e) < 64" "length (oif e) < 64"
    using wf by (simp_all add: wf_entry_def)
  obtain d m g oi where old: "old = (d, m, g, oi)" by (cases old) auto
  show ?thesis
    unfolding old
    using scan_plain_word(1) [OF words(1), of "CHR '' '' # mask e @ CHR '' '' # gateway e @ CHR '' '' # oif e @ c # rest"]
      scan_plain_word(2) [OF words(2), of "CHR '' '' # gateway e @ CHR '' '' # oif e @ c # rest"]
      scan_plain_word(2) [OF words(3), of "CHR '' '' # oif e @ c # rest"]
      scan_plain_word(2) [OF words(4), of "c # rest"] assms(2,3) ne len
      parse_request [OF assms(1), of "[]"] request_text(2) [OF wf]
    by (simp add: update_client_round_def scanf_64_def request_of_def)
qed

theorem update_client_roundtrip_witness:
  "\<exists>vars. update_client_round (None, None, None, None) (''10.0.0.0 255.0.0.0 10.0.0.1 lo'' @ [newline])
     = Inr (Some (request_of entry2), vars, [newline])"
  using update_client_roundtrip [OF plain_entry2, of newline "(None, None, None, None)" "[]"]
  by (auto simp: entry2_def isspace_def)

text \<open>The server's buffer is not cleared between requests.  A request that is not longer than the one
  before it is read with the tail of the older one attached, and the first request after the start
  is read past its end into memory that was never written.\<close>

theorem routing_stale_buffer:
  assumes "NUL \<notin> set old" and "NUL \<notin> set msg" and "length msg \<le> length old" and "length old < 260"
    and "msg \<noteq> []" and "incoming k fd = Some msg"
    and "routing_server_start connection_socket True 0 0 = Inr s"
  shows "string_in (read_into (read_into (replicate 260 (Some NUL)) old) msg) = Inr (msg @ drop (length msg) old)
    \<and> handle_client connection_socket k fd (s, []) = Inl Uninitialised"
proof -
  have "buffer s = replicate 260 None"
    using assms(7) by (auto simp: routing_server_start_def Let_def split: if_splits)
  moreover obtain n where "260 - length msg = Suc n" using assms(3,4) by (cases "260 - length msg") auto
  ultimately have "read_into (buffer s) msg = map Some msg @ None # replicate n None"
    by (simp add: read_into_eq)
  then have "string_in (read_into (buffer s) msg) = Inl Uninitialised"
    using string_in_uninitialised [OF assms(2)] by simp
  then show ?thesis
    using read_shorter [OF assms(1-4)] assms(5,6) by (simp add: handle_client_def Let_def)
qed

text \<open>The route with interface \<open>lo\<close> is stored with the interface \<open>loh0\<close>.\<close>

theorem routing_stale_buffer_witness:
  "parse_route (projr (string_in (read_into (read_into (replicate 260 (Some NUL))
       ''10.1.0.0 255.0.0.0 10.1.0.1 eth0'') (request_of entry2))))
     = Inr (Some (entry2\<lparr>oif := ''loh0''\<rparr>))"
proof -
  obtain s where s: "routing_server_start 3 True 0 0 = Inr s"
    using routing_start_lemma [of 3 0 0] by auto
  have "string_in (read_into (read_into (replicate 260 (Some NUL)) ''10.1.0.0 255.0.0.0 10.1.0.1 eth0'') (request_of entry2))
      = Inr (request_of (entry2\<lparr>oif := ''loh0''\<rparr>))"
    using routing_stale_buffer [of "''10.1.0.0 255.0.0.0 10.1.0.1 eth0''" "request_of entry2" demo_request 4 3 s] s
    by (simp add: request_entry2 demo_request_def) (simp add: request_of_def entry2_def route_request_def)
  moreover have "plain_entry (entry2\<lparr>oif := ''loh0''\<rparr>)"
    by (simp add: plain_entry_def entry2_def wf_entry_def plain_word_def isspace_def)
  ultimately show ?thesis using parse_request [of "entry2\<lparr>oif := ''loh0''\<rparr>" "[]"] by simp
qed

section \<open>Runs of the server\<close>

definition routing_legal :: "int \<Rightarrow> routing_kernel \<Rightarrow> routing_server \<Rightarrow> bool" where
  "routing_legal connection_socket k s \<longleftrightarrow> routing_kernel_ok k s \<and> accept_ret k \<noteq> connection_socket"

text \<open>A complete listing of a well-formed table to a client.\<close>

definition routing_message :: "int \<Rightarrow> int \<times> string \<Rightarrow> bool" where
  "routing_message connection_socket m \<longleftrightarrow> message_ok connection_socket {fst m} m"

definition routing_starts :: "int \<Rightarrow> routing_server \<Rightarrow> bool" where
  "routing_starts connection_socket s \<longleftrightarrow> (\<exists>bind_ret listen_ret.
     routing_server_start connection_socket True bind_ret listen_ret = Inr s) \<and> 0 < connection_socket \<and> connection_socket < 1024"

interpretation routing_loop: server "routing_starts connection_socket" "routing_server_step connection_socket"
  "routing_legal connection_socket" "routing_inv connection_socket" "routing_message connection_socket"
  for connection_socket :: int
proof unfold_locales
  fix s
  assume "routing_starts connection_socket s"
  then obtain bind_ret listen_ret where start: "routing_server_start connection_socket True bind_ret listen_ret = Inr s"
    and socket: "0 < connection_socket" "connection_socket < 1024"
    by (auto simp: routing_starts_def)
  then have "bind_ret \<noteq> - 1" "listen_ret \<noteq> - 1" by (simp_all add: routing_server_start_def split: if_splits)
  from routing_start_lemma [OF socket this] start show "routing_inv connection_socket s"
    by (metis sum.inject(2))
next
  fix s k s' out
  assume "routing_inv connection_socket s" "routing_legal connection_socket k s" "routing_server_step connection_socket k s = Inr (s', out)"
  then have "routing_inv connection_socket s' \<and> (\<forall>m \<in> set out. message_ok connection_socket (insert (accept_ret k) (watched (fds s))) m)"
    using routing_step_safe unfolding routing_legal_def by blast
  then show "routing_inv connection_socket s'" "list_all (routing_message connection_socket) out"
    by (auto simp: list_all_iff routing_message_def message_ok_def)
qed

text \<open>Over any run of the routing server the descriptor set stays sound and the table well-formed with at
  most ten entries, and whatever is sent is the complete listing of a well-formed table, shorter than the
  message buffer, never to standard input or the listening socket.\<close>

theorem routing_server_run:
  assumes "routing_server_start connection_socket True bind_ret listen_ret = Inr s"
    and "0 < connection_socket" and "connection_socket < 1024"
    and "server_run (routing_server_step connection_socket) (routing_legal connection_socket) s out s'"
  shows "routing_inv connection_socket s' \<and> list_all (routing_message connection_socket) out"
  using routing_loop.run_safe assms unfolding routing_starts_def by blast

theorem routing_server_run_witness:
  "\<exists>s s'. routing_server_start 3 True 0 0 = Inr s
    \<and> server_run (routing_server_step 3) (routing_legal 3) s [(4, serialize_table (routing s))] s' \<and> routing_inv 3 s'"
proof -
  obtain s where s: "routing_server_start 3 True 0 0 = Inr s" "routing_inv 3 s" "watched (fds s) = {0, 3}"
    using routing_start_lemma [of 3 0 0] by auto
  have "routing_server_step 3 demo_accept s = Inr (s\<lparr>fds := add_monitor_fd_set 4 (fds s)\<rparr>, [(4, serialize_table (routing s))])"
    using refresh_ok [OF s(2)]
    by (simp add: routing_server_step_def demo_accept_def set_socket_non_blocking_def send_routing_table_to_client_def)
  moreover have "routing_legal 3 demo_accept s"
    using s(3) by (simp add: routing_legal_def routing_kernel_ok_def demo_accept_def)
  ultimately have run: "server_run (routing_server_step 3) (routing_legal 3) s [(4, serialize_table (routing s))]
      (s\<lparr>fds := add_monitor_fd_set 4 (fds s)\<rparr>)"
    by (intro server_run_one)
  then show ?thesis using routing_server_run [OF s(1) _ _ run] s(1) by auto
qed

end
