(* ===== verification/Routing_History.thy ===== *)
theory Routing_History
  imports Routing_Server "HOL-Library.Sublist"
begin

text \<open>
  What the clients of \<^verbatim>\<open>multiplex-routinginfo/routing_server.c\<close> see of the table over a run.  For them the
  server is a log to which routes are appended: every message is the listing of a prefix of the log, the
  prefixes only grow, and a client that is still connected has been sent the current one last.
  \<^verbatim>\<open>routing_client.c\<close> prints the messages it is sent, however the stream is cut into \<open>read\<close>s.
\<close>

section \<open>The log\<close>

definition listing :: "RouteEntry list \<Rightarrow> string" where
  "listing es = concat (map route_line es)"

text \<open>The last message to a descriptor.\<close>

primrec last_sent :: "int \<Rightarrow> (int \<times> string) list \<Rightarrow> string option" where
  "last_sent fd [] = None"
| "last_sent fd (m # out) =
    (case last_sent fd out of None \<Rightarrow> if fst m = fd then Some (snd m) else None | Some t \<Rightarrow> Some t)"

text \<open>The messages between two states list prefixes of the table that grow from the one to the other.\<close>

definition logged :: "routing_server \<Rightarrow> (int \<times> string) list \<Rightarrow> routing_server \<Rightarrow> bool" where
  "logged s out s' \<longleftrightarrow> prefix (routes (routing s)) (routes (routing s')) \<and>
     (\<exists>ns. list_all2 (\<lambda>m n. snd m = listing (take n (routes (routing s')))) out ns \<and> sorted ns
        \<and> set ns \<subseteq> {length (routes (routing s))..length (routes (routing s'))})"

text \<open>Every client that is connected afterwards has the current table, or nothing has changed for it.\<close>

definition current :: "int \<Rightarrow> routing_server \<Rightarrow> (int \<times> string) list \<Rightarrow> routing_server \<Rightarrow> bool" where
  "current connection_socket s out s' \<longleftrightarrow> (\<forall>fd \<in> watched (fds s') - {0, connection_socket}.
     last_sent fd out = Some (listing (routes (routing s')))
     \<or> last_sent fd out = None \<and> fd \<in> watched (fds s) \<and> routes (routing s') = routes (routing s))"

lemma last_sent_append:
  "last_sent fd (out @ out') = (case last_sent fd out' of None \<Rightarrow> last_sent fd out | Some t \<Rightarrow> Some t)"
  by (induction out) (auto split: option.splits)

lemma last_sent_all:
  "last_sent fd (map (\<lambda>fd. (fd, t)) fds') = (if fd \<in> set fds' then Some t else None)"
  by (induction fds') auto

lemma logged_refl: "logged s [] s"
  by (simp add: logged_def)

lemma logged_trans:
  assumes "logged s out s'" and "logged s' out' s''"
  shows "logged s (out @ out') s''"
proof -
  obtain ns ns' where
    1: "list_all2 (\<lambda>m n. snd m = listing (take n (routes (routing s')))) out ns" "sorted ns"
      "set ns \<subseteq> {length (routes (routing s))..length (routes (routing s'))}" and
    2: "list_all2 (\<lambda>m n. snd m = listing (take n (routes (routing s'')))) out' ns'" "sorted ns'"
      "set ns' \<subseteq> {length (routes (routing s'))..length (routes (routing s''))}"
    using assms unfolding logged_def by blast
  have pre: "prefix (routes (routing s)) (routes (routing s'))" "prefix (routes (routing s')) (routes (routing s''))"
    using assms by (simp_all add: logged_def)
  obtain zs where zs: "routes (routing s'') = routes (routing s') @ zs" using pre(2) by (auto simp: prefix_def)
  have "list_all2 (\<lambda>m n. snd m = listing (take n (routes (routing s'')))) out ns"
    using 1 by (auto simp: list_all2_conv_all_nth zs) (metis atLeastAtMost_iff diff_is_0_eq nth_mem subsetD take0 append_Nil2)
  then have "list_all2 (\<lambda>m n. snd m = listing (take n (routes (routing s'')))) (out @ out') (ns @ ns')"
    using 2(1) by (rule list_all2_appendI)
  moreover have "sorted (ns @ ns')" using 1(2,3) 2(2,3) by (fastforce simp: sorted_append)
  moreover have "set (ns @ ns') \<subseteq> {length (routes (routing s))..length (routes (routing s''))}"
    using 1(3) 2(3) prefix_length_le [OF pre(1)] prefix_length_le [OF pre(2)] by fastforce
  ultimately show ?thesis using prefix_order.trans [OF pre] unfolding logged_def by blast
qed

lemma current_refl: "current connection_socket s [] s"
  by (simp add: current_def)

lemma current_trans:
  assumes "current connection_socket s out s'" and "current connection_socket s' out' s''"
  shows "current connection_socket s (out @ out') s''"
  unfolding current_def
proof
  fix fd assume fd: "fd \<in> watched (fds s'') - {0, connection_socket}"
  have "last_sent fd out' = Some (listing (routes (routing s''))) \<or>
      last_sent fd out' = None \<and> fd \<in> watched (fds s') \<and> routes (routing s'') = routes (routing s')"
    using assms(2) fd unfolding current_def by blast
  moreover have "last_sent fd out = Some (listing (routes (routing s'))) \<or>
      last_sent fd out = None \<and> fd \<in> watched (fds s) \<and> routes (routing s') = routes (routing s)"
    if "fd \<in> watched (fds s')"
    using assms(1) fd that unfolding current_def by blast
  ultimately show "last_sent fd (out @ out') = Some (listing (routes (routing s'')))
     \<or> last_sent fd (out @ out') = None \<and> fd \<in> watched (fds s) \<and> routes (routing s'') = routes (routing s)"
    unfolding last_sent_append by (elim disjE conjE) simp_all
qed

section \<open>One iteration\<close>

lemma send_all_history:
  assumes "routing_inv connection_socket s" and "wf_routing rt"
    and "prefix (routes (routing s)) (routes rt)"
  shows "logged s (send_routing_table_to_clients rt (fds s) connection_socket) (s\<lparr>buffer := b, routing := rt\<rparr>)"
    and "current connection_socket s (send_routing_table_to_clients rt (fds s) connection_socket) (s\<lparr>buffer := b, routing := rt\<rparr>)"
proof -
  let ?to = "filter (\<lambda>fd. 0 < fd \<and> fd \<noteq> connection_socket) (fds s)"
  have out: "send_routing_table_to_clients rt (fds s) connection_socket = map (\<lambda>fd. (fd, listing (routes rt))) ?to"
    using serialize_lemma(1) [OF assms(2)] by (simp add: send_routing_table_to_clients_def listing_def)
  show "logged s (send_routing_table_to_clients rt (fds s) connection_socket) (s\<lparr>buffer := b, routing := rt\<rparr>)"
    using assms(3) prefix_length_le [OF assms(3)] unfolding logged_def out
    by (auto intro!: exI [of _ "replicate (length ?to) (length (routes rt))"] simp: list_all2_conv_all_nth)
  have "0 \<le> fd" if "fd \<in> watched (fds s)" for fd
    using assms(1) that by (auto simp: routing_inv_def wf_monitor_def)
  then have "\<forall>fd \<in> watched (fds s) - {0, connection_socket}. fd \<in> set ?to"
    by (force simp: watched_def)
  then show "current connection_socket s (send_routing_table_to_clients rt (fds s) connection_socket) (s\<lparr>buffer := b, routing := rt\<rparr>)"
    unfolding current_def out last_sent_all by simp
qed

lemma quiet_history:
  assumes "watched (fds s') \<subseteq> watched (fds s)" and "routing s' = routing s"
  shows "logged s [] s' \<and> current connection_socket s [] s'"
  using assms by (auto simp: logged_def current_def)

lemma handle_client_history:
  assumes inv: "routing_inv connection_socket s"
    and res: "handle_client connection_socket k fd (s, out) = Inr (s', out')"
  shows "\<exists>sent. out' = out @ sent \<and> logged s sent s' \<and> current connection_socket s sent s'"
proof (cases "incoming k fd = None \<or> incoming k fd = Some []")
  case True
  then have "s' = s\<lparr>fds := remove_monitor_fd_set fd (fds s)\<rparr>" "out' = out"
    using res by (auto simp: handle_client_def Let_def)
  moreover have "watched (remove_monitor_fd_set fd (fds s)) \<subseteq> watched (fds s)"
    using inv watched_remove [OF wf_distinct, of "fds s" fd] by (auto simp: routing_inv_def)
  ultimately show ?thesis using quiet_history [of s' s] by simp
next
  case False
  then obtain msg where msg: "incoming k fd = Some msg" "msg \<noteq> []" by (cases "incoming k fd") auto
  let ?s = "s\<lparr>buffer := read_into (buffer s) msg\<rparr>"
  from res msg obtain str entry where str: "string_in (buffer ?s) = Inr str" "parse_route str = Inr entry"
    and rest: "(case entry of
       None \<Rightarrow> if get_routing_table_size (routing s) < 10 then Inl Uninitialised else Inr (?s, out)
     | Some new_entry \<Rightarrow>
         (case add_route new_entry (routing s) of (rt, ok) \<Rightarrow>
            if ok \<noteq> 0
            then Inr (?s\<lparr>routing := rt\<rparr>, out @ send_routing_table_to_clients rt (fds ?s) connection_socket)
            else Inr (?s, out))) = Inr (s', out')"
    by (auto simp: handle_client_def rbind_eq_Inr Let_def)
  have rt: "wf_routing (routing s)" using inv by (simp add: routing_inv_def)
  show ?thesis
  proof (cases "entry = None \<or> (\<exists>e. entry = Some e \<and> snd (add_route e (routing s)) = 0)")
    case True
    then have "s' = ?s \<and> out' = out" using rest by (auto split: prod.splits if_splits)
    then show ?thesis using quiet_history [of ?s s] by simp
  next
    case False
    then obtain e where e: "entry = Some e" "snd (add_route e (routing s)) \<noteq> 0" by auto
    let ?rt = "fst (add_route e (routing s))"
    have s': "s' = ?s\<lparr>routing := ?rt\<rparr>" "out' = out @ send_routing_table_to_clients ?rt (fds s) connection_socket"
      using rest e by (auto split: prod.splits)
    have "wf_entry e" using parse_route_wf str string_in_NUL_free e(1) by blast
    then have "wf_routing ?rt" by (rule wf_add_route [OF rt])
    moreover have "length (routes (routing s)) < 10" using add_route_full [OF rt, of e] e(2) by (cases "length (routes (routing s)) < 10") simp_all
    then have "prefix (routes (routing s)) (routes ?rt)" using add_route_room [OF rt, of e] by auto
    ultimately show ?thesis using send_all_history [OF inv] s' by auto
  qed
qed

lemma handle_slots_history:
  assumes inv: "routing_inv connection_socket s" and k: "\<forall>fd msg. incoming k fd = Some msg \<longrightarrow> length msg \<le> 260"
    and "for_to 0 n (\<lambda>i r. rbind r (handle_slot connection_socket k i)) (Inr (s, [])) = Inr (s', out)"
  shows "logged s out s' \<and> current connection_socket s out s'"
  using assms(3)
proof (induction n arbitrary: s' out)
  case (Suc n)
  then obtain s1 out1 where first: "for_to 0 n (\<lambda>i r. rbind r (handle_slot connection_socket k i)) (Inr (s, [])) = Inr (s1, out1)"
    and slot: "handle_slot connection_socket k n (s1, out1) = Inr (s', out)"
    by (auto simp: for_to_Suc rbind_eq_Inr)
  have inv1: "routing_inv connection_socket s1" using handle_slots_safe [OF inv k, of n] first by simp
  have "\<exists>sent. out = out1 @ sent \<and> logged s1 sent s' \<and> current connection_socket s1 sent s'"
  proof (cases "fds s1 ! n \<noteq> - 1 \<and> fds s1 ! n \<in> ready k")
    case True
    then have "handle_client connection_socket k (fds s1 ! n) (s1, out1) = Inr (s', out)"
      using slot by (simp add: handle_slot_def)
    then show ?thesis by (rule handle_client_history [OF inv1])
  next
    case False
    then have "s' = s1 \<and> out = out1" using slot by (simp add: handle_slot_def Let_def split: if_splits)
    then show ?thesis using logged_refl current_refl by auto
  qed
  then show ?case using Suc.IH [OF first] logged_trans current_trans by blast
qed (simp add: logged_refl current_refl)

lemma step_history:
  assumes inv: "routing_inv connection_socket s" and k: "routing_legal connection_socket k s"
    and res: "routing_server_step connection_socket k s = Inr (s', out)"
  shows "logged s out s' \<and> current connection_socket s out s'"
proof -
  have k': "0 \<le> accept_ret k" "\<forall>fd msg. incoming k fd = Some msg \<longrightarrow> length msg \<le> 260"
    using k by (simp_all add: routing_legal_def routing_kernel_ok_def)
  consider "connection_socket \<in> ready k" | "connection_socket \<notin> ready k" "0 \<in> ready k"
    | "connection_socket \<notin> ready k" "0 \<notin> ready k" by blast
  then show ?thesis
  proof cases
    case 1
    then have s': "s' = s\<lparr>fds := add_monitor_fd_set (accept_ret k) (fds s)\<rparr>"
      and out: "out = [(accept_ret k, listing (routes (routing s)))]"
      using res refresh_ok [OF inv] serialize_lemma(1) [of "routing s"] inv
      by (auto simp: routing_server_step_def send_routing_table_to_client_def rbind_eq_Inr listing_def routing_inv_def
          split: if_splits)
    have "watched (fds s') \<subseteq> insert (accept_ret k) (watched (fds s))"
      using watched_add [of "accept_ret k" "fds s"] k'(1) by (simp add: s' subset_insertI)
    then have "current connection_socket s out s'" by (auto simp: current_def s' out)
    moreover have "logged s out s'"
      unfolding logged_def s' out by (auto intro!: exI [of _ "[length (routes (routing s))]"])
    ultimately show ?thesis by simp
  next
    case 2
    then have "out = []" "\<exists>buf. s' = s\<lparr>buffer := buf\<rparr>"
      using res refresh_ok [OF inv]
      by (auto simp: routing_server_step_def rbind_eq_Inr Let_def split: if_splits)
    then show ?thesis using quiet_history [of s' s] by auto
  next
    case 3
    then have "for_to 0 32 (\<lambda>i r. rbind r (handle_slot connection_socket k i)) (Inr (s, [])) = Inr (s', out)"
      using res refresh_ok [OF inv] by (auto simp: routing_server_step_def split: if_splits)
    then show ?thesis by (rule handle_slots_history [OF inv k'(2)])
  qed
qed

lemma run_log:
  assumes "server_run (routing_server_step connection_socket) (routing_legal connection_socket) s out s'"
    and "routing_inv connection_socket s"
  shows "logged s out s' \<and> current connection_socket s out s'"
  by (rule routing_loop.run_history [OF assms, of "\<lambda>s out s'. logged s out s' \<and> current connection_socket s out s'"])
    (use logged_refl current_refl logged_trans current_trans step_history in blast)+

section \<open>The results\<close>

text \<open>C12: Over any run the server is a log for its clients: the table before the run is a prefix of the
  table after it, which has at most ten entries, and the messages sent in between are, in their order,
  listings of growing prefixes of the latter, each shorter than the message buffer and none to standard
  input or the listening socket.  No client ever sees two tables that disagree, or an older one after a newer.\<close>

theorem routing_server_is_log:
  assumes "server_run (routing_server_step connection_socket) (routing_legal connection_socket) s out s'"
    and "routing_inv connection_socket s"
  shows "\<exists>new ns. routes (routing s') = routes (routing s) @ new \<and> length (routes (routing s')) \<le> 10
    \<and> routing_inv connection_socket s' \<and> (\<forall>m \<in> set out. length (snd m) < 1024 \<and> fst m \<notin> {0, connection_socket})
    \<and> map snd out = map (\<lambda>n. listing (take n (routes (routing s')))) ns
    \<and> sorted ns \<and> set ns \<subseteq> {length (routes (routing s))..length (routes (routing s'))}"
proof -
  have "logged s out s'" using run_log [OF assms] by simp
  then obtain new ns where "routes (routing s') = routes (routing s) @ new"
      "list_all2 (\<lambda>m n. snd m = listing (take n (routes (routing s')))) out ns" "sorted ns"
      "set ns \<subseteq> {length (routes (routing s))..length (routes (routing s'))}"
    by (auto simp: logged_def prefix_def)
  moreover from this(2) have "map snd out = map (\<lambda>n. listing (take n (routes (routing s')))) ns"
    by (simp add: list_eq_iff_nth_eq list_all2_conv_all_nth)
  moreover have inv: "routing_inv connection_socket s'" and "list_all (routing_message connection_socket) out"
    using routing_loop.run_keeps [OF assms] by simp_all
  then have "\<forall>m \<in> set out. length (snd m) < 1024 \<and> fst m \<notin> {0, connection_socket}"
    by (auto simp: list_all_iff routing_message_def message_ok_def)
  moreover have "wf_routing (routing s')" using inv by (simp add: routing_inv_def)
  then have "length (routes (routing s')) \<le> 10" by (simp add: length_routes) (simp add: wf_routing_def)
  ultimately show ?thesis using inv by blast
qed

text \<open>C15: At every moment of a run from the start, each client in the descriptor set has last been sent the
  listing of the table as it is now.\<close>

theorem routing_clients_current:
  assumes "routing_server_start connection_socket True bind_ret listen_ret = Inr s"
    and "0 < connection_socket" and "connection_socket < 1024"
    and "server_run (routing_server_step connection_socket) (routing_legal connection_socket) s out s'"
    and "fd \<in> watched (fds s')" and "fd \<noteq> 0" and "fd \<noteq> connection_socket"
  shows "last_sent fd out = Some (listing (routes (routing s')))"
proof -
  have "bind_ret \<noteq> - 1" "listen_ret \<noteq> - 1" using assms(1) by (simp_all add: routing_server_start_def split: if_splits)
  then have "routing_inv connection_socket s" "watched (fds s) = {0, connection_socket}"
    using routing_start_lemma [OF assms(2,3), of bind_ret listen_ret] assms(1) by auto
  then show ?thesis using run_log [OF assms(4)] assms(5-7) by (auto simp: current_def)
qed

lemma demo_history:
  "\<exists>s s'. routing_server_start 3 True 0 0 = Inr s \<and> routing_inv 3 s
    \<and> server_run (routing_server_step 3) (routing_legal 3) s [(4, serialize_table (routing s))] s'
    \<and> 4 \<in> watched (fds s') \<and> routes (routing s') = [entry1]"
proof -
  obtain s where s: "routing_server_start 3 True 0 0 = Inr s" "routing_inv 3 s" "watched (fds s) = {0, 3}"
      "routes (routing s) = [entry1]"
    using routing_start_lemma [of 3 0 0] by auto
  let ?s = "s\<lparr>fds := add_monitor_fd_set 4 (fds s)\<rparr>"
  have "routing_server_step 3 demo_accept s = Inr (?s, [(4, serialize_table (routing s))])"
    using refresh_ok [OF s(2)]
    by (simp add: routing_server_step_def demo_accept_def set_socket_non_blocking_def send_routing_table_to_client_def)
  moreover have "routing_legal 3 demo_accept s"
    using s(3) by (simp add: routing_legal_def routing_kernel_ok_def demo_accept_def)
  ultimately have "server_run (routing_server_step 3) (routing_legal 3) s [(4, serialize_table (routing s))] ?s"
    by (intro server_run_one)
  moreover have "\<not> full_monitor (fds s)"
    using card_full [of "fds s"] s(2,3) by (auto simp: routing_inv_def)
  then have "4 \<in> watched (fds ?s)" by (simp add: watched_add)
  ultimately show ?thesis using s by (intro exI [of _ s] exI [of _ ?s]) simp
qed

theorem routing_server_is_log_witness:
  "\<exists>s s'. server_run (routing_server_step 3) (routing_legal 3) s [(4, serialize_table (routing s))] s'
    \<and> (\<exists>n. serialize_table (routing s) = listing (take n [entry1]))"
proof -
  obtain s s' where s: "routing_inv 3 s" "routes (routing s') = [entry1]"
      "server_run (routing_server_step 3) (routing_legal 3) s [(4, serialize_table (routing s))] s'"
    using demo_history by blast
  from routing_server_is_log [OF s(3,1)] obtain ns where
    "map snd [(4 :: int, serialize_table (routing s))] = map (\<lambda>n. listing (take n [entry1])) ns"
    unfolding s(2) by blast
  then have "\<exists>n. serialize_table (routing s) = listing (take n [entry1])" by (cases ns) auto
  then show ?thesis using s(3) by blast
qed

theorem routing_clients_current_witness:
  "\<exists>s s'. routing_server_start 3 True 0 0 = Inr s
    \<and> server_run (routing_server_step 3) (routing_legal 3) s [(4, serialize_table (routing s))] s'
    \<and> last_sent 4 [(4, serialize_table (routing s))] = Some (route_line entry1)"
proof -
  obtain s s' where s: "routing_server_start 3 True 0 0 = Inr s" "4 \<in> watched (fds s')" "routes (routing s') = [entry1]"
      "server_run (routing_server_step 3) (routing_legal 3) s [(4, serialize_table (routing s))] s'"
    using demo_history by blast
  from routing_clients_current [OF s(1) _ _ s(4,2)] s show ?thesis by (auto simp: listing_def)
qed

section \<open>The client that listens\<close>

lemma route_line_plain: "wf_entry e \<Longrightarrow> NUL \<notin> set (route_line e)"
  by (auto simp: wf_entry_def route_line_def)

lemma listing_plain: "wf_routing rt \<Longrightarrow> NUL \<notin> set (concat (map route_line (routes rt)))"
  using route_line_plain by (auto simp: wf_routing_def routes_def list_all_iff dest!: in_set_takeD)

text \<open>C32: A listening client shows all that the server has sent it: however the stream of the listings is cut
  into pieces of at most 259 characters, each \<open>read\<close> prints its piece in full, until the connection ends.\<close>

theorem routing_client_shows_listings:
  assumes "server_run (routing_server_step connection_socket) (routing_legal connection_socket) s out s'"
    and "routing_inv connection_socket s"
    and "concat chunks = concat (sent_to fd out)"
    and "list_all (\<lambda>c. c \<noteq> [] \<and> length c \<le> 259) chunks"
    and "2 \<le> argc" and "socket_ret \<noteq> - 1" and "connect_ret \<noteq> - 1"
  shows "routing_client_main argc socket_ret connect_ret (map Some chunks @ [Some []]) = Inr (map received chunks)"
proof -
  have "list_all (routing_message connection_socket) out" using routing_loop.run_keeps [OF assms(1,2)] by simp
  then have "list_all (\<lambda>m. NUL \<notin> set m) (sent_to fd out)"
    using listing_plain by (auto simp: list_all_iff routing_message_def message_ok_def)
  from routing_client.shows_stream(2) [OF assms(3) this assms(4)] show ?thesis
    using assms(5-7) by (simp add: routing_client_main_def)
qed

theorem routing_client_shows_listings_witness:
  "\<exists>s s'. server_run (routing_server_step 3) (routing_legal 3) s [(4, serialize_table (routing s))] s'
    \<and> routing_client_main 2 3 0 [Some (serialize_table (routing s)), Some []] = Inr [received (route_line entry1)]"
proof -
  obtain s s' where s: "routing_server_start 3 True 0 0 = Inr s" "routing_inv 3 s"
      "server_run (routing_server_step 3) (routing_legal 3) s [(4, serialize_table (routing s))] s'"
    using demo_history by blast
  have "routes (routing s) = [entry1]" using routing_start_lemma [of 3 0 0] s(1) by auto
  then have shown: "serialize_table (routing s) = route_line entry1"
    using serialize_lemma(1) [of "routing s"] s(2) by (simp add: routing_inv_def)
  have "route_line entry1 \<noteq> [] \<and> length (route_line entry1) \<le> 259"
    using length_route_line [OF wf_entry1] by (simp add: route_line_def)
  then show ?thesis
    using routing_client_shows_listings [OF s(3,2), of "[route_line entry1]" 4 2 3 0] s(3)
    by (intro exI [of _ s] exI [of _ s']) (simp add: shown)
qed

end
