(* ===== verification/Routing_Updates.thy ===== *)
theory Routing_Updates
  imports Routing_History
begin

text \<open>
  A session of \<^verbatim>\<open>routing_update_client.c\<close> with \<^verbatim>\<open>routing_server.c\<close>, from the lines the user types to the
  listings every client is sent.  It is as the programs mean it when no request is shorter than the one
  before it: the server does not clear its buffer, so what lies behind a shorter request is read with it
  (\<open>routing_stale_buffer\<close>).
\<close>

section \<open>The client\<close>

definition typed_line :: "RouteEntry \<Rightarrow> string" where
  "typed_line e = destination e @ '' '' @ mask e @ '' '' @ gateway e @ '' '' @ oif e @ [newline]"

definition typed_entry :: "RouteEntry \<Rightarrow> bool" where
  "typed_entry e \<longleftrightarrow> plain_entry e \<and> destination e \<noteq> ''exit''"

lemma scanf_space: "isspace c \<Longrightarrow> scanf_64 old (c # inp) = scanf_64 old inp"
  by (simp add: scanf_64_def scan_word_space)

lemma round_space: "isspace c \<Longrightarrow> update_client_round vars (c # inp) = update_client_round vars inp"
  by (cases vars) (simp add: update_client_round_def scanf_space)

lemma isspace_newline [simp]: "isspace newline"
  by (simp add: isspace_def)

lemma round_exit: "update_client_round vars (''exit'' @ [newline]) = Inr (None, apfst (\<lambda>_. Some ''exit'') vars, [newline])"
proof -
  have "scan_word (''exit'' @ [newline]) = (''exit'', [newline])"
    by (rule scan_word_word) (auto simp: isspace_def)
  then show ?thesis by (cases vars) (simp add: update_client_round_def scanf_64_def)
qed

lemma round_line:
  assumes "typed_entry e"
  shows "\<exists>vars'. update_client_round vars (typed_line e @ rest) = Inr (Some (request_of e), vars', newline # rest)"
  using update_client_roundtrip [of e newline vars rest] assms by (auto simp: typed_line_def typed_entry_def)

text \<open>A \<open>read\<close> that neither fails nor finds the connection closed.\<close>

abbreviation answered :: "string option \<Rightarrow> bool" where
  "answered reply \<equiv> reply \<noteq> None \<and> reply \<noteq> Some []"

lemma client_requests:
  assumes "list_all typed_entry es" and "list_all answered replies" and "inp = [] \<or> inp = [newline]"
  shows "update_client_loop vars (inp @ concat (map typed_line es) @ ''exit'' @ [newline]) replies =
    (if length replies < length es then Inl Exhausted else Inr (map request_of es))"
  using assms
proof (induction es arbitrary: vars replies inp)
  case Nil
  then show ?case using round_exit [of vars] by (auto simp: round_space update_client_loop.simps [of vars])
next
  case (Cons e es)
  obtain vars' where first:
    "update_client_round vars (inp @ typed_line e @ concat (map typed_line es) @ ''exit'' @ [newline])
      = Inr (Some (request_of e), vars', newline # concat (map typed_line es) @ ''exit'' @ [newline])"
    using round_line [of e vars "concat (map typed_line es) @ ''exit'' @ [newline]"] Cons.prems(1,3)
    by (auto simp: round_space)
  show ?case
  proof (cases replies)
    case Nil
    then show ?thesis using first by (simp add: update_client_loop.simps [of vars])
  next
    case (Cons reply rs)
    then obtain msg where msg: "reply = Some msg" "msg \<noteq> []" using Cons.prems(2) by (cases reply) auto
    have "update_client_loop vars' ([newline] @ concat (map typed_line es) @ ''exit'' @ [newline]) rs =
        (if length rs < length es then Inl Exhausted else Inr (map request_of es))"
      using Cons.prems by (intro Cons.IH) (simp_all add: \<open>replies = reply # rs\<close>)
    then show ?thesis using first by (simp add: update_client_loop.simps [of vars] \<open>replies = reply # rs\<close> msg)
  qed
qed

text \<open>What the \<open>read\<close>s of a client can return, one after each of its requests: \<open>pending\<close> has been sent to it and
  not been read, \<open>sent\<close> is what it is sent for each request.  A \<open>read\<close> takes a piece of at most 259
  characters of what is there; where there is nothing it does not return, so no list is possible.\<close>

fun readable :: "string \<Rightarrow> string list list \<Rightarrow> string option list \<Rightarrow> bool" where
  "readable pending [] replies \<longleftrightarrow> replies = []"
| "readable pending (msgs # sent) [] \<longleftrightarrow> False"
| "readable pending (msgs # sent) (reply # replies) \<longleftrightarrow>
    (case reply of
       None \<Rightarrow> False
     | Some piece \<Rightarrow> piece \<noteq> [] \<and> length piece \<le> 259 \<and> take (length piece) (pending @ concat msgs) = piece
         \<and> readable (drop (length piece) (pending @ concat msgs)) sent replies)"

lemma readable_answered: "readable pending sent replies \<Longrightarrow> list_all answered replies \<and> length replies = length sent"
  by (induction pending sent replies rule: readable.induct) (auto split: option.splits)

lemma readable_exists:
  "list_all (\<lambda>msgs. concat msgs \<noteq> []) sent \<Longrightarrow> \<exists>replies. readable pending sent replies"
proof (induction sent arbitrary: pending)
  case Nil
  show ?case by (intro exI [of _ "[]"]) simp
next
  case (Cons msgs sent)
  define there where "there = pending @ concat msgs"
  have "take 259 there \<noteq> []" using Cons.prems by (auto simp: there_def)
  moreover obtain replies where "readable (drop (length (take 259 there)) there) sent replies" using Cons by auto
  moreover have "take (length (take 259 there)) there = take 259 there" by (simp add: min_def)
  ultimately have "readable pending (msgs # sent) (Some (take 259 there) # replies)"
    unfolding readable.simps option.case there_def [symmetric] by simp
  then show ?case by blast
qed

lemma readable_blocked: "\<not> readable [] ([] # sent) replies"
  by (cases replies) (auto split: option.splits)

section \<open>The server\<close>

definition delivers :: "int \<Rightarrow> string \<Rightarrow> routing_kernel \<Rightarrow> bool" where
  "delivers fd request k \<longleftrightarrow> 0 \<le> select_ret k \<and> ready k = {fd} \<and> incoming k fd = Some request"

definition clear_from :: "nat \<Rightarrow> char option list \<Rightarrow> bool" where
  "clear_from n buf \<longleftrightarrow> drop n buf = replicate (260 - n) (Some NUL)"

lemma clear_read_into:
  assumes "clear_from n buf" and "n \<le> length msg"
  shows "drop (length msg) buf = replicate (260 - length msg) (Some NUL)" and "clear_from (length msg) (read_into buf msg)"
proof -
  have "drop (length msg) buf = drop (length msg - n) (drop n buf)" using assms(2) by simp
  also have "\<dots> = replicate (260 - length msg) (Some NUL)" using assms by (simp add: clear_from_def)
  finally show "drop (length msg) buf = replicate (260 - length msg) (Some NUL)" .
  then show "clear_from (length msg) (read_into buf msg)" by (simp add: clear_from_def read_into_eq)
qed

lemma one_listing:
  assumes "wf_monitor m" and "client \<in> watched m - {0, connection_socket}"
  shows "sent_to client (map (\<lambda>fd. (fd, t)) (filter (\<lambda>fd. 0 < fd \<and> fd \<noteq> connection_socket) m)) = [t]"
proof -
  have each: "distinct xs \<Longrightarrow> sent_to client (map (\<lambda>fd. (fd, t)) xs) = (if client \<in> set xs then [t] else [])" for xs
    by (induction xs) auto
  have "distinct (filter (\<lambda>fd. 0 < fd \<and> fd \<noteq> connection_socket) (filter (\<lambda>fd. fd \<noteq> - 1) m))"
    using wf_distinct [OF assms(1)] by (rule distinct_filter)
  moreover have "(\<lambda>fd. fd \<noteq> - 1 \<and> 0 < fd \<and> fd \<noteq> connection_socket) = (\<lambda>fd. 0 < fd \<and> fd \<noteq> connection_socket)" by auto
  ultimately have "distinct (filter (\<lambda>fd. 0 < fd \<and> fd \<noteq> connection_socket) m)" by (simp add: conj_commute)
  moreover have "0 < client" using assms by (fastforce simp: wf_monitor_def)
  ultimately show ?thesis using each assms(2) by (simp add: watched_def)
qed

text \<open>What each client is sent for the request number \<open>j\<close> after a moment with the routes \<open>old\<close>, when the routes
  are \<open>new\<close> in the end.\<close>

definition listing_after :: "RouteEntry list \<Rightarrow> RouteEntry list \<Rightarrow> nat \<Rightarrow> string list" where
  "listing_after old new j = (if length old + j < 10 then [listing (take (Suc (length old + j)) new)] else [])"

lemma requests_stored:
  assumes "routing_inv connection_socket s" and "fd \<in> watched (fds s)" and "fd \<noteq> 0" and "fd \<noteq> connection_socket"
    and "clear_from n (buffer s)" and "sorted (n # map (length \<circ> request_of) es)" and "list_all plain_entry es"
    and "list_all2 (\<lambda>e k. delivers fd (request_of e) k) es ks"
  shows "\<exists>s' outs. run_steps (routing_server_step connection_socket) ks s = Inr (s', outs)
    \<and> routes (routing s') = take 10 (routes (routing s) @ es) \<and> fds s' = fds s
    \<and> (\<forall>client \<in> watched (fds s) - {0, connection_socket}.
        map (sent_to client) outs = map (listing_after (routes (routing s)) (routes (routing s'))) [0..<length es])"
  using assms
proof (induction es arbitrary: ks s n)
  case Nil
  have "length (routes (routing s)) \<le> 10"
    using Nil.prems(1) by (simp add: routing_inv_def length_routes) (simp add: wf_routing_def)
  then show ?case using Nil.prems by simp
next
  case (Cons e es)
  obtain k ks' where ks: "ks = k # ks'" and k: "delivers fd (request_of e) k"
    and rest: "list_all2 (\<lambda>e k. delivers fd (request_of e) k) es ks'"
    using Cons.prems(8) by (auto simp: list_all2_Cons1)
  have e: "plain_entry e" and es: "list_all plain_entry es" using Cons.prems(7) by simp_all
  have len: "n \<le> length (request_of e)" "length (request_of e) \<le> 57"
    using Cons.prems(6) request_text(2) [of e] e by (simp_all add: plain_entry_def)
  note clear = clear_read_into [OF Cons.prems(5) len(1)]
  have tail: "drop (length (request_of e)) (buffer s) = Some NUL # replicate (259 - length (request_of e)) (Some NUL)"
    using len(2) by (simp add: clear(1) flip: replicate_Suc)
  obtain s1 out where step: "routing_server_step connection_socket k s = Inr (s1, out)"
    and s1: "routes (routing s1) = take 10 (routes (routing s) @ [e])" "fds s1 = fds s" "routing_inv connection_socket s1"
      "buffer s1 = read_into (buffer s) (request_of e)"
    and out: "out = (if length (routes (routing s)) < 10
      then map (\<lambda>fd. (fd, concat (map route_line (routes (routing s1))))) (filter (\<lambda>fd. 0 < fd \<and> fd \<noteq> connection_socket) (fds s))
      else [])"
    using request_lemma [OF Cons.prems(1-4) _ _ _ e tail, of k] k unfolding delivers_def by blast
  have "clear_from (length (request_of e)) (buffer s1)" using clear(2) by (simp add: s1)
  moreover have "sorted (length (request_of e) # map (length \<circ> request_of) es)" using Cons.prems(6) by (simp add: comp_def)
  ultimately obtain s' outs where run: "run_steps (routing_server_step connection_socket) ks' s1 = Inr (s', outs)"
    and s': "routes (routing s') = take 10 (routes (routing s1) @ es)" "fds s' = fds s1"
    and outs: "\<forall>client \<in> watched (fds s1) - {0, connection_socket}.
        map (sent_to client) outs = map (listing_after (routes (routing s1)) (routes (routing s'))) [0..<length es]"
    using Cons.IH [OF s1(3) _ Cons.prems(3,4) _ _ es rest] Cons.prems(2) s1(2) by metis
  have le: "length (routes (routing s)) \<le> 10"
    using Cons.prems(1) by (simp add: routing_inv_def length_routes) (simp add: wf_routing_def)
  have sent: "map (sent_to client) (out # outs) =
      map (listing_after (routes (routing s)) (routes (routing s'))) [0..<length (e # es)]"
    if client: "client \<in> watched (fds s) - {0, connection_socket}" for client
  proof (cases "length (routes (routing s)) < 10")
    case True
    then have r: "routes (routing s1) = routes (routing s) @ [e]" by (simp add: s1)
    then have pre: "take (Suc (length (routes (routing s)))) (routes (routing s')) = routes (routing s1)"
      using True by (simp add: s'(1) min_def)
    have "sent_to client out = [listing (routes (routing s1))]"
      using one_listing [of "fds s" client connection_socket] Cons.prems(1) client True by (simp add: out listing_def routing_inv_def)
    then have "sent_to client out = listing_after (routes (routing s)) (routes (routing s')) 0"
      using True by (simp add: listing_after_def pre)
    moreover have "listing_after (routes (routing s1)) (routes (routing s')) j = listing_after (routes (routing s)) (routes (routing s')) (Suc j)" for j
      by (simp add: listing_after_def r)
    ultimately show ?thesis using outs client s1(2) by (simp add: map_upt_Suc del: upt_Suc)
  next
    case False
    then have full: "routes (routing s1) = routes (routing s)" "out = []" "\<not> length (routes (routing s)) < 10"
      using le by (simp_all add: s1 out)
    then have "listing_after (routes (routing s)) rs j = []" for rs j by (simp add: listing_after_def)
    then show ?thesis using outs client s1(2) full(1,2) by (simp add: map_upt_Suc del: upt_Suc)
  qed
  have routes: "routes (routing s') = take 10 (routes (routing s) @ e # es)" by (simp add: s'(1) s1(1) take_Cons' min_def)
  have "run_steps (routing_server_step connection_socket) ks s = Inr (s', out # outs)" using step run by (simp add: ks)
  then show ?case using routes s1(2) s'(2) sent by (intro exI [of _ s'] exI [of _ "out # outs"] conjI ballI) simp_all
qed


section \<open>The session\<close>

text \<open>C21: A user types routes into the update client, one on a line, no shorter than the one before, and then
  \<open>exit\<close>, while the server, at a moment of a run at which its buffer is clear behind the first request,
  receives the requests one by one.  The server appends exactly the routes that were typed, up to its
  ten, and sends every client one listing after each that it stores, of the table as it is then.  The
  update client waits for an answer after each request: whatever pieces of the stream of listings its
  \<open>read\<close>s return, it sends all its requests in order and stops, and there are such pieces when the table
  has room for all routes.  When the table is full and the client has read all it was sent before, its
  first request is not answered and it waits for good.\<close>

theorem update_client_session:
  assumes "routing_server_start connection_socket True bind_ret listen_ret = Inr s"
    and "0 < connection_socket" and "connection_socket < 1024"
    and "server_run (routing_server_step connection_socket) (routing_legal connection_socket) s out t"
    and "fd \<in> watched (fds t)" and "fd \<noteq> 0" and "fd \<noteq> connection_socket" and "clear_from n (buffer t)"
    and "list_all typed_entry es" and "sorted (n # map (length \<circ> request_of) es)"
    and "2 \<le> argc" and "socket_ret \<noteq> - 1" and "connect_ret \<noteq> - 1"
    and "list_all2 (delivers fd) (map request_of es) ks"
  shows "\<exists>u outs. run_steps (routing_server_step connection_socket) ks t = Inr (u, outs)
    \<and> routes (routing u) = take 10 (routes (routing t) @ es) \<and> fds u = fds t
    \<and> (\<forall>client \<in> watched (fds t) - {0, connection_socket}.
        map (sent_to client) outs = map (listing_after (routes (routing t)) (routes (routing u))) [0..<length es])
    \<and> (\<forall>replies. readable pending (map (sent_to fd) outs) replies \<longrightarrow>
        update_client_main argc socket_ret connect_ret (concat (map typed_line es) @ ''exit'' @ [newline]) replies
          = Inr (map request_of es))
    \<and> (length (routes (routing t)) + length es \<le> 10 \<longrightarrow> (\<exists>replies. readable pending (map (sent_to fd) outs) replies))
    \<and> (length (routes (routing t)) = 10 \<and> es \<noteq> [] \<longrightarrow>
        \<not> (\<exists>replies. readable [] (map (sent_to fd) outs) replies)
        \<and> update_client_main argc socket_ret connect_ret (concat (map typed_line es) @ ''exit'' @ [newline]) [] = Inl Exhausted)"
proof -
  let ?inp = "concat (map typed_line es) @ ''exit'' @ [newline]"
  have ks: "list_all2 (\<lambda>e k. delivers fd (request_of e) k) es ks" using assms(14) by (simp add: list_all2_map1)
  have "routing_starts connection_socket s" using assms(1-3) by (auto simp: routing_starts_def)
  then have inv: "routing_inv connection_socket t" using routing_loop.run_safe assms(4) by blast
  have "list_all plain_entry es" using assms(9) by (auto simp: list_all_iff typed_entry_def)
  from requests_stored [OF inv assms(5-8,10) this ks] obtain u outs where
    run: "run_steps (routing_server_step connection_socket) ks t = Inr (u, outs)"
      "routes (routing u) = take 10 (routes (routing t) @ es)" "fds u = fds t"
    and all_sent: "\<forall>client \<in> watched (fds t) - {0, connection_socket}.
        map (sent_to client) outs = map (listing_after (routes (routing t)) (routes (routing u))) [0..<length es]"
    by blast
  then have sent: "map (sent_to fd) outs = map (listing_after (routes (routing t)) (routes (routing u))) [0..<length es]"
    using assms(5-7) by blast
  have client: "update_client_main argc socket_ret connect_ret ?inp replies =
      (if length replies < length es then Inl Exhausted else Inr (map request_of es))" if "list_all answered replies" for replies
    using client_requests [OF assms(9) that, of "[]"] assms(11-13) by (simp add: update_client_main_def)
  have "update_client_main argc socket_ret connect_ret ?inp replies = Inr (map request_of es)"
    if "readable pending (map (sent_to fd) outs) replies" for replies
    using readable_answered [OF that] client [of replies] sent by simp
  moreover have "\<exists>replies. readable pending (map (sent_to fd) outs) replies" if "length (routes (routing t)) + length es \<le> 10"
  proof (rule readable_exists)
    have full: "concat (listing_after (routes (routing t)) (routes (routing u)) j) \<noteq> []" if "j < length es" for j
    proof -
      have "length (routes (routing t)) + j < length (routes (routing u))" and room: "length (routes (routing t)) + j < 10"
        using that \<open>length (routes (routing t)) + length es \<le> 10\<close> by (simp_all add: run(2))
      then have "take (Suc (length (routes (routing t)) + j)) (routes (routing u)) \<noteq> []" by auto
      then have "listing (take (Suc (length (routes (routing t)) + j)) (routes (routing u))) \<noteq> []"
        by (cases "take (Suc (length (routes (routing t)) + j)) (routes (routing u))") (simp_all add: listing_def route_line_def)
      then show ?thesis using room by (simp add: listing_after_def)
    qed
    show "list_all (\<lambda>msgs. concat msgs \<noteq> []) (map (sent_to fd) outs)"
      unfolding sent list_all_iff set_map set_upt by (simp only: ball_simps) (intro ballI full, simp)
  qed
  moreover have "\<not> (\<exists>replies. readable [] (map (sent_to fd) outs) replies)"
    if full: "length (routes (routing t)) = 10" "es \<noteq> []"
  proof -
    obtain e es' where "es = e # es'" using full(2) by (cases es) auto
    then have "map (sent_to fd) outs = [] # map (\<lambda>j. listing_after (routes (routing t)) (routes (routing u)) (Suc j)) [0..<length es']"
      unfolding sent using full(1) by (simp add: map_upt_Suc listing_after_def del: upt_Suc)
    then show ?thesis using readable_blocked by simp
  qed
  moreover have "es \<noteq> [] \<longrightarrow> update_client_main argc socket_ret connect_ret ?inp [] = Inl Exhausted"
    using client [of "[]"] by simp
  ultimately show ?thesis using run all_sent by (intro exI [of _ u] exI [of _ outs]) blast
qed

text \<open>The operator presses the return key at the console of the server, which clears its buffer, a client
  connects, and a route is typed.\<close>

definition demo_console :: routing_kernel where
  "demo_console = \<lparr>select_ret = 1, ready = {0}, accept_ret = 4, fcntl_ok = True,
     incoming = (\<lambda>_. Some [newline])\<rparr>"

lemma demo_connected:
  "\<exists>s t out. routing_server_start 3 True 0 0 = Inr s \<and> server_run (routing_server_step 3) (routing_legal 3) s out t
    \<and> 4 \<in> watched (fds t) \<and> routes (routing t) = [entry1] \<and> clear_from 1 (buffer t)"
proof -
  obtain s where s: "routing_server_start 3 True 0 0 = Inr s" "routing_inv 3 s" "watched (fds s) = {0, 3}"
      "routes (routing s) = [entry1]"
    using routing_start_lemma [of 3 0 0] by auto
  let ?b = "read_into (replicate 260 (Some NUL)) [newline]"
  have b: "?b = map Some [newline] @ Some NUL # replicate 258 (Some NUL)"
    by (simp add: read_into_eq flip: replicate_Suc)
  then have "string_in ?b = Inr [newline]" by (simp only: b) (rule string_in_terminated, simp)
  then have one: "routing_server_step 3 demo_console s = Inr (s\<lparr>buffer := ?b\<rparr>, [])"
    using refresh_ok [OF s(2)] by (simp add: routing_server_step_def demo_console_def)
  let ?t = "s\<lparr>buffer := ?b, fds := add_monitor_fd_set 4 (fds s)\<rparr>"
  have two: "routing_server_step 3 demo_accept (s\<lparr>buffer := ?b\<rparr>) = Inr (?t, [(4, serialize_table (routing s))])"
    using refresh_ok [OF s(2)]
    by (simp add: routing_server_step_def demo_accept_def set_socket_non_blocking_def send_routing_table_to_client_def)
  have legal: "routing_legal 3 demo_console s" "routing_legal 3 demo_accept (s\<lparr>buffer := ?b\<rparr>)"
    using s(3) by (simp_all add: routing_legal_def routing_kernel_ok_def demo_accept_def demo_console_def)
  have "server_run (routing_server_step 3) (routing_legal 3) (s\<lparr>buffer := ?b\<rparr>) [(4, serialize_table (routing s))] ?t"
    using legal(2) two by (rule server_run_one)
  moreover have "server_run (routing_server_step 3) (routing_legal 3) s [] (s\<lparr>buffer := ?b\<rparr>)"
    using legal(1) one by (rule server_run_one)
  ultimately have "server_run (routing_server_step 3) (routing_legal 3) s ([] @ [(4, serialize_table (routing s))]) ?t"
    by (rule server_run_trans)
  moreover have "\<not> full_monitor (fds s)"
    using card_full [of "fds s"] s(2,3) by (auto simp: routing_inv_def)
  then have "4 \<in> watched (fds ?t)" by (simp add: watched_add)
  moreover have "clear_from 1 (buffer ?t)" unfolding clear_from_def by (simp add: b flip: replicate_Suc)
  ultimately show ?thesis using s by (intro exI [of _ s] exI [of _ ?t]) auto
qed

theorem update_client_session_witness:
  "\<exists>t u outs replies. routes (routing t) = [entry1]
    \<and> run_steps (routing_server_step 3) [demo_request] t = Inr (u, outs)
    \<and> routes (routing u) = [entry1, entry2] \<and> sent_to 4 (concat outs) = [route_line entry1 @ route_line entry2]
    \<and> readable (route_line entry1) (map (sent_to 4) outs) replies
    \<and> update_client_main 2 5 0 (''10.0.0.0 255.0.0.0 10.0.0.1 lo'' @ [newline] @ ''exit'' @ [newline]) replies
      = Inr [request_of entry2]"
proof -
  obtain s t out where s: "routing_server_start 3 True 0 0 = Inr s" "server_run (routing_server_step 3) (routing_legal 3) s out t"
    and t: "4 \<in> watched (fds t)" "routes (routing t) = [entry1]" "clear_from 1 (buffer t)"
    using demo_connected by blast
  have line: "concat (map typed_line [entry2]) @ ''exit'' @ [newline] = ''10.0.0.0 255.0.0.0 10.0.0.1 lo'' @ [newline] @ ''exit'' @ [newline]"
    by (simp add: typed_line_def entry2_def)
  have typed: "list_all typed_entry [entry2]" using plain_entry2 by (simp add: typed_entry_def entry2_def)
  have sorted: "sorted (1 # map (length \<circ> request_of) [entry2])" by (simp add: request_entry2)
  have delivered: "list_all2 (delivers 4) (map request_of [entry2]) [demo_request]" by (simp add: delivers_def demo_request_def)
  have numbers: "(0 :: int) < 3" "(3 :: int) < 1024" "(4 :: int) \<noteq> 0" "(4 :: int) \<noteq> 3" "2 \<le> (2 :: nat)" "(5 :: int) \<noteq> - 1" "(0 :: int) \<noteq> - 1"
    by simp_all
  obtain u outs where u: "run_steps (routing_server_step 3) [demo_request] t = Inr (u, outs)"
      "routes (routing u) = take 10 (routes (routing t) @ [entry2])"
      "\<forall>client \<in> watched (fds t) - {0, 3}. map (sent_to client) outs
        = map (listing_after (routes (routing t)) (routes (routing u))) [0..<length [entry2]]"
      "\<forall>replies. readable (route_line entry1) (map (sent_to 4) outs) replies \<longrightarrow>
        update_client_main 2 5 0 (concat (map typed_line [entry2]) @ ''exit'' @ [newline]) replies = Inr (map request_of [entry2])"
      "length (routes (routing t)) + length [entry2] \<le> 10 \<longrightarrow> (\<exists>replies. readable (route_line entry1) (map (sent_to 4) outs) replies)"
    using update_client_session [OF s(1) numbers(1,2) s(2) t(1) numbers(3,4) t(3) typed sorted numbers(5-7) delivered, of "route_line entry1"]
    by blast
  then obtain replies where replies: "readable (route_line entry1) (map (sent_to 4) outs) replies" using t(2) by auto
  have "map (sent_to 4) outs = [[route_line entry1 @ route_line entry2]]"
    using u(2,3) t(1,2) by (simp add: listing_after_def listing_def)
  then have "sent_to 4 (concat outs) = [route_line entry1 @ route_line entry2]" by (cases outs) auto
  then show ?thesis
    using u(1,2) u(4) [unfolded line] replies t(2)
    by (intro exI [of _ t] exI [of _ u] exI [of _ outs] exI [of _ replies]) simp
qed

end
