(* ===== verification/Http_Request.thy ===== *)
theory Http_Request
  imports C_String
begin

text \<open>
  The request side of \<^verbatim>\<open>http-setup/http-server.c\<close>: how the text a client sends becomes an
  \<open>HttpRequest\<close>.  The parser cuts the buffer into lines with \<open>strtok\<close>, which skips empty lines, so
  the blank line that ends the headers of a request is never seen.

  The results: what the parser does to every buffer, in terms of the lines of the text; a request
  that is written out is read back; every request that is returned is well-typed and has no body; a header
  that ends with its colon takes the text behind it as its value.
\<close>

section \<open>The code\<close>

text \<open>An array or a pair of pointers that is not written yet is \<open>None\<close>; a null \<open>body\<close> is \<open>None\<close>.\<close>

record Header =
  hkey :: string
  hval :: string

record HttpRequest =
  req_method :: "string option"
  uri :: "string option"
  version :: "string option"
  headers :: "Header option list"
  header_count :: nat
  body :: "string option"

definition new_request :: HttpRequest where
  "new_request = \<lparr>req_method = None, uri = None, version = None,
     headers = replicate 20 None, header_count = 0, body = None\<rparr>"

text \<open>The two characters at which the parser cuts.\<close>

abbreviation CRLF :: string where "CRLF \<equiv> [cr, newline]"

definition stored :: "string option \<Rightarrow> string option \<Rightarrow> string option" where
  "stored scanned old = (case scanned of None \<Rightarrow> old | Some w \<Rightarrow> Some w)"

definition parse_request_line :: "string \<Rightarrow> HttpRequest \<Rightarrow> c_error + HttpRequest" where
  "parse_request_line line request =
    rbind (sscanf_field 10 line) (\<lambda>(m, inp).
    rbind (sscanf_field 256 inp) (\<lambda>(u, inp).
    rbind (sscanf_field 10 inp) (\<lambda>(v, inp).
      Inr (request\<lparr>req_method := stored m (req_method request), uri := stored u (uri request),
                   version := stored v (version request)\<rparr>))))"

text \<open>
  The value starts two characters after the colon.  When the colon is the last character of the line,
  that is behind the zero byte that ends the line: \<open>after\<close> is what the buffer holds there.
\<close>

definition parse_header :: "string \<Rightarrow> string \<Rightarrow> Header option \<Rightarrow> c_error + Header option" where
  "parse_header line after header =
    (if CHR '':'' \<in> set line then
       let key = takeWhile (\<lambda>c. c \<noteq> CHR '':'') line;
           tail = drop (Suc (length key)) line
       in rbind (if tail = [] then c_string_of after else Inr (tl tail)) (\<lambda>val.
            Inr (Some \<lparr>hkey = key, hval = val\<rparr>))
     else Inr header)"

definition add_header_line :: "string \<Rightarrow> string \<Rightarrow> HttpRequest \<Rightarrow> c_error + HttpRequest" where
  "add_header_line line after request =
    (if header_count request < 20
     then rbind (parse_header line after (headers request ! header_count request)) (\<lambda>h.
            Inr (request\<lparr>headers := (headers request)[header_count request := h],
                         header_count := header_count request + 1\<rparr>))
     else Inr request)"

lemma strtok_decreases:
  "strtok s delims = Inr (Some (t, after), save) \<Longrightarrow> length save < length s"
proof -
  assume a: "strtok s delims = Inr (Some (t, after), save)"
  let ?r = "dropWhile (\<lambda>c. c \<in> set delims) s"
  have r: "?r \<noteq> []" "hd ?r \<noteq> NUL" and t: "t = takeWhile (\<lambda>c. c \<noteq> NUL \<and> c \<notin> set delims) ?r"
    and save: "length save \<le> length (drop (length t) ?r)"
    using a by (auto simp: strtok_def Let_def split: if_splits)
  have "hd ?r \<notin> set delims" using r(1) hd_dropWhile by fast
  then have "0 < length t" using r by (cases ?r) (auto simp: t)
  moreover have "0 < length ?r" using r(1) by simp
  ultimately have "length (drop (length t) ?r) < length ?r" by simp
  also have "\<dots> \<le> length s" by (rule length_dropWhile_le)
  finally show ?thesis using save by simp
qed

function parse_headers :: "string \<Rightarrow> HttpRequest \<Rightarrow> c_error + string \<times> HttpRequest" where
  "parse_headers save request =
    (case strtok save CRLF of
       Inl e \<Rightarrow> Inl e
     | Inr (None, save') \<Rightarrow> Inr (save', request)
     | Inr (Some (line, after), save') \<Rightarrow>
         if line = [] then Inr (save', request)
         else rbind (add_header_line line after request) (parse_headers save'))"
  by pat_completeness auto
termination
  by (relation "measure (\<lambda>(save, request). length save)") (auto dest: strtok_decreases)

declare parse_headers.simps [simp del]

definition parse_request :: "string \<Rightarrow> HttpRequest \<Rightarrow> c_error + HttpRequest" where
  "parse_request buffer request =
    rbind (strtok buffer CRLF) (\<lambda>(line, save).
      case line of
        None \<Rightarrow> Inl Null_pointer
      | Some (line, _) \<Rightarrow>
          rbind (parse_request_line line request) (\<lambda>request.
          rbind (parse_headers save (request\<lparr>header_count := 0\<rparr>)) (\<lambda>(save, request).
          rbind (strtok save []) (\<lambda>(rest, _).
            Inr (request\<lparr>body := map_option fst rest\<rparr>)))))"

section \<open>What the parser does, line by line\<close>

definition lines_of :: "string \<Rightarrow> string list" where
  "lines_of buffer = fields_of (\<lambda>c. c \<in> set CRLF) (c_str buffer)"

text \<open>A line that ends at its first colon has its value behind it.\<close>

definition ends_at_colon :: "string \<Rightarrow> bool" where
  "ends_at_colon line \<longleftrightarrow> line = takeWhile (\<lambda>c. c \<noteq> CHR '':'') line @ '':''"

definition header_of :: "string \<Rightarrow> Header option" where
  "header_of line =
    (if CHR '':'' \<in> set line
     then let key = takeWhile (\<lambda>c. c \<noteq> CHR '':'') line
          in Some \<lparr>hkey = key, hval = drop (length key + 2) line\<rparr>
     else None)"

definition header_array :: "string list \<Rightarrow> Header option list" where
  "header_array ls = map header_of (take 20 ls) @ replicate (20 - length ls) None"

lemma colon_split:
  assumes "CHR '':'' \<in> set line"
  shows "line = takeWhile (\<lambda>c. c \<noteq> CHR '':'') line @ CHR '':'' #
    drop (Suc (length (takeWhile (\<lambda>c. c \<noteq> CHR '':'') line))) line"
  using assms by (induction line) auto

lemma parse_header_inner:
  assumes "\<not> ends_at_colon line"
  shows "parse_header line after h = Inr (if header_of line = None then h else header_of line)"
proof (cases "CHR '':'' \<in> set line")
  case True
  let ?n = "length (takeWhile (\<lambda>c. c \<noteq> CHR '':'') line)"
  have "drop (Suc ?n) line \<noteq> []"
    using colon_split [OF True] assms by (auto simp: ends_at_colon_def)
  then show ?thesis using True
    by (simp add: parse_header_def header_of_def Let_def drop_Suc tl_drop)
qed (simp add: parse_header_def header_of_def)

lemma parse_header_total: "NUL \<in> set after \<Longrightarrow> \<exists>h'. parse_header line after h = Inr h'"
  by (simp add: parse_header_def c_string_of_def Let_def)

text \<open>The header lines of a text, whatever they hold, only fill the array and the count.\<close>

lemma strtok_line:
  assumes "NUL \<in> set s" and "lines_of s = l # ls"
  obtains after save where "strtok s CRLF = Inr (Some (l, after), save)" and "lines_of save = ls"
    and "NUL \<in> set save" and "count_list save NUL = count_list s NUL"
    and "2 \<le> count_list s NUL \<Longrightarrow> NUL \<in> set after"
proof -
  have nul: "NUL \<notin> set CRLF" by simp
  obtain after save where r: "strtok s CRLF = Inr (Some (l, after), save)" "lines_of save = ls"
    and c: "count_list save NUL = count_list s NUL" "count_list s NUL \<le> Suc (count_list after NUL)"
    using strtok_Some [OF assms(1) nul, of l ls] assms(2) unfolding lines_of_def by blast
  have "NUL \<in> set save" using c(1) assms(1) by (metis count_list_0_iff)
  moreover have "NUL \<in> set after" if "2 \<le> count_list s NUL"
    using c(2) that count_list_0_iff [of after NUL] by linarith
  ultimately show thesis using that r c(1) by blast
qed

lemma strtok_end:
  assumes "NUL \<in> set s" and "lines_of s = []"
  obtains r where "strtok s CRLF = Inr (None, NUL # r)"
  using strtok_None [of s CRLF] assms unfolding lines_of_def by auto

lemma lines_not_empty: "[] \<notin> set (lines_of s)"
  by (simp add: lines_of_def fields_of_def)

definition put_line :: "string \<Rightarrow> HttpRequest \<Rightarrow> HttpRequest" where
  "put_line l request =
    (if header_count request < 20
     then request\<lparr>headers := (headers request)[header_count request :=
                   if header_of l = None then headers request ! header_count request else header_of l],
                  header_count := header_count request + 1\<rparr>
     else request)"

lemma parse_headers_lines:
  assumes "NUL \<in> set s" and "\<forall>l \<in> set (take (20 - header_count req) (lines_of s)). \<not> ends_at_colon l"
  shows "\<exists>r. parse_headers s req = Inr (NUL # r, fold put_line (lines_of s) req)"
  using assms
proof (induction "lines_of s" arbitrary: s req)
  case Nil
  then obtain r where "strtok s CRLF = Inr (None, NUL # r)" using strtok_end by metis
  then show ?case using Nil by (simp add: parse_headers.simps [of s])
next
  case (Cons l ls)
  from Cons.hyps(2) [symmetric] Cons.prems(1)
  obtain after save where s: "strtok s CRLF = Inr (Some (l, after), save)" "lines_of save = ls" "NUL \<in> set save"
    using strtok_line by metis
  have "l \<noteq> []" using lines_not_empty [of s] Cons.hyps(2) by (metis list.set_intros(1))
  have add: "add_header_line l after req = Inr (put_line l req)"
  proof (cases "header_count req < 20")
    case True
    then have "\<not> ends_at_colon l"
      using Cons.prems(2) unfolding Cons.hyps(2) [symmetric] by (simp add: take_Cons')
    then show ?thesis using True by (simp add: add_header_line_def put_line_def parse_header_inner)
  qed (simp add: add_header_line_def put_line_def)
  have "\<forall>k \<in> set (take (20 - header_count (put_line l req)) ls). \<not> ends_at_colon k"
    using Cons.prems(2) unfolding Cons.hyps(2) [symmetric]
    by (auto simp: put_line_def take_Cons' split: if_splits)
  then obtain r where "parse_headers save (put_line l req) = Inr (NUL # r, fold put_line ls (put_line l req))"
    using Cons.hyps(1) [of save "put_line l req"] s by auto
  then show ?case
    using s(1) add \<open>l \<noteq> []\<close> by (simp add: parse_headers.simps [of s] flip: Cons.hyps(2))
qed

lemma two_NULs: "2 \<le> count_list s NUL \<Longrightarrow> NUL \<in> set s"
  using count_list_0_iff [of s NUL] by linarith

lemma parse_headers_total:
  assumes "2 \<le> count_list s NUL"
  shows "\<exists>r hs n. parse_headers s req = Inr (NUL # r, req\<lparr>headers := hs, header_count := n\<rparr>)"
  using assms
proof (induction "lines_of s" arbitrary: s req)
  case Nil
  then have "NUL \<in> set s" by (simp add: two_NULs)
  then obtain r where "strtok s CRLF = Inr (None, NUL # r)" using Nil strtok_end by metis
  then have "parse_headers s req = Inr (NUL # r, req\<lparr>headers := headers req, header_count := header_count req\<rparr>)"
    by (simp add: parse_headers.simps [of s])
  then show ?case by blast
next
  case (Cons l ls)
  then have "NUL \<in> set s" by (simp add: two_NULs)
  then obtain after save where s: "strtok s CRLF = Inr (Some (l, after), save)" "lines_of save = ls"
      "2 \<le> count_list save NUL" "NUL \<in> set after"
    using strtok_line [of s l ls] Cons.hyps(2) Cons.prems by metis
  obtain hs n where add: "add_header_line l after req = Inr (req\<lparr>headers := hs, header_count := n\<rparr>)"
  proof (cases "header_count req < 20")
    case True
    obtain h where "parse_header l after (headers req ! header_count req) = Inr h"
      using parse_header_total [OF s(4)] by blast
    then show thesis using True that by (simp add: add_header_line_def)
  next
    case False
    then have "add_header_line l after req = Inr (req\<lparr>headers := headers req, header_count := header_count req\<rparr>)"
      by (simp add: add_header_line_def)
    then show thesis by (rule that)
  qed
  have "l \<noteq> []" using lines_not_empty [of s] Cons.hyps(2) by (metis list.set_intros(1))
  moreover obtain r hs' n' where "parse_headers save (req\<lparr>headers := hs, header_count := n\<rparr>)
      = Inr (NUL # r, req\<lparr>headers := hs, header_count := n, headers := hs', header_count := n'\<rparr>)"
    using Cons.hyps(1) [of save] s by blast
  ultimately have "parse_headers s req = Inr (NUL # r, req\<lparr>headers := hs', header_count := n'\<rparr>)"
    using s(1) add by (simp add: parse_headers.simps [of s])
  then show ?case by blast
qed

section \<open>The whole request\<close>

lemma fold_put_line:
  assumes "header_count req + m = 20"
    and "headers req = hs @ replicate m None" and "length hs = header_count req"
  shows "fold put_line ls req = req\<lparr>
      headers := hs @ map header_of (take m ls) @ replicate (m - length ls) None,
      header_count := header_count req + min m (length ls)\<rparr>"
  using assms
proof (induction ls arbitrary: req m hs)
  case (Cons l ls)
  show ?case
  proof (cases m)
    case (Suc n)
    let ?req = "req\<lparr>headers := (hs @ [header_of l]) @ replicate n None, header_count := header_count req + 1\<rparr>"
    have "header_count req < 20" "headers req ! header_count req = None"
      using Cons.prems Suc by (auto simp: nth_append)
    moreover have "(headers req)[header_count req := header_of l] = (hs @ [header_of l]) @ replicate n None"
      using Cons.prems Suc by (simp add: list_update_append)
    ultimately have "put_line l req = ?req" by (cases "header_of l") (simp_all add: put_line_def)
    moreover have "fold put_line ls ?req = ?req\<lparr>
        headers := (hs @ [header_of l]) @ map header_of (take n ls) @ replicate (n - length ls) None,
        header_count := header_count ?req + min n (length ls)\<rparr>"
      by (rule Cons.IH) (use Cons.prems Suc in auto)
    ultimately show ?thesis using Suc by simp
  next
    case 0
    then have "put_line l req = req" using Cons.prems by (simp add: put_line_def)
    then show ?thesis using Cons.IH [of req 0 hs] Cons.prems 0 by simp
  qed
qed simp

text \<open>What the parser returns for a text whose request line can be read.\<close>

definition request_of :: "HttpRequest \<Rightarrow> string list \<Rightarrow> HttpRequest" where
  "request_of r ls = r\<lparr>headers := header_array ls, header_count := min 20 (length ls), body := None\<rparr>"

lemma parse_request_line_frame:
  "parse_request_line l req = Inr r \<Longrightarrow> headers r = headers req \<and> header_count r = header_count req \<and> body r = body req"
  by (auto simp: parse_request_line_def rbind_eq_Inr)

lemma strtok_rest: "strtok (NUL # r) [] = Inr (None, NUL # r)"
  by (simp add: strtok_def)

lemma parse_request_lemma:
  assumes "NUL \<in> set buffer" and "\<forall>l \<in> set (take 20 (tl (lines_of buffer))). \<not> ends_at_colon l"
  shows "parse_request buffer new_request =
    (case lines_of buffer of
       [] \<Rightarrow> Inl Null_pointer
     | l # ls \<Rightarrow> rbind (parse_request_line l new_request) (\<lambda>r. Inr (request_of r ls)))"
proof (cases "lines_of buffer")
  case Nil
  then obtain r where "strtok buffer CRLF = Inr (None, NUL # r)" using strtok_end assms(1) by metis
  then show ?thesis using Nil by (simp add: parse_request_def)
next
  case (Cons l ls)
  obtain after save where s: "strtok buffer CRLF = Inr (Some (l, after), save)" "lines_of save = ls" "NUL \<in> set save"
    using strtok_line [OF assms(1) Cons] by metis
  show ?thesis
  proof (cases "parse_request_line l new_request")
    case (Inr r)
    let ?r = "r\<lparr>header_count := 0\<rparr>"
    obtain u where "parse_headers save ?r = Inr (NUL # u, fold put_line ls ?r)"
      using parse_headers_lines [of save ?r] assms(2) s(2,3) Cons by auto
    moreover have "fold put_line ls ?r = request_of r ls"
      using fold_put_line [of ?r 20 "[]" ls] parse_request_line_frame [OF Inr]
      by (simp add: request_of_def header_array_def new_request_def)
    ultimately show ?thesis
      using s(1) Inr Cons by (simp add: parse_request_def strtok_rest) (simp add: request_of_def)
  qed (use s(1) Cons in \<open>simp add: parse_request_def\<close>)
qed

text \<open>With two zero bytes left there is always one behind a line, so only the request line can fail.\<close>

lemma parse_request_total:
  assumes "2 \<le> count_list buffer NUL" and "lines_of buffer = l # ls" and "parse_request_line l new_request = Inr r"
  shows "\<exists>r'. parse_request buffer new_request = Inr r' \<and> req_method r' = req_method r \<and> uri r' = uri r
    \<and> version r' = version r \<and> body r' = None"
proof -
  obtain after save where s: "strtok buffer CRLF = Inr (Some (l, after), save)"
      "count_list save NUL = count_list buffer NUL"
    using strtok_line [OF two_NULs [OF assms(1)] assms(2)] by metis
  moreover obtain u hs n where "parse_headers save (r\<lparr>header_count := 0\<rparr>)
      = Inr (NUL # u, r\<lparr>header_count := 0, headers := hs, header_count := n\<rparr>)"
    using parse_headers_total [of save] s(2) assms(1) by metis
  ultimately show ?thesis using assms(3) by (simp add: parse_request_def strtok_rest)
qed

text \<open>The loop ends at the zero byte that ends the text, and entries that are filled stay.\<close>

lemma strtok_end_NUL: "strtok s delims = Inr (None, save) \<Longrightarrow> \<exists>r. save = NUL # r"
  by (simp add: strtok_def Let_def del: dropWhile_eq_Nil_conv split: if_splits) (metis list.collapse)

lemma strtok_token_nonempty: "strtok s delims = Inr (Some ([], after), save) \<Longrightarrow> False"
proof -
  assume a: "strtok s delims = Inr (Some ([], after), save)"
  let ?r = "dropWhile (\<lambda>c. c \<in> set delims) s"
  have r: "?r \<noteq> []" "hd ?r \<noteq> NUL" "takeWhile (\<lambda>c. c \<noteq> NUL \<and> c \<notin> set delims) ?r = []"
    using a by (auto simp: strtok_def Let_def split: if_splits)
  moreover have "hd ?r \<notin> set delims" using r(1) hd_dropWhile by fast
  ultimately show False by (cases ?r) auto
qed

lemma add_header_line_keeps:
  assumes "add_header_line l after req = Inr r" and "i < header_count req"
  shows "i < header_count r \<and> headers r ! i = headers req ! i"
  using assms by (auto simp: add_header_line_def rbind_eq_Inr split: if_splits)

lemma parse_headers_result:
  assumes "parse_headers s req = Inr (save, r)"
  shows "(\<exists>z. save = NUL # z) \<and> (\<forall>i < header_count req. headers r ! i = headers req ! i)"
  using assms
proof (induction s req rule: parse_headers.induct)
  case (1 s req)
  obtain line after save' where step: "strtok s CRLF = Inr (None, save) \<and> r = req
      \<or> strtok s CRLF = Inr (Some (line, after), save') \<and> line \<noteq> []
        \<and> rbind (add_header_line line after req) (parse_headers save') = Inr (save, r)"
    using 1(2) strtok_token_nonempty [of s CRLF]
    by (auto simp: parse_headers.simps [of s] split: sum.splits option.splits if_splits)
  then show ?case
  proof
    assume "strtok s CRLF = Inr (None, save) \<and> r = req"
    then show ?thesis using strtok_end_NUL [of s CRLF save] by simp
  next
    assume a: "strtok s CRLF = Inr (Some (line, after), save') \<and> line \<noteq> []
        \<and> rbind (add_header_line line after req) (parse_headers save') = Inr (save, r)"
    then obtain req' where "add_header_line line after req = Inr req'" "parse_headers save' req' = Inr (save, r)"
      by (auto simp: rbind_eq_Inr)
    then show ?thesis using 1(1) a add_header_line_keeps [of line after req req'] by auto
  qed
qed

section \<open>A request written out\<close>

definition plain :: "string \<Rightarrow> bool" where
  "plain s \<longleftrightarrow> NUL \<notin> set s \<and> cr \<notin> set s \<and> newline \<notin> set s"

definition good_word :: "nat \<Rightarrow> string \<Rightarrow> bool" where
  "good_word cap w \<longleftrightarrow> w \<noteq> [] \<and> length w < cap \<and> NUL \<notin> set w \<and> (\<forall>c \<in> set w. \<not> isspace c)"

definition good_header :: "Header \<Rightarrow> bool" where
  "good_header h \<longleftrightarrow> plain (hkey h) \<and> CHR '':'' \<notin> set (hkey h) \<and> plain (hval h)"

definition request_line_text :: "string \<Rightarrow> string \<Rightarrow> string \<Rightarrow> string" where
  "request_line_text m u v = m @ '' '' @ u @ '' '' @ v"

definition header_text :: "Header \<Rightarrow> string" where
  "header_text h = hkey h @ '': '' @ hval h"

definition request_text :: "string \<Rightarrow> string \<Rightarrow> string \<Rightarrow> Header list \<Rightarrow> string \<Rightarrow> string" where
  "request_text m u v hs b =
    request_line_text m u v @ CRLF @ concat (map (\<lambda>h. header_text h @ CRLF) hs) @ CRLF @ b"

lemma good_word_plain: "good_word cap w \<Longrightarrow> plain w"
  by (auto simp: good_word_def plain_def isspace_def)

lemma plain_append [simp]: "plain (a @ b) \<longleftrightarrow> plain a \<and> plain b"
  by (auto simp: plain_def)

lemma plain_Cons [simp]: "plain (c # b) \<longleftrightarrow> c \<noteq> NUL \<and> c \<noteq> cr \<and> c \<noteq> newline \<and> plain b"
  by (auto simp: plain_def)

lemma plain_Nil [simp]: "plain []"
  by (simp add: plain_def)

lemma lines_of_CRLF: "lines_of (cr # newline # s) = lines_of s"
  by (simp add: lines_of_def c_str_def)

lemma lines_of_line:
  assumes "plain l" and "l \<noteq> []"
  shows "lines_of (l @ cr # newline # s) = l # lines_of s"
proof -
  have "c_str (l @ cr # newline # s) = l @ cr # newline # c_str s"
    using assms(1) by (simp add: c_str_def plain_def takeWhile_append)
  then show ?thesis
    using assms fields_field [of l "\<lambda>c. c \<in> set CRLF" "cr # newline # c_str s"]
    by (simp add: lines_of_def plain_def) metis
qed

lemma header_of_text: "good_header h \<Longrightarrow> header_of (header_text h) = Some h"
  by (simp add: header_of_def header_text_def good_header_def takeWhile_append Let_def)

lemma header_text_inner: "good_header h \<Longrightarrow> \<not> ends_at_colon (header_text h)"
  by (simp add: ends_at_colon_def header_text_def good_header_def takeWhile_append)

lemma lines_of_headers:
  "\<forall>h \<in> set hs. good_header h \<Longrightarrow>
    lines_of (concat (map (\<lambda>h. header_text h @ CRLF) hs) @ s) = map header_text hs @ lines_of s"
proof (induction hs)
  case (Cons h hs)
  then have "plain (header_text h)" "header_text h \<noteq> []"
    by (simp_all add: header_text_def good_header_def)
  then show ?case using Cons by (simp add: lines_of_line)
qed simp

lemma parse_request_line_text:
  assumes "good_word 10 m" and "good_word 256 u" and "good_word 10 v"
  shows "parse_request_line (request_line_text m u v) r
    = Inr (r\<lparr>req_method := Some m, uri := Some u, version := Some v\<rparr>)"
proof -
  have sp: "isspace CHR '' ''" by (simp add: isspace_def)
  have "scan_word (request_line_text m u v) = (m, '' '' @ u @ '' '' @ v)"
    unfolding request_line_text_def by (rule scan_word_word) (use assms(1) sp in \<open>auto simp: good_word_def\<close>)
  moreover have "scan_word ('' '' @ u @ '' '' @ v) = (u, '' '' @ v)"
    using scan_word_word [of u "'' '' @ v"] assms(2) sp by (simp add: good_word_def scan_word_space)
  moreover have "scan_word ('' '' @ v) = (v, [])"
    using scan_word_word [of v "[]"] assms(3) sp by (simp add: good_word_def scan_word_space)
  ultimately show ?thesis
    using assms by (simp add: parse_request_line_def sscanf_field_def good_word_def stored_def)
qed

lemma lines_of_request:
  assumes "good_word 10 m" and "good_word 256 u" and "good_word 10 v" and "\<forall>h \<in> set hs. good_header h"
  shows "lines_of (request_text m u v hs b @ rest)
    = request_line_text m u v # map header_text hs @ lines_of (b @ rest)"
proof -
  have "plain (request_line_text m u v)" "request_line_text m u v \<noteq> []"
    using assms good_word_plain by (auto simp: request_line_text_def)
  then show ?thesis
    using lines_of_headers [OF assms(4), of "CRLF @ b @ rest"]
    by (simp add: request_text_def lines_of_line lines_of_CRLF)
qed

section \<open>The results\<close>

text \<open>What the parser returns for every text, as long as none of the first 20 lines after the
  request line ends at its colon: no line at all is a null pointer that is read; else the words of the
  first line, the headers of the next 20 lines, with an indeterminate entry for a line without a colon,
  and no body.\<close>

theorem parse_request_spec:
  assumes "NUL \<in> set buffer" and "\<forall>l \<in> set (take 20 (tl (lines_of buffer))). \<not> ends_at_colon l"
  shows "parse_request buffer new_request =
    (case lines_of buffer of
       [] \<Rightarrow> Inl Null_pointer
     | l # ls \<Rightarrow> rbind (parse_request_line l new_request) (\<lambda>r. Inr (request_of r ls)))"
  by (rule parse_request_lemma [OF assms])

theorem parse_request_spec_witness:
  "parse_request (CRLF @ CRLF @ [NUL]) new_request = Inl Null_pointer"
proof -
  have "lines_of (CRLF @ CRLF @ [NUL]) = []" by (simp add: lines_of_def c_str_def)
  then show ?thesis using parse_request_spec [of "CRLF @ CRLF @ [NUL]"] by simp
qed

text \<open>C18: A request that is written out with well-formed words and headers is read back: method, URI,
  version and the first 20 headers.  What follows the blank line is not taken as the body: each of its
  lines counts as one more header, and one with a colon is stored as a header while there is room.  For
  every body, as long as no line of it that is stored has its first colon at its end: the code then
  reads a value behind the line.\<close>

theorem http_request_roundtrip:
  assumes "good_word 10 m" and "good_word 256 u" and "good_word 10 v"
    and "\<forall>h \<in> set hs. good_header h"
    and "\<forall>l \<in> set (take (20 - length hs) (lines_of (b @ NUL # z))). \<not> ends_at_colon l"
  shows "parse_request (request_text m u v hs b @ NUL # z) new_request =
    Inr \<lparr>req_method = Some m, uri = Some u, version = Some v,
         headers = map Some (take 20 hs) @ map header_of (take (20 - length hs) (lines_of (b @ NUL # z)))
           @ replicate (20 - (length hs + length (lines_of (b @ NUL # z)))) None,
         header_count = min 20 (length hs + length (lines_of (b @ NUL # z))), body = None\<rparr>"
proof -
  let ?ls = "lines_of (b @ NUL # z)"
  have lines: "lines_of (request_text m u v hs b @ NUL # z) = request_line_text m u v # map header_text hs @ ?ls"
    by (rule lines_of_request [OF assms(1-4)])
  have "\<not> ends_at_colon l" if "l \<in> set (take 20 (map header_text hs @ ?ls))" for l
  proof (cases "l \<in> set (take (20 - length hs) ?ls)")
    case False
    then have "l \<in> set (take 20 (map header_text hs))" using that by simp
    then have "l \<in> set (map header_text hs)" by (rule in_set_takeD)
    then obtain h where "h \<in> set hs" "l = header_text h" by auto
    then show ?thesis
      using assms(4) header_text_inner
      by (auto simp: ends_at_colon_def)
  qed (use assms(5) in blast)
  then have "parse_request (request_text m u v hs b @ NUL # z) new_request
      = Inr (request_of (new_request\<lparr>req_method := Some m, uri := Some u, version := Some v\<rparr>) (map header_text hs @ ?ls))"
    using parse_request_lemma [of "request_text m u v hs b @ NUL # z"] lines
      parse_request_line_text [OF assms(1-3)] by simp
  moreover have "map header_of (take 20 (map header_text hs)) = map Some (take 20 hs)"
    using assms(4) by (auto simp: take_map dest: in_set_takeD intro!: header_of_text)
  ultimately show ?thesis by (simp add: request_of_def header_array_def new_request_def)
qed


theorem http_request_roundtrip_witness:
  "parse_request (request_text ''POST'' ''/a'' ''HTTP/1.1'' [\<lparr>hkey = ''Host'', hval = ''x''\<rparr>] ''n: 1'' @ [NUL]) new_request
    = Inr \<lparr>req_method = Some ''POST'', uri = Some ''/a'', version = Some ''HTTP/1.1'',
         headers = Some \<lparr>hkey = ''Host'', hval = ''x''\<rparr> # Some \<lparr>hkey = ''n'', hval = ''1''\<rparr> # replicate 18 None,
         header_count = 2, body = None\<rparr>"
proof -
  have "lines_of (''n: 1'' @ [NUL]) = [''n: 1'']" by (simp add: lines_of_def c_str_def fields_of_def)
  moreover have "header_of ''n: 1'' = Some \<lparr>hkey = ''n'', hval = ''1''\<rparr>" by (simp add: header_of_def)
  ultimately show ?thesis
    using http_request_roundtrip [of "''POST''" "''/a''" "''HTTP/1.1''" "[\<lparr>hkey = ''Host'', hval = ''x''\<rparr>]" "''n: 1''" "[]"]
    by (simp add: good_word_def good_header_def plain_def isspace_def ends_at_colon_def)
qed

text \<open>No request ever has a body: whenever the parser returns, the pointer is null, because the
  loop over the header lines only stops where the text ends.\<close>

theorem http_body_never_delivered:
  assumes "parse_request buffer request = Inr r"
  shows "body r = None"
proof -
  obtain save req save' req' rest u where "parse_headers save req = Inr (save', req')"
    and "strtok save' [] = Inr (rest, u)" and "r = req'\<lparr>body := map_option fst rest\<rparr>"
    using assms by (auto simp: parse_request_def rbind_eq_Inr split: option.splits)
  then show ?thesis using parse_headers_result [of save req save' req'] by (auto simp: strtok_rest)
qed

theorem http_body_never_delivered_witness:
  "\<exists>r. parse_request (''POST / HTTP/1.1'' @ CRLF @ CRLF @ ''x'' @ [NUL]) new_request = Inr r \<and> body r = None"
proof -
  have "lines_of (''POST / HTTP/1.1'' @ CRLF @ CRLF @ ''x'' @ [NUL]) = [''POST / HTTP/1.1'', ''x'']"
    by (simp add: lines_of_def c_str_def fields_of_def)
  then obtain r where "parse_request (''POST / HTTP/1.1'' @ CRLF @ CRLF @ ''x'' @ [NUL]) new_request = Inr r"
    using parse_request_lemma [of "''POST / HTTP/1.1'' @ CRLF @ CRLF @ ''x'' @ [NUL]"]
    by (auto simp: ends_at_colon_def parse_request_line_def sscanf_field_def scan_word_def isspace_def)
  then show ?thesis using http_body_never_delivered by blast
qed

text \<open>A header that ends with its colon does not get an empty value: its value is the whole text
  behind the line, starting with the newline of its own line end.\<close>

theorem http_empty_header_value:
  assumes "good_word 10 m" and "good_word 256 u" and "good_word 10 v"
    and "plain k" and "CHR '':'' \<notin> set k" and "NUL \<notin> set rest"
  shows "\<exists>r. parse_request (request_line_text m u v @ CRLF @ k @ '':'' @ CRLF @ rest @ [NUL, NUL]) new_request = Inr r
    \<and> headers r ! 0 = Some \<lparr>hkey = k, hval = newline # rest\<rparr>"
proof -
  let ?line = "request_line_text m u v" and ?rest = "rest @ [NUL, NUL]"
  let ?req = "new_request\<lparr>req_method := Some m, uri := Some u, version := Some v, header_count := 0\<rparr>"
  let ?req1 = "?req\<lparr>headers := (headers new_request)[0 := Some \<lparr>hkey = k, hval = newline # rest\<rparr>], header_count := 1\<rparr>"
  have line: "plain ?line" "?line \<noteq> []"
    using assms(1-3) [THEN good_word_plain] by (simp_all add: request_line_text_def)
  have key: "plain (k @ '':'')" "k @ '':'' \<noteq> []" using assms(4) by simp_all
  have tok: "strtok (cs @ CRLF @ s) CRLF = Inr (Some (cs, newline # s), newline # s)"
    if "plain cs" "cs \<noteq> []" for cs s
    using that by (cases cs) (auto simp: strtok_def Let_def plain_def takeWhile_append)
  have skip: "strtok (newline # s) CRLF = strtok s CRLF" for s by (simp add: strtok_def)
  have "2 \<le> count_list (newline # ?rest) NUL" by simp
  then obtain z hs n where tail: "parse_headers (newline # ?rest) ?req1
      = Inr (NUL # z, ?req1\<lparr>headers := hs, header_count := n\<rparr>)"
    using parse_headers_total by blast
  have "hs ! 0 = Some \<lparr>hkey = k, hval = newline # rest\<rparr>"
    using parse_headers_result [OF tail] by (simp add: new_request_def)
  moreover have "add_header_line (k @ '':'') (newline # ?rest) ?req = Inr ?req1"
    using assms(5,6) by (simp add: add_header_line_def parse_header_def c_string_of_def c_str_append_NUL
        takeWhile_append new_request_def) (simp add: c_str_def takeWhile_append)
  then have "parse_headers (newline # (k @ '':'') @ CRLF @ ?rest) ?req
      = parse_headers (newline # ?rest) ?req1"
    using tok [OF key] key by (simp add: parse_headers.simps [of "newline # k @ _"] skip)
  moreover have "parse_request_line ?line new_request = Inr (new_request\<lparr>req_method := Some m, uri := Some u, version := Some v\<rparr>)"
    by (rule parse_request_line_text [OF assms(1-3)])
  ultimately show ?thesis
    using tok [OF line(1,2)] tail by (simp add: parse_request_def strtok_rest)
qed

theorem http_empty_header_value_witness:
  "\<exists>r. parse_request (request_line_text ''GET'' ''/'' ''HTTP/1.1'' @ CRLF @ ''Accept'' @ '':'' @ CRLF @ ''Host: x'' @ [NUL, NUL]) new_request = Inr r
    \<and> headers r ! 0 = Some \<lparr>hkey = ''Accept'', hval = newline # ''Host: x''\<rparr>"
  by (rule http_empty_header_value) (simp_all add: good_word_def isspace_def)

section \<open>The type of a request\<close>

definition field_type :: "nat \<Rightarrow> string option \<Rightarrow> bool" where
  "field_type cap w \<longleftrightarrow> (\<forall>s. w = Some s \<longrightarrow> s \<noteq> [] \<and> length s < cap \<and> (\<forall>c \<in> set s. \<not> isspace c \<and> c \<noteq> NUL))"

definition header_type :: "Header \<Rightarrow> bool" where
  "header_type h \<longleftrightarrow> plain (hkey h) \<and> CHR '':'' \<notin> set (hkey h) \<and> NUL \<notin> set (hval h)"

definition request_type :: "HttpRequest \<Rightarrow> bool" where
  "request_type r \<longleftrightarrow> field_type 10 (req_method r) \<and> field_type 256 (uri r) \<and> field_type 10 (version r)
    \<and> length (headers r) = 20 \<and> header_count r \<le> 20
    \<and> (\<forall>i < 20. \<forall>h. headers r ! i = Some h \<longrightarrow> i < header_count r \<and> header_type h)"

lemma strtok_token:
  assumes "strtok s delims = Inr (Some (t, after), save)"
  shows "\<forall>c \<in> set t. c \<noteq> NUL \<and> c \<notin> set delims"
  using assms by (auto simp: strtok_def Let_def dest!: set_takeWhileD split: if_splits)

lemma strtok_line_plain: "strtok s CRLF = Inr (Some (t, after), save) \<Longrightarrow> plain t"
  using strtok_token [of s CRLF] by (auto simp: plain_def)

lemma sscanf_field_type:
  assumes "sscanf_field cap inp = Inr (w, rest)" and "NUL \<notin> set inp"
  shows "field_type cap w \<and> NUL \<notin> set rest"
  using assms
  by (auto simp: sscanf_field_def scan_word_def field_type_def Let_def
      dest!: set_takeWhileD set_dropWhileD split: if_splits)

lemma parse_request_line_type:
  assumes "parse_request_line line new_request = Inr r" and "plain line"
  shows "request_type (r\<lparr>header_count := 0\<rparr>)"
proof -
  obtain m u v i1 i2 i3 where f: "sscanf_field 10 line = Inr (m, i1)" "sscanf_field 256 i1 = Inr (u, i2)"
      "sscanf_field 10 i2 = Inr (v, i3)"
    and r: "r = new_request\<lparr>req_method := stored m None, uri := stored u None, version := stored v None\<rparr>"
    using assms(1) by (auto simp: parse_request_line_def rbind_eq_Inr new_request_def)
  have "NUL \<notin> set line" using assms(2) by (simp add: plain_def)
  then have "field_type 10 m \<and> field_type 256 u \<and> field_type 10 v" using f sscanf_field_type by metis
  moreover have "stored w None = w" for w by (simp add: stored_def split: option.splits)
  ultimately show ?thesis by (simp add: request_type_def r new_request_def)
qed

lemma parse_header_type:
  assumes "parse_header line after None = Inr (Some h)" and "plain line"
  shows "header_type h"
proof -
  let ?key = "takeWhile (\<lambda>c. c \<noteq> CHR '':'') line"
  have "plain ?key \<and> CHR '':'' \<notin> set ?key" using assms(2) by (auto simp: plain_def dest: set_takeWhileD)
  moreover have "NUL \<notin> set (c_str after)" by (auto simp: c_str_def dest: set_takeWhileD)
  moreover have "NUL \<notin> set (tl (drop n line))" for n
    using assms(2) in_set_dropD [of NUL "Suc n" line] by (auto simp: plain_def drop_Suc tl_drop)
  ultimately show ?thesis
    using assms(1) by (auto simp: parse_header_def header_type_def rbind_eq_Inr c_string_of_def Let_def split: if_splits)
qed

lemma add_header_line_type:
  assumes "add_header_line line after r = Inr r'" and "plain line" and "request_type r"
  shows "request_type r'"
proof (cases "header_count r < 20")
  case True
  then have "headers r ! header_count r = None"
    using assms(3) by (cases "headers r ! header_count r") (auto simp: request_type_def)
  then obtain h where "parse_header line after None = Inr h"
    and "r' = r\<lparr>headers := (headers r)[header_count r := h], header_count := header_count r + 1\<rparr>"
    using assms(1) True by (auto simp: add_header_line_def rbind_eq_Inr)
  then show ?thesis
    using assms(2,3) True parse_header_type [of line after]
    by (auto simp: request_type_def nth_list_update less_Suc_eq)
qed (use assms in \<open>simp add: add_header_line_def\<close>)

lemma parse_headers_type: "parse_headers s r = Inr (save, r') \<Longrightarrow> request_type r \<Longrightarrow> request_type r'"
proof (induction s r rule: parse_headers.induct)
  case (1 s r)
  show ?case
  proof (cases "strtok s CRLF")
    case (Inr x)
    then show ?thesis
      using 1 strtok_line_plain [of s] add_header_line_type
      by (cases x; cases "fst x") (auto simp: parse_headers.simps [of s] rbind_eq_Inr split: if_splits)
  qed (use 1 in \<open>simp add: parse_headers.simps [of s]\<close>)
qed

text \<open>C29: Every request that the parser returns, for any buffer, is well-typed: the words of the request
  line fit the arrays they are stored in and contain no white space; there are at most 20 headers; every
  entry that points to a header is counted, its key has no colon and no end of line; and there is never
  a body.\<close>

theorem parse_request_type:
  assumes "parse_request buffer new_request = Inr r"
  shows "request_type r \<and> body r = None"
proof -
  obtain line after save req save' req' rest u where "strtok buffer CRLF = Inr (Some (line, after), save)"
      "parse_request_line line new_request = Inr req"
      "parse_headers save (req\<lparr>header_count := 0\<rparr>) = Inr (save', req')"
      "strtok save' [] = Inr (rest, u)" "r = req'\<lparr>body := map_option fst rest\<rparr>"
    using assms by (auto simp: parse_request_def rbind_eq_Inr split: option.splits)
  then have "request_type req' \<and> body r = None"
    using parse_request_line_type strtok_line_plain parse_headers_type parse_headers_result [of save _ save' req']
    by (fastforce simp: strtok_rest)
  then show ?thesis using \<open>r = _\<close> by (simp add: request_type_def)
qed

theorem parse_request_type_witness:
  "\<exists>r. parse_request (''GET / HTTP/1.1'' @ CRLF @ ''Host: x'' @ [NUL]) new_request = Inr r \<and> request_type r \<and> body r = None"
proof -
  have "lines_of (''GET / HTTP/1.1'' @ CRLF @ ''Host: x'' @ [NUL]) = [''GET / HTTP/1.1'', ''Host: x'']"
    by (simp add: lines_of_def c_str_def fields_of_def)
  then obtain r where "parse_request (''GET / HTTP/1.1'' @ CRLF @ ''Host: x'' @ [NUL]) new_request = Inr r"
    using parse_request_lemma [of "''GET / HTTP/1.1'' @ CRLF @ ''Host: x'' @ [NUL]"]
    by (auto simp: ends_at_colon_def parse_request_line_def sscanf_field_def scan_word_def isspace_def)
  then show ?thesis using parse_request_type by blast
qed

end
