(* ===== verification/Epoll.thy ===== *)
theory Epoll
  imports C_Prelude
begin

text \<open>
  The part that \<^verbatim>\<open>http-setup/http-server.c\<close> and \<^verbatim>\<open>system-info/info-server.c\<close> have in common: the
  descriptors the process holds, non-blocking sockets, the \<open>epoll\<close> instance and the loop that accepts
  all waiting connections.  The two servers differ in what they do with a new client, the argument
  \<open>on_client\<close> of the loop; the locale \<open>accept_handler\<close> says what it may not touch.
\<close>

record epoll_state =
  epoll_set :: "int set"     \<comment> \<open>descriptors registered with the \<open>epoll\<close> instance\<close>
  open_fds :: "int set"      \<comment> \<open>sockets the process holds open\<close>

text \<open>The kernel's part of \<open>make_socket_non_blocking\<close>: the flags it returns and its answer to new ones.\<close>

definition make_socket_non_blocking :: "int \<Rightarrow> (int \<Rightarrow> int) \<Rightarrow> int" where
  "make_socket_non_blocking getfl setfl =
    (if getfl = - 1 then - 1 else if setfl (getfl OR 2048) = - 1 then - 1 else 0)"

definition create_epoll :: "int \<Rightarrow> int \<Rightarrow> int \<Rightarrow> 'a epoll_state_scheme \<Rightarrow> c_error + 'a epoll_state_scheme" where
  "create_epoll create_ret ctl_ret server_fd s =
    (if create_ret = - 1 then Inl Exit_failure
     else if ctl_ret = - 1 then Inl Exit_failure
     else Inr (s\<lparr>epoll_set := insert server_fd (epoll_set s)\<rparr>))"

datatype accept_result =
    Accepted int int "int \<Rightarrow> int" int   \<comment> \<open>the descriptor, the answers of \<open>fcntl\<close> and of \<open>epoll_ctl\<close>\<close>
  | Would_block                        \<comment> \<open>\<open>-1\<close> with \<open>EAGAIN\<close> or \<open>EWOULDBLOCK\<close>\<close>
  | Accept_error                       \<comment> \<open>\<open>-1\<close> with any other error\<close>

text \<open>The loop of \<open>handle_new_connection\<close>.\<close>

fun accept_loop :: "(int \<Rightarrow> 'a epoll_state_scheme \<Rightarrow> 'a epoll_state_scheme) \<Rightarrow> accept_result list
    \<Rightarrow> 'a epoll_state_scheme \<Rightarrow> c_error + 'a epoll_state_scheme" where
  "accept_loop on_client [] s = Inl Exhausted"
| "accept_loop on_client (Would_block # rs) s = Inr s"
| "accept_loop on_client (Accept_error # rs) s = Inl Exit_failure"
| "accept_loop on_client (Accepted client_fd getfl setfl ctl # rs) s =
    (let s = s\<lparr>open_fds := insert client_fd (open_fds s)\<rparr>;
         closed = s\<lparr>open_fds := open_fds s - {client_fd}\<rparr>
     in if make_socket_non_blocking getfl setfl = - 1 then accept_loop on_client rs closed
        else if ctl = - 1 then accept_loop on_client rs closed
        else accept_loop on_client rs (on_client client_fd (s\<lparr>epoll_set := insert client_fd (epoll_set s)\<rparr>)))"

section \<open>The loop in closed form\<close>

definition is_accepted :: "accept_result \<Rightarrow> bool" where
  "is_accepted r = (case r of Accepted _ _ _ _ \<Rightarrow> True | _ \<Rightarrow> False)"

text \<open>The descriptor that stays, and whether the kernel hands out descriptors that are not in use.\<close>

definition registered :: "accept_result \<Rightarrow> int list" where
  "registered r = (case r of
      Accepted fd getfl setfl ctl \<Rightarrow> if make_socket_non_blocking getfl setfl = - 1 \<or> ctl = - 1 then [] else [fd]
    | _ \<Rightarrow> [])"

fun fresh_accepts :: "accept_result list \<Rightarrow> int set \<Rightarrow> bool" where
  "fresh_accepts [] used \<longleftrightarrow> True"
| "fresh_accepts (Accepted fd getfl setfl ctl # rs) used \<longleftrightarrow>
     0 \<le> fd \<and> fd \<notin> used \<and> fresh_accepts rs (used \<union> set (registered (Accepted fd getfl setfl ctl)))"
| "fresh_accepts (Would_block # rs) used \<longleftrightarrow> True"
| "fresh_accepts (Accept_error # rs) used \<longleftrightarrow> True"

definition new_clients :: "accept_result list \<Rightarrow> int list" where
  "new_clients rs = concat (map registered (takeWhile is_accepted rs))"

definition with_client :: "int \<Rightarrow> 'a epoll_state_scheme \<Rightarrow> 'a epoll_state_scheme" where
  "with_client fd s = s\<lparr>open_fds := insert fd (open_fds s), epoll_set := insert fd (epoll_set s)\<rparr>"

lemma with_client_simps [simp]:
  "epoll_set (with_client fd s) = insert fd (epoll_set s)"
  "open_fds (with_client fd s) = insert fd (open_fds s)"
  by (simp_all add: with_client_def)

lemma new_clients_Cons: "is_accepted r \<Longrightarrow> new_clients (r # rs) = registered r @ new_clients rs"
  by (simp add: new_clients_def)

lemma new_clients_fresh: "fresh_accepts rs used \<Longrightarrow> fd \<in> set (new_clients rs) \<Longrightarrow> 0 \<le> fd \<and> fd \<notin> used"
proof (induction rs used rule: fresh_accepts.induct)
  case (2 fd' getfl setfl ctl rs used)
  have "is_accepted (Accepted fd' getfl setfl ctl)" by (simp add: is_accepted_def)
  then show ?case using 2 by (auto simp: new_clients_Cons registered_def split: if_splits)
qed (simp_all add: new_clients_def is_accepted_def)

lemma new_clients_distinct: "fresh_accepts rs used \<Longrightarrow> distinct (new_clients rs)"
proof (induction rs used rule: fresh_accepts.induct)
  case (2 fd getfl setfl ctl rs used)
  let ?r = "Accepted fd getfl setfl ctl"
  have "is_accepted ?r" by (simp add: is_accepted_def)
  moreover have "distinct (registered ?r)" by (simp add: registered_def)
  moreover have "set (registered ?r) \<inter> set (new_clients rs) = {}"
    using 2(2) new_clients_fresh [of rs "used \<union> set (registered ?r)"] by auto
  ultimately show ?case using 2 by (simp add: new_clients_Cons)
qed (simp_all add: new_clients_def is_accepted_def)

locale accept_handler =
  fixes on_client :: "int \<Rightarrow> 'a epoll_state_scheme \<Rightarrow> 'a epoll_state_scheme"
  assumes keeps_open: "open_fds (on_client fd s) = open_fds s"
    and keeps_epoll: "epoll_set (on_client fd s) = epoll_set s"
begin

definition admit :: "int \<Rightarrow> 'a epoll_state_scheme \<Rightarrow> 'a epoll_state_scheme" where
  "admit fd s = on_client fd (with_client fd s)"

lemma admit_sets:
  "epoll_set (fold admit fds s) = epoll_set s \<union> set fds"
  "open_fds (fold admit fds s) = open_fds s \<union> set fds"
  by (induction fds arbitrary: s) (simp_all add: admit_def keeps_open keeps_epoll)

lemma accept_loop_closed:
  assumes "fresh_accepts rs (open_fds s)"
  shows "accept_loop on_client rs s =
    (case dropWhile is_accepted rs of
       [] \<Rightarrow> Inl Exhausted
     | r # _ \<Rightarrow> if r = Would_block then Inr (fold admit (new_clients rs) s) else Inl Exit_failure)"
  using assms
proof (induction rs arbitrary: s)
  case (Cons r rs)
  show ?case
  proof (cases r)
    case (Accepted fd getfl setfl ctl)
    let ?s = "fold admit (registered r) s"
    have fd: "fd \<notin> open_fds s" and fresh: "fresh_accepts rs (open_fds ?s)"
      using Cons.prems by (simp_all add: Accepted admit_sets)
    have "accept_loop on_client (r # rs) s = accept_loop on_client rs ?s"
      using fd by (simp add: Accepted registered_def admit_def with_client_def Let_def)
    moreover have acc: "is_accepted r" by (simp add: Accepted is_accepted_def)
    then have "fold admit (new_clients (r # rs)) s = fold admit (new_clients rs) ?s" by (simp add: new_clients_Cons)
    ultimately show ?thesis using Cons.IH [OF fresh] acc
      by (cases "dropWhile is_accepted rs") (simp_all del: dropWhile_eq_Nil_conv)
  qed (simp_all add: is_accepted_def new_clients_def)
qed simp

lemma accept_loop_result:
  assumes "accept_loop on_client rs s = Inr s'" and "fresh_accepts rs (open_fds s)"
  shows "s' = fold admit (new_clients rs) s"
  using assms accept_loop_closed [OF assms(2)] by (auto split: list.splits if_splits)

end

end
