(* ===== verification/Http_Server.thy ===== *)
theory Http_Server
  imports Http_Request Server_Loop Epoll
begin

text \<open>
  The serving side of \<^verbatim>\<open>http-setup/http-server.c\<close>: the responses, the handling of a readable client and
  the \<open>epoll\<close> loop of \<open>main\<close>, as functions of what the kernel answers.

  The state is what the process holds in the kernel: the descriptors registered with \<open>epoll\<close> and the
  descriptors that are open.  The results: the text of every response and when it fits its buffer; the
  outcome of every request of up to 4094 characters; the overrun of a full buffer; the accept loop; and
  what stays true of the two sets over any run of the server.
\<close>

section \<open>Responses\<close>

text \<open>A response starts as zero bytes: null pointers (\<open>None\<close>) and a count of 0.\<close>

record HttpResponse =
  status_code :: int
  status_text :: "string option"
  response_headers :: "Header option list"
  response_header_count :: nat
  response_body :: "string option"

definition empty_response :: HttpResponse where
  "empty_response = \<lparr>status_code = 0, status_text = None, response_headers = replicate 20 None,
     response_header_count = 0, response_body = None\<rparr>"

definition add_response_header :: "HttpResponse \<Rightarrow> string \<Rightarrow> string \<Rightarrow> HttpResponse" where
  "add_response_header response key val =
    (if response_header_count response < 20
     then response\<lparr>response_headers :=
            (response_headers response)[response_header_count response := Some \<lparr>hkey = key, hval = val\<rparr>],
            response_header_count := response_header_count response + 1\<rparr>
     else response)"

definition handle_get_request :: "HttpResponse \<Rightarrow> HttpResponse" where
  "handle_get_request response =
    (add_response_header (response\<lparr>status_code := 200, status_text := Some ''OK''\<rparr>) ''Content-Type'' ''text/html'')
      \<lparr>response_body := Some ''<html><body><h1>Hello from GET!</h1></body></html>''\<rparr>"

definition handle_post_request :: "HttpResponse \<Rightarrow> HttpResponse" where
  "handle_post_request response =
    (add_response_header (response\<lparr>status_code := 200, status_text := Some ''OK''\<rparr>) ''Content-Type'' ''text/plain'')
      \<lparr>response_body := Some ''Received POST request''\<rparr>"

definition handle_other_request :: "HttpResponse \<Rightarrow> HttpResponse" where
  "handle_other_request response =
    (add_response_header (response\<lparr>status_code := 405, status_text := Some ''Method Not Allowed''\<rparr>) ''Content-Type'' ''text/plain'')
      \<lparr>response_body := Some ''Unsupported method''\<rparr>"

text \<open>
  \<open>len += snprintf(buffer + len, BUFFER_SIZE - len, ...)\<close> with a buffer of \<open>cap\<close> characters: the state
  is the characters written and \<open>len\<close>, which counts what a buffer of any size would hold.  Once \<open>len\<close>
  is above \<open>cap\<close>, the next pointer is outside the buffer.
\<close>

definition snprintf_at :: "nat \<Rightarrow> string \<Rightarrow> string \<times> nat \<Rightarrow> c_error + string \<times> nat" where
  "snprintf_at cap s = (\<lambda>(buf, len).
    if cap < len then Inl Out_of_bounds
    else Inr (buf @ take (cap - len - 1) s, len + length s))"

definition as_string :: "string option \<Rightarrow> c_error + string" where
  "as_string p = (case p of None \<Rightarrow> Inl Null_pointer | Some s \<Rightarrow> Inr s)"

definition header_line :: "Header option \<Rightarrow> c_error + string" where
  "header_line h = (case h of None \<Rightarrow> Inl Null_pointer
    | Some h \<Rightarrow> Inr (hkey h @ '': '' @ hval h @ CRLF))"

text \<open>The result is what is handed to \<open>send\<close>: \<open>len\<close> characters of the buffer.\<close>

definition send_response :: "HttpResponse \<Rightarrow> c_error + string" where
  "send_response response =
    rbind (as_string (status_text response)) (\<lambda>st.
    rbind (snprintf_at 4096 (''HTTP/1.1 '' @ print_int (status_code response) @ '' '' @ st @ CRLF) ([], 0)) (\<lambda>out.
    rbind (for_to 0 (response_header_count response) (\<lambda>i r. rbind r (\<lambda>out.
             rbind (header_line (response_headers response ! i)) (\<lambda>l. snprintf_at 4096 l out))) (Inr out)) (\<lambda>out.
    rbind (snprintf_at 4096 CRLF out) (\<lambda>out.
    rbind (case response_body response of None \<Rightarrow> Inr out | Some b \<Rightarrow> snprintf_at 4096 b out) (\<lambda>(buf, len).
      if 4096 < len then Inl Out_of_bounds else Inr (take len (buf @ [NUL])))))))"

section \<open>A client that is readable\<close>

text \<open>The state is what the process holds in the kernel.\<close>

type_synonym http_server = epoll_state

text \<open>The first argument is what \<open>read\<close> stores, \<open>None\<close> for the result \<open>-1\<close>.  The buffer is printed
  before it is terminated.\<close>

definition handle_read_operation :: "string option \<Rightarrow> int \<Rightarrow> http_server
    \<Rightarrow> c_error + http_server \<times> (int \<times> string) list" where
  "handle_read_operation incoming client_fd s =
    (case incoming of
       None \<Rightarrow> Inr (s, [])
     | Some msg \<Rightarrow>
         if msg = [] then Inr (s\<lparr>epoll_set := epoll_set s - {client_fd}\<rparr>, [])
         else
           let buffer = splice (replicate 4096 NUL) 0 msg
           in rbind (c_string_of buffer) (\<lambda>_.
              rbind (mem_write buffer (length msg) NUL) (\<lambda>buffer.
              rbind (parse_request buffer new_request) (\<lambda>request.
              rbind (case req_method request of None \<Rightarrow> Inl Uninitialised | Some m \<Rightarrow> Inr m) (\<lambda>m.
                let response =
                  (if m = ''GET'' then handle_get_request empty_response
                   else if m = ''POST'' then handle_post_request empty_response
                   else handle_other_request empty_response)
                in rbind (send_response response) (\<lambda>sent. Inr (s, [(client_fd, sent)])))))))"

section \<open>The loop of the server\<close>

text \<open>Nothing is kept about a new client.\<close>

definition handle_new_connection :: "accept_result list \<Rightarrow> http_server \<Rightarrow> c_error + http_server" where
  "handle_new_connection rs s = accept_loop (\<lambda>client_fd s. s) rs s"

interpretation http_accept: accept_handler "\<lambda>client_fd (s :: epoll_state). s"
  by unfold_locales simp_all

record http_kernel =
  epoll_ret :: "(int \<times> bool) list option"   \<comment> \<open>descriptors and whether \<open>EPOLLIN\<close> is set; \<open>None\<close> for \<open>-1\<close>\<close>
  accepts :: "accept_result list"
  reads :: "int \<Rightarrow> string option"

fun handle_events :: "int \<Rightarrow> http_kernel \<Rightarrow> (int \<times> bool) list \<Rightarrow> http_server
    \<Rightarrow> c_error + http_server \<times> (int \<times> string) list" where
  "handle_events server_fd k [] s = Inr (s, [])"
| "handle_events server_fd k ((fd, epollin) # es) s =
    rbind (if fd = server_fd then rbind (handle_new_connection (accepts k) s) (\<lambda>s. Inr (s, []))
           else if epollin then handle_read_operation (reads k fd) fd s
           else Inr (s, [])) (\<lambda>(s, out).
    rbind (handle_events server_fd k es s) (\<lambda>(s, out'). Inr (s, out @ out')))"

definition http_server_step :: "int \<Rightarrow> http_kernel \<Rightarrow> http_server \<Rightarrow> c_error + http_server \<times> (int \<times> string) list" where
  "http_server_step server_fd k s =
    (case epoll_ret k of None \<Rightarrow> Inl Exit_failure | Some events \<Rightarrow> handle_events server_fd k events s)"

text \<open>The part of \<open>main\<close> before the loop; the arguments are the results of the system calls.\<close>

definition http_server_start :: "int \<Rightarrow> int \<Rightarrow> (int \<Rightarrow> int) \<Rightarrow> int \<Rightarrow> int \<Rightarrow> int \<Rightarrow> int \<Rightarrow> c_error + http_server" where
  "http_server_start server_fd getfl setfl bind_ret listen_ret create_ret ctl_ret =
    (if server_fd = - 1 then Inl Exit_failure
     else if make_socket_non_blocking getfl setfl = - 1 then Inl Exit_failure
     else if bind_ret = - 1 then Inl Exit_failure
     else if listen_ret = - 1 then Inl Exit_failure
     else create_epoll create_ret ctl_ret server_fd \<lparr>epoll_set = {}, open_fds = {server_fd}\<rparr>)"

section \<open>The text of a response\<close>

definition valid_response :: "HttpResponse \<Rightarrow> bool" where
  "valid_response r \<longleftrightarrow> status_text r \<noteq> None \<and> response_header_count r \<le> length (response_headers r)
    \<and> None \<notin> set (take (response_header_count r) (response_headers r))"

definition response_text :: "HttpResponse \<Rightarrow> string" where
  "response_text r = ''HTTP/1.1 '' @ print_int (status_code r) @ '' '' @ the (status_text r) @ CRLF
    @ concat (map (\<lambda>h. hkey (the h) @ '': '' @ hval (the h) @ CRLF) (take (response_header_count r) (response_headers r)))
    @ CRLF @ (case response_body r of None \<Rightarrow> [] | Some b \<Rightarrow> b)"

text \<open>A buffer that has been given the text \<open>t\<close>, unless a pointer has already left it.\<close>

definition holds_text :: "string \<Rightarrow> c_error + string \<times> nat \<Rightarrow> bool" where
  "holds_text t r \<longleftrightarrow> r = Inr (take 4095 t, length t) \<or> r = Inl Out_of_bounds \<and> 4096 < length t"

lemma snprintf_at_4096:
  "snprintf_at 4096 s (buf, len) = (if 4096 < len then Inl Out_of_bounds else Inr (buf @ take (4095 - len) s, len + length s))"
  by (simp add: snprintf_at_def)

lemma holds_text_append: "holds_text t r \<Longrightarrow> holds_text (t @ s) (rbind r (snprintf_at 4096 s))"
  by (cases "4096 < length t") (auto simp: holds_text_def snprintf_at_4096)

lemma holds_text_body:
  "holds_text t r \<Longrightarrow> holds_text (t @ (case b of None \<Rightarrow> [] | Some s \<Rightarrow> s))
    (rbind r (\<lambda>out. case b of None \<Rightarrow> Inr out | Some s \<Rightarrow> snprintf_at 4096 s out))"
  using holds_text_append [of t r] by (cases b; cases r) simp_all

lemma holds_text_start: "holds_text [] (Inr ([], 0))"
  by (simp add: holds_text_def)

lemma holds_text_headers:
  assumes "holds_text t r" and "n \<le> length hs" and "None \<notin> set (take n hs)"
  shows "holds_text (t @ concat (map (\<lambda>h. hkey (the h) @ '': '' @ hval (the h) @ CRLF) (take n hs)))
    (for_to 0 n (\<lambda>i r. rbind r (\<lambda>out. rbind (header_line (hs ! i)) (\<lambda>l. snprintf_at 4096 l out))) r)"
  using assms(2,3)
proof (induction n)
  case (Suc n)
  let ?line = "\<lambda>h. hkey (the h) @ '': '' @ hval (the h) @ CRLF"
  have take: "take (Suc n) hs = take n hs @ [hs ! n]" using Suc.prems by (simp add: take_Suc_conv_app_nth)
  then obtain h where "hs ! n = Some h" using Suc.prems(2) by (cases "hs ! n") auto
  then have "header_line (hs ! n) = Inr (?line (hs ! n))" by (simp add: header_line_def)
  then show ?case
    using holds_text_append [OF Suc.IH, of "?line (hs ! n)"] Suc.prems by (simp add: for_to_Suc take)
qed (use assms(1) in simp)

lemma send_response_lemma:
  assumes "valid_response r"
  shows "send_response r = (if 4096 < length (response_text r) then Inl Out_of_bounds
    else Inr (take (length (response_text r)) (take 4095 (response_text r) @ [NUL])))"
proof -
  obtain st where st: "status_text r = Some st" using assms by (auto simp: valid_response_def)
  let ?line = "''HTTP/1.1 '' @ print_int (status_code r) @ '' '' @ st @ CRLF"
  let ?headers = "for_to 0 (response_header_count r) (\<lambda>i r'. rbind r' (\<lambda>out.
             rbind (header_line (response_headers r ! i)) (\<lambda>l. snprintf_at 4096 l out)))"
  let ?finish = "\<lambda>(buf, len). if 4096 < len then Inl Out_of_bounds else Inr (take len (buf @ [NUL]))"
  obtain out where out: "snprintf_at 4096 ?line ([], 0) = Inr out" "holds_text ?line (Inr out)"
    using holds_text_append [OF holds_text_start, of ?line] by (auto simp: snprintf_at_def)
  let ?t = "?line @ concat (map (\<lambda>h. hkey (the h) @ '': '' @ hval (the h) @ CRLF)
      (take (response_header_count r) (response_headers r))) @ CRLF"
  have "holds_text ?t (rbind (?headers (Inr out)) (snprintf_at 4096 CRLF))"
    using holds_text_append [OF holds_text_headers [OF out(2)]] assms by (simp add: valid_response_def)
  from holds_text_body [OF this, of "response_body r"]
  have "holds_text (response_text r) (rbind (rbind (?headers (Inr out)) (snprintf_at 4096 CRLF))
      (\<lambda>out. case response_body r of None \<Rightarrow> Inr out | Some b \<Rightarrow> snprintf_at 4096 b out))" (is "holds_text _ ?r")
    by (simp add: response_text_def st)
  moreover have "send_response r = rbind ?r ?finish"
    by (simp only: send_response_def st as_string_def option.case out(1) rbind_simps rbind_assoc)
  ultimately show ?thesis by (auto simp: holds_text_def)
qed

section \<open>What a client gets\<close>

definition reply_text :: "string \<Rightarrow> string" where
  "reply_text m =
    (if m = ''GET'' then
       ''HTTP/1.1 200 OK'' @ CRLF @ ''Content-Type: text/html'' @ CRLF @ CRLF @
       ''<html><body><h1>Hello from GET!</h1></body></html>''
     else if m = ''POST'' then
       ''HTTP/1.1 200 OK'' @ CRLF @ ''Content-Type: text/plain'' @ CRLF @ CRLF @ ''Received POST request''
     else
       ''HTTP/1.1 405 Method Not Allowed'' @ CRLF @ ''Content-Type: text/plain'' @ CRLF @ CRLF @ ''Unsupported method'')"

lemmas responses = handle_get_request_def handle_post_request_def handle_other_request_def
  add_response_header_def empty_response_def

lemma take_first_update: "xs \<noteq> [] \<Longrightarrow> take (Suc 0) (xs[0 := v]) = [v]"
  by (cases xs) simp_all

lemma send_reply:
  "send_response (if m = ''GET'' then handle_get_request empty_response
    else if m = ''POST'' then handle_post_request empty_response
    else handle_other_request empty_response) = Inr (reply_text m)" (is "send_response ?r = _")
proof -
  have "valid_response ?r" by (simp add: valid_response_def responses take_first_update)
  moreover have "response_text ?r = reply_text m"
    by (simp add: response_text_def reply_text_def responses take_first_update print_int_def print_nat.simps)
  moreover have "length (reply_text m) < 4095" by (simp add: reply_text_def)
  ultimately show ?thesis by (simp add: send_response_lemma)
qed

lemma c_str_padded: "c_str (msg @ replicate n NUL) = c_str msg"
  by (induction msg) (simp_all add: c_str_def)

lemma lines_of_padded: "lines_of (msg @ replicate n NUL) = lines_of msg"
  by (simp add: lines_of_def c_str_padded)

lemma read_buffer_padded: "length msg \<le> 4096 \<Longrightarrow> splice (replicate 4096 NUL) 0 msg = msg @ replicate (4096 - length msg) NUL"
  by (simp add: splice_def)

text \<open>The outcome of a message that leaves two zero bytes in the buffer.\<close>

definition read_outcome :: "string \<Rightarrow> int \<Rightarrow> http_server \<Rightarrow> c_error + http_server \<times> (int \<times> string) list" where
  "read_outcome msg fd s =
    (if msg = [] then Inr (s\<lparr>epoll_set := epoll_set s - {fd}\<rparr>, [])
     else case lines_of msg of
       [] \<Rightarrow> Inl Null_pointer
     | l # _ \<Rightarrow> rbind (parse_request_line l new_request) (\<lambda>r.
         case req_method r of None \<Rightarrow> Inl Uninitialised | Some m \<Rightarrow> Inr (s, [(fd, reply_text m)])))"

lemma handle_read_lemma:
  assumes "length msg \<le> 4094"
  shows "handle_read_operation (Some msg) fd s = read_outcome msg fd s"
proof (cases "msg = []")
  case False
  define buffer where "buffer = msg @ replicate (4096 - length msg) NUL"
  have n: "4096 - length msg = Suc (Suc (4094 - length msg))" using assms by simp
  then have "NUL \<in> set buffer" and count: "2 \<le> count_list buffer NUL"
    by (simp_all add: buffer_def)
  then have str: "c_string_of buffer = Inr (c_str buffer)" by (simp add: c_string_of_def)
  have "buffer[length msg := NUL] = buffer"
    by (simp add: buffer_def n list_update_append)
  then have stored: "mem_write buffer (length msg) NUL = Inr buffer"
    using assms by (simp add: mem_write_def buffer_def)
  have step: "handle_read_operation (Some msg) fd s =
      rbind (parse_request buffer new_request) (\<lambda>request.
        case req_method request of None \<Rightarrow> Inl Uninitialised | Some m \<Rightarrow> Inr (s, [(fd, reply_text m)]))"
    using False assms str stored
    by (simp add: handle_read_operation_def read_buffer_padded send_reply flip: buffer_def)
      (auto intro!: arg_cong [where f = "rbind _"] simp: fun_eq_iff send_reply split: option.splits)
  have lines: "lines_of buffer = lines_of msg" by (simp add: buffer_def lines_of_padded)
  show ?thesis
  proof (cases "lines_of msg")
    case Nil
    then have "parse_request buffer new_request = Inl Null_pointer"
      using parse_request_lemma [OF \<open>NUL \<in> set buffer\<close>] lines by simp
    then show ?thesis using Nil False step by (simp add: read_outcome_def)
  next
    case (Cons l ls)
    show ?thesis
    proof (cases "parse_request_line l new_request")
      case (Inr r)
      then obtain r' where "parse_request buffer new_request = Inr r'" "req_method r' = req_method r"
        using parse_request_total [OF count, of l ls] lines Cons by auto
      then show ?thesis using Inr Cons False step by (simp add: read_outcome_def)
    next
      case (Inl e)
      obtain after save where "strtok buffer CRLF = Inr (Some (l, after), save)"
        using strtok_line [OF \<open>NUL \<in> set buffer\<close>, of l ls] lines Cons by metis
      then have "parse_request buffer new_request = Inl e" using Inl by (simp add: parse_request_def)
      then show ?thesis using Inl Cons False step by (simp add: read_outcome_def)
    qed
  qed
qed (simp add: handle_read_operation_def read_outcome_def)

section \<open>Runs of the server\<close>

definition http_inv :: "int \<Rightarrow> http_server \<Rightarrow> bool" where
  "http_inv server_fd s \<longleftrightarrow> server_fd \<in> epoll_set s \<and> epoll_set s \<subseteq> open_fds s"

text \<open>What the kernel guarantees: events of registered descriptors, each once, new descriptors that are
  not in use, and no more characters than the buffer has room for.\<close>

definition http_legal :: "int \<Rightarrow> http_kernel \<Rightarrow> http_server \<Rightarrow> bool" where
  "http_legal server_fd k s \<longleftrightarrow>
     (case epoll_ret k of None \<Rightarrow> True | Some es \<Rightarrow> distinct (map fst es) \<and> fst ` set es \<subseteq> epoll_set s)
     \<and> fresh_accepts (accepts k) (open_fds s)"

definition http_starts :: "int \<Rightarrow> http_server \<Rightarrow> bool" where
  "http_starts server_fd s \<longleftrightarrow> s = \<lparr>epoll_set = {server_fd}, open_fds = {server_fd}\<rparr>"

definition http_message :: "int \<Rightarrow> int \<times> string \<Rightarrow> bool" where
  "http_message server_fd m \<longleftrightarrow> fst m \<noteq> server_fd \<and>
     snd m \<in> {reply_text ''GET'', reply_text ''POST'', reply_text ''OTHER''}"

lemma reply_text_cases: "reply_text m \<in> {reply_text ''GET'', reply_text ''POST'', reply_text ''OTHER''}"
  by (simp add: reply_text_def)

lemma handle_read_result:
  assumes "handle_read_operation r fd s = Inr (s', out)" and "fd \<noteq> server_fd"
  shows "(s' = s \<or> s' = s\<lparr>epoll_set := epoll_set s - {fd}\<rparr>) \<and> list_all (http_message server_fd) out"
  using assms reply_text_cases
  by (auto simp: handle_read_operation_def send_reply rbind_eq_Inr http_message_def Let_def
      split: option.splits if_splits)

text \<open>Nothing is closed, and what has been left is not monitored again.\<close>

definition keeps_fds :: "http_server \<Rightarrow> http_server \<Rightarrow> bool" where
  "keeps_fds s t \<longleftrightarrow> open_fds s \<subseteq> open_fds t \<and> (open_fds s - epoll_set s) \<inter> epoll_set t = {}"

lemma keeps_fds_refl: "keeps_fds s s"
  by (auto simp: keeps_fds_def)

lemma keeps_fds_trans: "keeps_fds s t \<Longrightarrow> keeps_fds t u \<Longrightarrow> keeps_fds s u"
  by (auto simp: keeps_fds_def)

lemma handle_events_lemma:
  assumes "handle_events server_fd k es s = Inr (s', out)" and "http_inv server_fd s"
    and "distinct (map fst es)" and "server_fd \<in> fst ` set es \<Longrightarrow> fresh_accepts (accepts k) (open_fds s)"
  shows "http_inv server_fd s' \<and> keeps_fds s s' \<and> list_all (http_message server_fd) out"
  using assms
proof (induction es arbitrary: s out)
  case (Cons e es)
  obtain fd epollin where e: "e = (fd, epollin)" by (cases e)
  obtain s1 out1 out2 where one: "(if fd = server_fd then rbind (handle_new_connection (accepts k) s) (\<lambda>s. Inr (s, []))
        else if epollin then handle_read_operation (reads k fd) fd s else Inr (s, [])) = Inr (s1, out1)"
    and rest: "handle_events server_fd k es s1 = Inr (s', out2)" and out: "out = out1 @ out2"
    using Cons.prems(1) by (auto simp: e rbind_eq_Inr)
  have "http_inv server_fd s1 \<and> keeps_fds s s1 \<and> list_all (http_message server_fd) out1
      \<and> (fd \<noteq> server_fd \<longrightarrow> open_fds s1 = open_fds s)"
  proof (cases "fd = server_fd")
    case True
    then have "handle_new_connection (accepts k) s = Inr s1" "out1 = []"
      using one by (auto simp: rbind_eq_Inr)
    moreover have "fresh_accepts (accepts k) (open_fds s)" using Cons.prems(4) True by (simp add: e)
    ultimately have "s1 = fold http_accept.admit (new_clients (accepts k)) s"
      using http_accept.accept_loop_result by (simp add: handle_new_connection_def)
    then show ?thesis
      using Cons.prems(2) True \<open>out1 = []\<close> new_clients_fresh [OF \<open>fresh_accepts (accepts k) (open_fds s)\<close>]
      by (auto simp: http_inv_def http_accept.admit_sets keeps_fds_def)
  next
    case False
    then show ?thesis
      using one Cons.prems(2) handle_read_result [of "reads k fd" fd s s1 out1 server_fd]
      by (auto simp: http_inv_def keeps_fds_def split: if_splits)
  qed
  moreover have "server_fd \<in> fst ` set es \<Longrightarrow> fd \<noteq> server_fd"
    using Cons.prems(3) by (auto simp: e)
  ultimately show ?case
    using Cons.IH [OF rest] Cons.prems(3,4) out keeps_fds_trans [of s s1 s'] by (auto simp: e)
qed (simp add: keeps_fds_refl)

lemma http_step_lemma:
  assumes "http_inv server_fd s" and "http_legal server_fd k s" and "http_server_step server_fd k s = Inr (s', out)"
  shows "http_inv server_fd s' \<and> keeps_fds s s' \<and> list_all (http_message server_fd) out"
  using assms handle_events_lemma [of server_fd k _ s s' out]
  by (auto simp: http_legal_def http_server_step_def split: option.splits)

interpretation http: server "http_starts server_fd" "http_server_step server_fd" "http_legal server_fd"
  "http_inv server_fd" "http_message server_fd" for server_fd :: int
  by unfold_locales (use http_step_lemma in \<open>blast | simp add: http_starts_def http_inv_def\<close>)+

section \<open>The results\<close>

text \<open>The outcome of every message of up to 4094 characters: an empty one means that the client has
  gone and is no longer monitored; without a line a null pointer is read, without a word in the first
  line an indeterminate method, and too long words overrun their arrays; else the client gets the reply
  to its method, and nothing else of the request matters.\<close>

theorem http_request_outcome:
  assumes "length msg \<le> 4094"
  shows "handle_read_operation (Some msg) fd s = read_outcome msg fd s"
  by (rule handle_read_lemma [OF assms])

definition demo_http :: http_server where
  "demo_http = \<lparr>epoll_set = {3, 7}, open_fds = {3, 7}\<rparr>"

theorem http_request_outcome_witness:
  "handle_read_operation (Some (''PUT /x HTTP/1.1'' @ CRLF @ CRLF)) 7 demo_http = Inr (demo_http, [(7,
     ''HTTP/1.1 405 Method Not Allowed'' @ CRLF @ ''Content-Type: text/plain'' @ CRLF @ CRLF @ ''Unsupported method'')])"
proof -
  have "lines_of (''PUT /x HTTP/1.1'' @ CRLF @ CRLF) = [''PUT /x HTTP/1.1'']"
    by (simp add: lines_of_def c_str_def fields_of_def)
  then show ?thesis
    using http_request_outcome [of "''PUT /x HTTP/1.1'' @ CRLF @ CRLF" 7 demo_http]
    by (simp add: read_outcome_def reply_text_def parse_request_line_def sscanf_field_def scan_word_def isspace_def
        stored_def)
qed

text \<open>A message that fills the buffer always leaves it: either the text is printed without a zero
  byte to end it, or the zero byte that should end it is stored behind the buffer.\<close>

theorem http_full_buffer_overruns:
  assumes "length msg = 4096"
  shows "handle_read_operation (Some msg) fd s = Inl Out_of_bounds"
proof -
  have buffer: "splice (replicate 4096 NUL) 0 msg = msg" using read_buffer_padded [of msg] assms by simp
  have "msg \<noteq> []" using assms by auto
  then show ?thesis
    unfolding handle_read_operation_def option.case buffer Let_def
    by (simp add: c_string_of_def mem_write_def assms)
qed

theorem http_full_buffer_overruns_witness:
  "handle_read_operation (Some (replicate 4096 CHR ''a'')) 7 demo_http = Inl Out_of_bounds"
  by (rule http_full_buffer_overruns) (rule length_replicate)

text \<open>What \<open>send_response\<close> sends for every response: its status line, its headers, an empty line and
  its body when they have fewer than 4096 characters; with exactly 4096 the last one is replaced by a
  zero byte, and with more the buffer is left.\<close>

theorem send_response_spec:
  assumes "valid_response r"
  shows "send_response r = (if length (response_text r) < 4096 then Inr (response_text r)
    else if length (response_text r) = 4096 then Inr (butlast (response_text r) @ [NUL])
    else Inl Out_of_bounds)"
  using send_response_lemma [OF assms] by (auto simp: butlast_conv_take)

theorem send_response_spec_witness:
  "send_response (handle_post_request empty_response) = Inr (''HTTP/1.1 200 OK'' @ CRLF
     @ ''Content-Type: text/plain'' @ CRLF @ CRLF @ ''Received POST request'')"
proof -
  have "valid_response (handle_post_request empty_response)"
    by (simp add: valid_response_def responses take_first_update)
  then show ?thesis
    using send_response_spec [of "handle_post_request empty_response"]
    by (simp add: response_text_def responses take_first_update print_int_def print_nat.simps)
qed

text \<open>The accept loop returns as soon as no connection is waiting, with exactly the connections
  monitored for which the calls of \<open>fcntl\<close> and \<open>epoll_ctl\<close> succeeded; the others are closed again.\<close>

theorem http_accept_loop:
  assumes "fresh_accepts (as @ Would_block # rest) (open_fds s)" and "\<forall>a \<in> set as. is_accepted a"
  shows "\<exists>s'. handle_new_connection (as @ Would_block # rest) s = Inr s'
    \<and> epoll_set s' = epoll_set s \<union> \<Union> (set (map (set \<circ> registered) as))
    \<and> open_fds s' = open_fds s \<union> \<Union> (set (map (set \<circ> registered) as))"
proof -
  have "takeWhile is_accepted (as @ Would_block # rest) = as" "dropWhile is_accepted (as @ Would_block # rest) = Would_block # rest"
    using assms(2) by (simp_all add: is_accepted_def)
  then show ?thesis
    using http_accept.accept_loop_closed [OF assms(1)]
    by (simp add: handle_new_connection_def http_accept.admit_sets new_clients_def)
qed

definition demo_accepts :: "accept_result list" where
  "demo_accepts = [Accepted 5 2 (\<lambda>_. 0) 0, Accepted 6 2 (\<lambda>_. - 1) 0, Accepted 6 2 (\<lambda>_. 0) 0]"

lemmas demo_simps = demo_accepts_def is_accepted_def registered_def make_socket_non_blocking_def

theorem http_accept_loop_witness:
  "\<exists>s'. handle_new_connection (demo_accepts @ [Would_block]) \<lparr>epoll_set = {3}, open_fds = {3}\<rparr> = Inr s'
    \<and> epoll_set s' = {3, 5, 6} \<and> open_fds s' = {3, 5, 6}"
  using http_accept_loop [of demo_accepts "[]" "\<lparr>epoll_set = {3}, open_fds = {3}\<rparr>"]
  by (auto simp: demo_simps insert_commute)

text \<open>C14: Over any run of the server, the listening socket stays monitored, only open descriptors are
  monitored, every message is one of the three replies and goes to a client.  And between any two moments
  of a run, no descriptor that is open at the first is closed, and none that is not monitored any more
  becomes monitored again: a client that has gone costs its descriptor for good.  (A connection that the
  accept loop cannot set up is closed within its iteration, and is open at neither moment.)\<close>

theorem http_server_run:
  assumes "http_server_start server_fd getfl setfl bind_ret listen_ret create_ret ctl_ret = Inr s"
    and "server_run (http_server_step server_fd) (http_legal server_fd) s out t"
    and "server_run (http_server_step server_fd) (http_legal server_fd) t out' u"
  shows "server_fd \<in> epoll_set u \<and> epoll_set u \<subseteq> open_fds u \<and> list_all (http_message server_fd) (out @ out')
    \<and> open_fds t \<subseteq> open_fds u \<and> (open_fds t - epoll_set t) \<inter> epoll_set u = {}"
proof -
  have "http_starts server_fd s"
    using assms(1) by (auto simp: http_server_start_def create_epoll_def http_starts_def split: if_splits)
  then have "http_inv server_fd s" by (rule http.inv_start)
  from http.run_keeps [OF assms(2) this] have t: "http_inv server_fd t" "list_all (http_message server_fd) out" by simp_all
  have "keeps_fds t u"
    by (rule http.run_relation [OF assms(3) t(1)]) (use http_step_lemma keeps_fds_refl keeps_fds_trans in blast)+
  then show ?thesis using http.run_keeps [OF assms(3) t(1)] t(2) by (simp add: http_inv_def keeps_fds_def)
qed


definition demo_visit :: http_kernel where
  "demo_visit = \<lparr>epoll_ret = Some [(3, True)], accepts = [Accepted 5 2 (\<lambda>_. 0) 0, Would_block], reads = (\<lambda>_. None)\<rparr>"

definition demo_leave :: http_kernel where
  "demo_leave = \<lparr>epoll_ret = Some [(5, True)], accepts = [], reads = (\<lambda>_. Some [])\<rparr>"

lemma demo_run:
  "server_run (http_server_step 3) (http_legal 3) \<lparr>epoll_set = {3}, open_fds = {3}\<rparr> [] \<lparr>epoll_set = {3, 5}, open_fds = {3, 5}\<rparr>"
  "server_run (http_server_step 3) (http_legal 3) \<lparr>epoll_set = {3, 5}, open_fds = {3, 5}\<rparr> [] \<lparr>epoll_set = {3}, open_fds = {3, 5}\<rparr>"
proof -
  let ?s = "\<lparr>epoll_set = {3}, open_fds = {3}\<rparr>" and ?t = "\<lparr>epoll_set = {3, 5}, open_fds = {3, 5}\<rparr>"
  have "http_server_step 3 demo_visit ?s = Inr (?t, [])"
    by (simp add: http_server_step_def demo_visit_def handle_new_connection_def make_socket_non_blocking_def insert_commute)
  then show "server_run (http_server_step 3) (http_legal 3) ?s [] ?t"
    by (rule server_run_one [rotated]) (simp add: http_legal_def demo_visit_def)
  have "http_server_step 3 demo_leave ?t = Inr (\<lparr>epoll_set = {3}, open_fds = {3, 5}\<rparr>, [])"
    by (simp add: http_server_step_def demo_leave_def handle_read_operation_def insert_Diff_if)
  then show "server_run (http_server_step 3) (http_legal 3) ?t [] \<lparr>epoll_set = {3}, open_fds = {3, 5}\<rparr>"
    by (rule server_run_one [rotated]) (simp add: http_legal_def demo_leave_def)
qed

theorem http_server_run_witness:
  "\<exists>s t u. http_server_start 3 2 (\<lambda>_. 0) 0 0 4 0 = Inr s
    \<and> server_run (http_server_step 3) (http_legal 3) s [] t \<and> server_run (http_server_step 3) (http_legal 3) t [] u
    \<and> 5 \<in> epoll_set t \<and> 5 \<notin> epoll_set u \<and> open_fds t \<subseteq> open_fds u"
proof -
  have "http_server_start 3 2 (\<lambda>_. 0) 0 0 4 0 = Inr \<lparr>epoll_set = {3}, open_fds = {3}\<rparr>"
    by (simp add: http_server_start_def create_epoll_def make_socket_non_blocking_def)
  then show ?thesis using http_server_run [OF _ demo_run] demo_run by force
qed

end
