(* ===== verification/Http_Client.thy ===== *)
theory Http_Client
  imports Http_Server
begin

text \<open>
  \<^verbatim>\<open>http-setup/http-client.c\<close>: the client of the HTTP server, and what the two do together.  The text of
  the server's address, which \<open>inet_ntop\<close> writes, and the results of the system calls are arguments.
\<close>

definition client_headers :: "string \<Rightarrow> Header list" where
  "client_headers ip_str = [\<lparr>hkey = ''Host'', hval = ip_str @ '':8080''\<rparr>, \<lparr>hkey = ''Connection'', hval = ''close''\<rparr>]"

text \<open>The text that \<open>snprintf\<close> forms, of which it stores at most 1023 characters.\<close>

definition request_of_method :: "string \<Rightarrow> string \<Rightarrow> string option \<Rightarrow> string \<Rightarrow> c_error + string option" where
  "request_of_method m path content ip_str =
    (if m = ''GET'' then
       Inr (Some (''GET '' @ path @ '' HTTP/1.1'' @ CRLF @ ''Host: '' @ ip_str @ '':8080'' @ CRLF @ ''Connection: close'' @ CRLF @ CRLF))
     else if m = ''POST'' then
       (case content of
          None \<Rightarrow> Inl Null_pointer
        | Some b \<Rightarrow>
            Inr (Some (''POST '' @ path @ '' HTTP/1.1'' @ CRLF @ ''Host: '' @ ip_str @ '':8080'' @ CRLF @ ''Connection: close'' @ CRLF
              @ ''Content-Type: application/x-www-form-urlencoded'' @ CRLF
              @ ''Content-Length: '' @ print_nat (length b) @ CRLF @ CRLF @ b)))
     else Inr None)"

text \<open>What is handed to \<open>send\<close>, and what is printed; \<open>request_len\<close> is the length of the whole text, also
  when the array is shorter.\<close>

definition send_request :: "string \<Rightarrow> string \<Rightarrow> string option \<Rightarrow> string \<Rightarrow> int \<Rightarrow> c_error + string list \<times> string list" where
  "send_request m path content ip_str send_ret =
    rbind (request_of_method m path content ip_str) (\<lambda>request.
      case request of
        None \<Rightarrow> Inr ([], [])
      | Some t \<Rightarrow>
          if 1024 < length t then Inl Out_of_bounds
          else
            let sent = take (length t) (take 1023 t @ [NUL])
            in Inr ([sent], if send_ret \<noteq> int (length t) then []
                            else [''Sent '' @ m @ '' request to '' @ ip_str @ path @ [newline]]))"

definition http_client_main :: "nat \<Rightarrow> int \<Rightarrow> int \<Rightarrow> string \<Rightarrow> int \<Rightarrow> string option \<Rightarrow> c_error + string list \<times> string list" where
  "http_client_main argc data_socket connect_ret ip_str send_ret answer =
    (if argc < 2 then Inl Exit_failure
     else if data_socket = - 1 then Inl Exit_failure
     else if connect_ret = - 1 then Inl Exit_failure
     else rbind (send_request ''GET'' ''/'' None ip_str send_ret) (\<lambda>(sent, out).
       case answer of
         None \<Rightarrow> Inl Exit_failure
       | Some msg \<Rightarrow>
           if msg = [] then Inr (sent, out @ [''Server closed the connection.'' @ [newline]])
           else Inr (sent, out @ [''Received: '' @ c_str (take 1023 msg) @ [newline], ''Client disconnected.'' @ [newline]])))"

section \<open>The request on the server's side\<close>

lemma get_request_text:
  "request_of_method ''GET'' path content ip_str =
    Inr (Some (request_text ''GET'' path ''HTTP/1.1'' (client_headers ip_str) []))"
  by (simp add: request_of_method_def request_text_def request_line_text_def client_headers_def header_text_def)

lemma get_request_outcome:
  assumes "good_word 256 path" and "good_word 16 ip_str"
  shows "\<exists>t. request_of_method ''GET'' path content ip_str = Inr (Some t) \<and> length t \<le> 400
    \<and> handle_read_operation (Some t) fd s = Inr (s, [(fd, reply_text ''GET'')])"
proof -
  let ?t = "request_text ''GET'' path ''HTTP/1.1'' (client_headers ip_str) []"
  have words: "good_word 10 ''GET''" "good_word 10 ''HTTP/1.1''" by (simp_all add: good_word_def isspace_def)
  have headers: "\<forall>h \<in> set (client_headers ip_str). good_header h"
    using good_word_plain [OF assms(2)] by (simp add: client_headers_def good_header_def)
  have len: "length ?t \<le> 400"
    using assms by (simp add: request_text_def request_line_text_def client_headers_def header_text_def good_word_def)
  have "lines_of ?t = request_line_text ''GET'' path ''HTTP/1.1'' # map header_text (client_headers ip_str)"
    using lines_of_request [OF words(1) assms(1) words(2) headers, of "[]" "[]"] by (simp add: lines_of_def c_str_def)
  moreover have "?t \<noteq> []" by (simp add: request_text_def request_line_text_def)
  ultimately have "read_outcome ?t fd s = Inr (s, [(fd, reply_text ''GET'')])"
    using parse_request_line_text [OF words(1) assms(1) words(2)] by (simp add: read_outcome_def)
  then show ?thesis using handle_read_lemma [of ?t fd s] len get_request_text by simp
qed

text \<open>The client with a server that answers with the greeting page.\<close>

lemma client_prints_page:
  assumes "good_word 16 ip_str"
  shows "\<exists>request. request_of_method ''GET'' ''/'' None ip_str = Inr (Some request) \<and> length request \<le> 400 \<and> request \<noteq> []
    \<and> (\<forall>fd s. handle_read_operation (Some request) fd s = Inr (s, [(fd, reply_text ''GET'')]))
    \<and> http_client_main 2 5 0 ip_str (int (length request)) (Some (reply_text ''GET'')) =
        Inr ([request], [''Sent GET request to '' @ ip_str @ ''/'' @ [newline],
          ''Received: '' @ reply_text ''GET'' @ [newline], ''Client disconnected.'' @ [newline]])"
proof -
  have "good_word 256 ''/''" by (simp add: good_word_def isspace_def)
  then have outcome: "\<exists>t. request_of_method ''GET'' ''/'' None ip_str = Inr (Some t) \<and> length t \<le> 400
      \<and> handle_read_operation (Some t) fd s = Inr (s, [(fd, reply_text ''GET'')])" for fd s
    using get_request_outcome assms by blast
  then obtain t where t: "request_of_method ''GET'' ''/'' None ip_str = Inr (Some t)" "length t \<le> 400" by blast
  have page: "c_str (take 1023 (reply_text ''GET'')) = reply_text ''GET''" "reply_text ''GET'' \<noteq> []"
    by (simp_all add: reply_text_def c_str_def)
  have "send_request ''GET'' ''/'' None ip_str (int (length t)) = Inr ([t], [''Sent GET request to '' @ ip_str @ ''/'' @ [newline]])"
    using t by (simp add: send_request_def)
  moreover have "t \<noteq> []" using t(1) get_request_text [of "''/''" None ip_str] by (auto simp: request_text_def request_line_text_def)
  moreover have "handle_read_operation (Some t) fd s = Inr (s, [(fd, reply_text ''GET'')])" for fd s
    using outcome [of fd s] t(1) by auto
  ultimately show ?thesis using t page by (intro exI [of _ t]) (simp add: http_client_main_def)
qed

section \<open>The result\<close>

text \<open>Client and server together: the request that the client sends gets the greeting page, the server
  stays as it is, and the client prints the whole answer.\<close>

theorem http_client_server_session:
  assumes "good_word 16 ip_str"
  shows "\<exists>request. handle_read_operation (Some request) fd s = Inr (s, [(fd, reply_text ''GET'')])
    \<and> http_client_main 2 5 0 ip_str (int (length request)) (Some (reply_text ''GET'')) =
        Inr ([request], [''Sent GET request to '' @ ip_str @ ''/'' @ [newline],
          ''Received: '' @ reply_text ''GET'' @ [newline], ''Client disconnected.'' @ [newline]])"
  using client_prints_page [OF assms] by blast

theorem http_client_server_session_witness:
  "\<exists>request. handle_read_operation (Some request) 7 demo_http = Inr (demo_http, [(7, reply_text ''GET'')])
    \<and> projr (http_client_main 2 5 0 ''127.0.0.1'' (int (length request)) (Some (reply_text ''GET'')))
      = ([request], [''Sent GET request to 127.0.0.1/'' @ [newline],
          ''Received: '' @ reply_text ''GET'' @ [newline], ''Client disconnected.'' @ [newline]])"
proof -
  have "good_word 16 ''127.0.0.1''" by (simp add: good_word_def isspace_def)
  from http_client_server_session [OF this, of 7 demo_http] show ?thesis by auto
qed

end
