(* ===== verification/Http_Iteration.thy ===== *)
theory Http_Iteration
  imports Http_Server
begin

text \<open>
  One iteration of the loop in \<^verbatim>\<open>http-setup/http-server.c\<close> in closed form: which clients are answered, with
  what, and which descriptors are monitored afterwards, for any list of events; and when it ends the server.
\<close>

section \<open>One iteration of the loop\<close>

text \<open>The clients whose descriptors are readable, in the order of the events, and the answer to what is
  read from one of them: a reply, nothing, or an error.\<close>

definition ready :: "int \<Rightarrow> (int \<times> bool) list \<Rightarrow> int list" where
  "ready server_fd es = map fst (filter (\<lambda>(fd, epollin). fd \<noteq> server_fd \<and> epollin) es)"

definition answer :: "string option \<Rightarrow> c_error + string list" where
  "answer r =
    (case r of
       None \<Rightarrow> Inr []
     | Some msg \<Rightarrow>
         if msg = [] then Inr []
         else case lines_of msg of
           [] \<Rightarrow> Inl Null_pointer
         | l # _ \<Rightarrow> rbind (parse_request_line l new_request) (\<lambda>q.
             case req_method q of None \<Rightarrow> Inl Uninitialised | Some m \<Rightarrow> Inr [reply_text m]))"

definition replies :: "(int \<Rightarrow> string option) \<Rightarrow> int list \<Rightarrow> (int \<times> string) list" where
  "replies rd fds = concat (map (\<lambda>fd. case answer (rd fd) of Inl _ \<Rightarrow> [] | Inr ts \<Rightarrow> map (Pair fd) ts) fds)"

definition gone :: "(int \<Rightarrow> string option) \<Rightarrow> int list \<Rightarrow> int set" where
  "gone rd fds = {fd \<in> set fds. rd fd = Some []}"

definition short_reads :: "(int \<Rightarrow> string option) \<Rightarrow> int list \<Rightarrow> bool" where
  "short_reads rd fds \<longleftrightarrow> (\<forall>fd \<in> set fds. \<forall>msg. rd fd = Some msg \<longrightarrow> length msg \<le> 4094)"

lemma ready_Cons: "ready server_fd ((fd, epollin) # es) =
    (if fd \<noteq> server_fd \<and> epollin then fd # ready server_fd es else ready server_fd es)"
  by (simp add: ready_def)

lemma ready_subset: "set (ready server_fd es) \<subseteq> fst ` set es - {server_fd}"
  by (auto simp: ready_def)

lemma handle_read_answer:
  assumes "\<forall>msg. r = Some msg \<longrightarrow> length msg \<le> 4094"
  shows "handle_read_operation r fd s = rbind (answer r) (\<lambda>ts.
    Inr (if r = Some [] then s\<lparr>epoll_set := epoll_set s - {fd}\<rparr> else s, map (Pair fd) ts))"
proof (cases r)
  case (Some msg)
  then have "handle_read_operation r fd s = read_outcome msg fd s" using assms handle_read_lemma by simp
  then show ?thesis
    using Some by (auto simp: read_outcome_def answer_def rbind_assoc split: list.splits option.splits intro!: rbind_cong)
qed (simp add: handle_read_operation_def answer_def)

lemma events_answered:
  assumes "distinct (map fst es)" and "short_reads (reads k) (ready server_fd es)"
    and "fst ` set es \<subseteq> open_fds s"
    and "server_fd \<in> fst ` set es \<Longrightarrow> fresh_accepts (accepts k) (open_fds s) \<and> (\<exists>rest. dropWhile is_accepted (accepts k) = Would_block # rest)"
    and "\<forall>fd \<in> set (ready server_fd es). \<exists>ts. answer (reads k fd) = Inr ts"
  shows "\<exists>s'. handle_events server_fd k es s = Inr (s', replies (reads k) (ready server_fd es))
    \<and> epoll_set s' = epoll_set s - gone (reads k) (ready server_fd es)
        \<union> (if server_fd \<in> fst ` set es then set (new_clients (accepts k)) else {})
    \<and> open_fds s' = open_fds s \<union> (if server_fd \<in> fst ` set es then set (new_clients (accepts k)) else {})"
  using assms
proof (induction es arbitrary: s)
  case (Cons e es)
  obtain fd epollin where e: "e = (fd, epollin)" by (cases e)
  let ?new = "set (new_clients (accepts k))" and ?ready = "ready server_fd es"
  consider "fd = server_fd" | "fd \<noteq> server_fd" "epollin" | "fd \<noteq> server_fd" "\<not> epollin" by blast
  then show ?case
  proof cases
    case 1
    let ?s = "fold http_accept.admit (new_clients (accepts k)) s"
    have fresh: "fresh_accepts (accepts k) (open_fds s)"
      and "\<exists>rest. dropWhile is_accepted (accepts k) = Would_block # rest"
      using Cons.prems(4) 1 by (auto simp: e)
    then have new: "handle_new_connection (accepts k) s = Inr ?s"
      using http_accept.accept_loop_closed [of "accepts k" s] by (auto simp: handle_new_connection_def)
    have no_more: "server_fd \<notin> fst ` set es" using Cons.prems(1) 1 by (simp add: e)
    have sub: "fst ` set es \<subseteq> open_fds ?s" using Cons.prems(3) by (auto simp: e http_accept.admit_sets)
    have "gone (reads k) ?ready \<inter> ?new = {}"
      using new_clients_fresh [OF fresh] Cons.prems(3) ready_subset [of server_fd es] by (fastforce simp: e gone_def)
    moreover obtain s' where "handle_events server_fd k es ?s = Inr (s', replies (reads k) ?ready)"
        "epoll_set s' = epoll_set ?s - gone (reads k) ?ready" "open_fds s' = open_fds ?s"
      using Cons.IH [of ?s] Cons.prems(1,2,5) 1 no_more sub by (auto simp: e ready_Cons)
    ultimately show ?thesis
      using 1 new by (auto simp: e ready_Cons http_accept.admit_sets)
  next
    case 2
    then obtain ts where ts: "answer (reads k fd) = Inr ts"
      using Cons.prems(5) by (auto simp: e ready_Cons)
    define s1 where "s1 = (if reads k fd = Some [] then s\<lparr>epoll_set := epoll_set s - {fd}\<rparr> else s)"
    then have sets: "epoll_set s1 = epoll_set s - {x \<in> {fd}. reads k x = Some []}" "open_fds s1 = open_fds s" by auto
    have read: "handle_read_operation (reads k fd) fd s = Inr (s1, map (Pair fd) ts)"
      using handle_read_answer [of "reads k fd" fd s] Cons.prems(2) 2 ts by (simp add: e ready_Cons short_reads_def s1_def)
    have "\<exists>s'. handle_events server_fd k es s1 = Inr (s', replies (reads k) ?ready)
        \<and> epoll_set s' = epoll_set s1 - gone (reads k) ?ready \<union> (if server_fd \<in> fst ` set es then ?new else {})
        \<and> open_fds s' = open_fds s1 \<union> (if server_fd \<in> fst ` set es then ?new else {})"
      using Cons.IH [of s1] Cons.prems 2 by (simp add: e ready_Cons short_reads_def sets(2))
    then obtain s' where "handle_events server_fd k es s1 = Inr (s', replies (reads k) ?ready)"
        "epoll_set s' = epoll_set s1 - gone (reads k) ?ready \<union> (if server_fd \<in> fst ` set es then ?new else {})"
        "open_fds s' = open_fds s1 \<union> (if server_fd \<in> fst ` set es then ?new else {})" by blast
    then show ?thesis
      using 2 read ts by (auto simp: e ready_Cons replies_def gone_def sets)
  next
    case 3
    then show ?thesis
      using Cons.IH [of s] Cons.prems by (simp add: e ready_Cons) (elim exE conjE; simp)
  qed
qed (simp add: ready_def replies_def gone_def)

lemma events_fail:
  assumes "short_reads (reads k) (ready server_fd es)" and "fd \<in> set (ready server_fd es)" and "answer (reads k fd) = Inl e"
  shows "\<exists>e. handle_events server_fd k es s = Inl e"
  using assms
proof (induction es arbitrary: s)
  case (Cons ev es)
  obtain fd' epollin where ev: "ev = (fd', epollin)" by (cases ev)
  show ?case
  proof (cases "fd' \<noteq> server_fd \<and> epollin \<and> fd' = fd")
    case True
    then have "handle_read_operation (reads k fd) fd s = Inl e"
      using handle_read_answer [of "reads k fd" fd s] Cons.prems by (simp add: ev ready_Cons short_reads_def)
    then show ?thesis using True by (simp add: ev)
  next
    case False
    then have "fd \<in> set (ready server_fd es)" "short_reads (reads k) (ready server_fd es)"
      using Cons.prems by (auto simp: ev ready_Cons short_reads_def split: if_splits)
    then have fail: "\<exists>e. handle_events server_fd k es s = Inl e" for s using Cons.IH Cons.prems(3) by simp
    have "\<exists>e. rbind r (\<lambda>(s, out). rbind (handle_events server_fd k es s) (\<lambda>(s, out'). Inr (s, out @ out'))) = Inl e"
      for r :: "c_error + http_server \<times> (int \<times> string) list"
    proof (cases r)
      case (Inr x)
      then show ?thesis using fail [of "fst x"] by (cases x) auto
    qed simp
    then show ?thesis by (simp only: ev handle_events.simps)
  qed
qed (simp add: ready_def)

text \<open>C5: One iteration of the server, for any number of clients: when \<open>epoll_wait\<close> has reported its events,
  every client from which a request has been read is sent the reply to that request, in the order of the
  events, whatever the others have sent; those that have gone are no longer monitored, the new ones are.
  But a request of a single client that the parser does not survive ends the server for all.\<close>

theorem http_iteration:
  assumes "epoll_ret k = Some es" and "http_legal server_fd k s" and "epoll_set s \<subseteq> open_fds s"
    and "short_reads (reads k) (ready server_fd es)"
    and "server_fd \<in> fst ` set es \<Longrightarrow> \<exists>rest. dropWhile is_accepted (accepts k) = Would_block # rest"
    and "new = (if server_fd \<in> fst ` set es then set (new_clients (accepts k)) else {})"
  shows "if \<forall>fd \<in> set (ready server_fd es). \<exists>ts. answer (reads k fd) = Inr ts
    then \<exists>s'. http_server_step server_fd k s = Inr (s', replies (reads k) (ready server_fd es))
      \<and> epoll_set s' = epoll_set s - gone (reads k) (ready server_fd es) \<union> new
      \<and> open_fds s' = open_fds s \<union> new
    else \<exists>e. http_server_step server_fd k s = Inl e"
proof (cases "\<forall>fd \<in> set (ready server_fd es). \<exists>ts. answer (reads k fd) = Inr ts")
  case True
  have "distinct (map fst es)" "fst ` set es \<subseteq> open_fds s" "fresh_accepts (accepts k) (open_fds s)"
    using assms(1-3) by (auto simp: http_legal_def)
  then have "\<exists>s'. handle_events server_fd k es s = Inr (s', replies (reads k) (ready server_fd es))
      \<and> epoll_set s' = epoll_set s - gone (reads k) (ready server_fd es) \<union> new \<and> open_fds s' = open_fds s \<union> new"
    unfolding assms(6) using assms(4,5) True by (intro events_answered) auto
  then show ?thesis using True assms(1) by (simp add: http_server_step_def)
next
  case False
  then obtain fd e where "fd \<in> set (ready server_fd es)" "answer (reads k fd) = Inl e"
    by (metis sum.exhaust)
  then show ?thesis
    unfolding if_not_P [OF False] using events_fail [OF assms(4), of fd e s] assms(1) by (simp add: http_server_step_def)
qed

definition demo_three :: http_kernel where
  "demo_three = \<lparr>epoll_ret = Some [(7, True), (3, True), (8, True)], accepts = [Accepted 5 2 (\<lambda>_. 0) 0, Would_block],
     reads = (\<lambda>fd. Some (if fd = 7 then [] else ''GET / HTTP/1.1'' @ CRLF @ CRLF))\<rparr>"

theorem http_iteration_witness:
  "\<exists>s'. http_server_step 3 demo_three \<lparr>epoll_set = {3, 7, 8}, open_fds = {3, 7, 8}\<rparr> = Inr (s', [(8, reply_text ''GET'')])
    \<and> epoll_set s' = {3, 5, 8} \<and> open_fds s' = {3, 5, 7, 8}"
proof -
  have "lines_of (''GET / HTTP/1.1'' @ CRLF @ CRLF) = [''GET / HTTP/1.1'']"
    by (simp add: lines_of_def c_str_def fields_of_def)
  then have get: "answer (Some (''GET / HTTP/1.1'' @ CRLF @ CRLF)) = Inr [reply_text ''GET'']"
    by (simp add: answer_def parse_request_line_def sscanf_field_def scan_word_def isspace_def stored_def)
  have ready: "ready 3 [(7, True), (3, True), (8, True)] = [7, 8]" by (simp add: ready_def)
  have gone: "gone (reads demo_three) [7, 8] = {7}" by (auto simp: gone_def demo_three_def)
  have none: "answer (Some []) = Inr []" by (simp add: answer_def)
  have new: "set (new_clients (accepts demo_three)) = {5}"
    by (simp add: demo_three_def new_clients_def registered_def is_accepted_def make_socket_non_blocking_def)
  from http_iteration [of demo_three "[(7, True), (3, True), (8, True)]" 3 "\<lparr>epoll_set = {3, 7, 8}, open_fds = {3, 7, 8}\<rparr>" "{5}"]
  obtain s' where "http_server_step 3 demo_three \<lparr>epoll_set = {3, 7, 8}, open_fds = {3, 7, 8}\<rparr> = Inr (s', replies (reads demo_three) [7, 8])"
      "epoll_set s' = {3, 7, 8} - {7} \<union> {5}" "open_fds s' = {3, 7, 8} \<union> {5}"
    using get none new gone ready by (auto simp: demo_three_def http_legal_def short_reads_def is_accepted_def)
  moreover have "replies (reads demo_three) [7, 8] = [(8, reply_text ''GET'')]"
    using get none by (simp add: replies_def demo_three_def)
  ultimately show ?thesis by (intro exI [of _ s']) auto
qed

section \<open>The exchanges of a run\<close>

lemma events_replies:
  "handle_events server_fd k es s = Inr (s', out) \<Longrightarrow> short_reads (reads k) (ready server_fd es)
    \<Longrightarrow> out = replies (reads k) (ready server_fd es)"
proof (induction es arbitrary: s out)
  case (Cons e es)
  obtain fd epollin where e: "e = (fd, epollin)" by (cases e)
  obtain s1 out1 out2 where one: "(if fd = server_fd then rbind (handle_new_connection (accepts k) s) (\<lambda>s. Inr (s, []))
        else if epollin then handle_read_operation (reads k fd) fd s else Inr (s, [])) = Inr (s1, out1)"
    and rest: "handle_events server_fd k es s1 = Inr (s', out2)" and out: "out = out1 @ out2"
    using Cons.prems(1) by (auto simp: e rbind_eq_Inr)
  have "out2 = replies (reads k) (ready server_fd es)"
    using Cons.IH [OF rest] Cons.prems(2) by (simp add: e ready_Cons short_reads_def split: if_splits)
  moreover have "out1 = (if fd \<noteq> server_fd \<and> epollin then replies (reads k) [fd] else [])"
    using one Cons.prems(2) handle_read_answer [of "reads k fd" fd s]
    by (cases "answer (reads k fd)") (auto simp: e ready_Cons short_reads_def replies_def rbind_eq_Inr split: if_splits)
  ultimately show ?case by (simp add: out e ready_Cons replies_def)
qed (simp add: ready_def replies_def)

lemma step_replies:
  assumes "http_server_step server_fd k s = Inr (s', out)" and "epoll_ret k = Some es"
    and "short_reads (reads k) (ready server_fd es)"
  shows "out = replies (reads k) (ready server_fd es)
    \<and> (\<forall>fd \<in> set (ready server_fd es). \<exists>ts. answer (reads k fd) = Inr ts)"
proof -
  have events: "handle_events server_fd k es s = Inr (s', out)" using assms(1,2) by (simp add: http_server_step_def)
  have "\<exists>ts. answer (reads k fd) = Inr ts" if "fd \<in> set (ready server_fd es)" for fd
    using events_fail [OF assms(3) that, of _ s] events by (cases "answer (reads k fd)") auto
  then show ?thesis using events_replies [OF events assms(3)] by blast
qed

lemma replies_to:
  "distinct fds \<Longrightarrow> sent_to fd (replies rd fds) =
    (if fd \<in> set fds then case answer (rd fd) of Inl _ \<Rightarrow> [] | Inr ts \<Rightarrow> ts else [])"
proof (induction fds)
  case (Cons x fds)
  have "sent_to fd (map (Pair x) ts) = (if x = fd then ts else [])" for ts :: "string list"
    by (induction ts) auto
  moreover have "replies rd (x # fds) = (case answer (rd x) of Inl _ \<Rightarrow> [] | Inr ts \<Rightarrow> map (Pair x) ts) @ replies rd fds"
    by (simp add: replies_def)
  ultimately show ?case using Cons by (cases "answer (rd x)") auto
qed (simp add: replies_def)

text \<open>What has been read from a client in the iterations of a run.\<close>

definition requests :: "int \<Rightarrow> int \<Rightarrow> http_kernel list \<Rightarrow> string option list" where
  "requests server_fd fd ks = concat (map (\<lambda>k. case epoll_ret k of
     None \<Rightarrow> [] | Some es \<Rightarrow> if fd \<in> set (ready server_fd es) then [reads k fd] else []) ks)"

text \<open>\<open>epoll_wait\<close> names a descriptor once, and no message fills the buffer.\<close>

definition orderly :: "int \<Rightarrow> http_kernel \<Rightarrow> bool" where
  "orderly server_fd k \<longleftrightarrow> (case epoll_ret k of None \<Rightarrow> True | Some es \<Rightarrow>
     distinct (map fst es) \<and> short_reads (reads k) (ready server_fd es))"

lemma answers_to_requests:
  assumes "run_steps (http_server_step server_fd) ks s = Inr (s', outs)" and "list_all (orderly server_fd) ks"
  shows "\<exists>tss. map answer (requests server_fd fd ks) = map Inr tss \<and> sent_to fd (concat outs) = concat tss"
  using assms
proof (induction ks arbitrary: s outs)
  case (Cons k ks)
  obtain s1 out outs' where step: "http_server_step server_fd k s = Inr (s1, out)"
    and rest: "run_steps (http_server_step server_fd) ks s1 = Inr (s', outs')" and outs: "outs = out # outs'"
    using Cons.prems(1) unfolding run_steps_Cons by blast
  obtain tss where tss: "map answer (requests server_fd fd ks) = map Inr tss" "sent_to fd (concat outs') = concat tss"
    using Cons.IH [OF rest] Cons.prems(2) by auto
  obtain es where es: "epoll_ret k = Some es" using step by (auto simp: http_server_step_def split: option.splits)
  then have "distinct (ready server_fd es)" "short_reads (reads k) (ready server_fd es)"
    using Cons.prems(2) by (simp_all add: orderly_def ready_def distinct_map_filter)
  with step_replies [OF step es] replies_to [of "ready server_fd es" fd "reads k"]
  have "if fd \<in> set (ready server_fd es) then \<exists>ts. answer (reads k fd) = Inr ts \<and> sent_to fd out = ts else sent_to fd out = []"
    by force
  then show ?case
  proof (cases "fd \<in> set (ready server_fd es)")
    case True
    then obtain ts where "answer (reads k fd) = Inr ts" "sent_to fd out = ts"
      using \<open>if _ then _ else _\<close> by auto
    then show ?thesis using tss es True by (intro exI [of _ "ts # tss"]) (simp add: requests_def outs)
  next
    case False
    then show ?thesis
      using \<open>if _ then _ else _\<close> tss es by (intro exI [of _ tss]) (simp add: requests_def outs)
  qed
qed (simp add: requests_def)

text \<open>C13: Over any run of the server, each client is sent the answers to its own requests, one for each that is
  read, in the order in which they are read, and nothing else, whatever the other clients do.\<close>

theorem http_exchanges:
  assumes "run_steps (http_server_step server_fd) ks s = Inr (s', outs)" and "list_all (orderly server_fd) ks"
  shows "\<exists>tss. map answer (requests server_fd fd ks) = map Inr tss \<and> sent_to fd (concat outs) = concat tss"
  using assms by (rule answers_to_requests)

definition demo_pair :: http_kernel where
  "demo_pair = \<lparr>epoll_ret = Some [(7, True), (8, True)], accepts = [],
     reads = (\<lambda>fd. Some ((if fd = 7 then ''GET / HTTP/1.1'' else ''POST / HTTP/1.1'') @ CRLF))\<rparr>"

lemma demo_pair_answers:
  "answer (reads demo_pair 7) = Inr [reply_text ''GET'']" "answer (reads demo_pair 8) = Inr [reply_text ''POST'']"
proof -
  have "lines_of (''GET / HTTP/1.1'' @ CRLF) = [''GET / HTTP/1.1'']" "lines_of (''POST / HTTP/1.1'' @ CRLF) = [''POST / HTTP/1.1'']"
    by (simp_all add: lines_of_def c_str_def fields_of_def)
  then show "answer (reads demo_pair 7) = Inr [reply_text ''GET'']" "answer (reads demo_pair 8) = Inr [reply_text ''POST'']"
    by (simp_all add: demo_pair_def answer_def parse_request_line_def sscanf_field_def scan_word_def isspace_def stored_def)
qed

lemma demo_pair_step:
  "http_server_step 3 demo_pair s = Inr (s, [(7, reply_text ''GET''), (8, reply_text ''POST'')])"
proof -
  have "handle_read_operation (reads demo_pair 7) 7 s = Inr (s, [(7, reply_text ''GET'')])"
    "handle_read_operation (reads demo_pair 8) 8 s = Inr (s, [(8, reply_text ''POST'')])"
    using handle_read_answer [of "reads demo_pair 7" 7 s] handle_read_answer [of "reads demo_pair 8" 8 s]
    unfolding demo_pair_answers by (simp_all add: demo_pair_def)
  moreover have "epoll_ret demo_pair = Some [(7, True), (8, True)]" by (simp add: demo_pair_def)
  ultimately show ?thesis by (simp add: http_server_step_def)
qed

theorem http_exchanges_witness:
  "\<exists>s' outs tss. run_steps (http_server_step 3) [demo_pair, demo_pair] \<lparr>epoll_set = {3, 7, 8}, open_fds = {3, 7, 8}\<rparr> = Inr (s', outs)
    \<and> map answer (requests 3 8 [demo_pair, demo_pair]) = map Inr tss \<and> sent_to 8 (concat outs) = concat tss
    \<and> sent_to 8 (concat outs) = [reply_text ''POST'', reply_text ''POST'']"
proof -
  let ?s = "\<lparr>epoll_set = {3, 7, 8}, open_fds = {3, 7, 8}\<rparr>" and ?out = "[(7 :: int, reply_text ''GET''), (8, reply_text ''POST'')]"
  have run: "run_steps (http_server_step 3) [demo_pair, demo_pair] ?s = Inr (?s, [?out, ?out])"
    by (simp add: demo_pair_step)
  have "list_all (orderly 3) [demo_pair, demo_pair]"
    by (simp add: orderly_def demo_pair_def ready_def short_reads_def)
  from http_exchanges [OF run this, of 8] run show ?thesis by auto
qed

end
