(* ===== verification/Http_Session.thy ===== *)
theory Http_Session
  imports Http_Client Http_Iteration
begin

text \<open>
  A session of \<^verbatim>\<open>http-setup/http-client.c\<close> with the server of \<^verbatim>\<open>http-server.c\<close>, among any other clients and over
  any run.
\<close>

lemma answer_of_reply:
  assumes "\<And>s. handle_read_operation (Some request) fd s = Inr (s, [(fd, t)])" and "length request \<le> 4094"
  shows "answer (Some request) = Inr [t]"
proof (cases "answer (Some request)")
  case (Inl e)
  then show ?thesis using handle_read_answer [of "Some request" fd undefined] assms by simp
next
  case (Inr ts)
  then have "map (Pair fd) ts = [(fd, t)]" using handle_read_answer [of "Some request" fd undefined] assms by simp
  then show ?thesis using Inr by auto
qed

lemma answer_of_end: "answer (Some []) = Inr []"
  by (simp add: answer_def)

text \<open>C37: The client and the server, whatever other clients connect, ask and leave in between: when the request
  of the client is delivered by one \<open>read\<close>, with the end of its connection at most after it, the server
  sends the client the greeting page and nothing else, and the client prints the whole of it.\<close>

theorem http_client_among_clients:
  assumes "good_word 16 ip_str" and "request_of_method ''GET'' ''/'' None ip_str = Inr (Some request)"
    and "run_steps (http_server_step server_fd) ks s = Inr (s', outs)" and "list_all (orderly server_fd) ks"
    and "requests server_fd fd ks \<in> {[Some request], [Some request, Some []]}"
  shows "sent_to fd (concat outs) = [reply_text ''GET'']
    \<and> http_client_main 2 5 0 ip_str (int (length request)) (Some (concat (sent_to fd (concat outs)))) =
        Inr ([request], [''Sent GET request to '' @ ip_str @ ''/'' @ [newline],
          ''Received: '' @ reply_text ''GET'' @ [newline], ''Client disconnected.'' @ [newline]])"
proof -
  have request: "length request \<le> 400" "\<And>fd s. handle_read_operation (Some request) fd s = Inr (s, [(fd, reply_text ''GET'')])"
    and client: "http_client_main 2 5 0 ip_str (int (length request)) (Some (reply_text ''GET'')) =
        Inr ([request], [''Sent GET request to '' @ ip_str @ ''/'' @ [newline],
          ''Received: '' @ reply_text ''GET'' @ [newline], ''Client disconnected.'' @ [newline]])"
    using client_prints_page [OF assms(1)] assms(2) by auto
  have "answer (Some request) = Inr [reply_text ''GET'']" by (rule answer_of_reply) (use request in simp_all)
  then have "sent_to fd (concat outs) = [reply_text ''GET'']"
    using answers_to_requests [OF assms(3,4), of fd] assms(5) answer_of_end by auto
  then show ?thesis using client by simp
qed

definition demo_visit :: "string \<Rightarrow> http_kernel" where
  "demo_visit request = \<lparr>epoll_ret = Some [(8, True), (7, True)], accepts = [],
     reads = (\<lambda>fd. Some (if fd = 7 then request else []))\<rparr>"

theorem http_client_among_clients_witness:
  "\<exists>request s' outs. request_of_method ''GET'' ''/'' None ''127.0.0.1'' = Inr (Some request)
    \<and> run_steps (http_server_step 3) [demo_visit request] \<lparr>epoll_set = {3, 7, 8}, open_fds = {3, 7, 8}\<rparr> = Inr (s', outs)
    \<and> sent_to 7 (concat outs) = [reply_text ''GET'']"
proof -
  have ip: "good_word 16 ''127.0.0.1''" by (simp add: good_word_def isspace_def)
  obtain request where request: "request_of_method ''GET'' ''/'' None ''127.0.0.1'' = Inr (Some request)" "length request \<le> 400"
      "\<And>fd s. handle_read_operation (Some request) fd s = Inr (s, [(fd, reply_text ''GET'')])"
    using client_prints_page [OF ip] by blast
  let ?s = "\<lparr>epoll_set = {3, 7, 8}, open_fds = {3, 7, 8}\<rparr>"
  have "handle_read_operation (Some []) 8 ?s = Inr (\<lparr>epoll_set = {3, 7}, open_fds = {3, 7, 8}\<rparr>, [])"
    using handle_read_answer [of "Some []" 8 ?s] answer_of_end by auto
  then have "run_steps (http_server_step 3) [demo_visit request] ?s =
      Inr (\<lparr>epoll_set = {3, 7}, open_fds = {3, 7, 8}\<rparr>, [[(7, reply_text ''GET'')]])"
    using request(3) by (simp add: http_server_step_def demo_visit_def)
  moreover have "list_all (orderly 3) [demo_visit request]"
    using request(2) by (simp add: orderly_def demo_visit_def ready_def short_reads_def)
  moreover have "requests 3 7 [demo_visit request] = [Some request]"
    by (simp add: requests_def demo_visit_def ready_def)
  ultimately show ?thesis using http_client_among_clients [OF ip request(1)] request(1) by blast
qed

end
