(* ===== verification/Tokenizer.thy ===== *)
theory Tokenizer
  imports C_String
begin

text \<open>
  \<open>tokenize_by_space\<close>, the function that \<^verbatim>\<open>file-processing/tokenization/space-tokenization.c\<close> and
  \<^verbatim>\<open>file-processing/doc-summary/summarization.c\<close> share: it copies the words of a string one after the
  other into a new buffer and stores a pointer to each.  A pointer into the buffer is its offset, and a
  character of the buffer is \<open>None\<close> until it is written.

  The results: the tokens are the fields of the string, and the copies never leave the buffer.
\<close>

section \<open>The code\<close>

record tokenizer =
  tokens :: "nat list"
  buffer :: "char option list"
  buffer_index :: nat
  start :: nat

text \<open>A character of the string; the last one read is the zero byte that ends it.\<close>

definition char_at :: "string \<Rightarrow> nat \<Rightarrow> char" where
  "char_at str i = (if i < length str then str ! i else NUL)"

text \<open>The body of the loop.\<close>

definition token_step :: "string \<Rightarrow> char \<Rightarrow> nat \<Rightarrow> nat \<Rightarrow> tokenizer \<Rightarrow> c_error + tokenizer" where
  "token_step str delim max_tokens_size i t =
    (if char_at str i = delim \<or> char_at str i = NUL then
       let tok_len = i - start t
       in rbind
           (if 0 < tok_len \<and> length (tokens t) < max_tokens_size then
              rbind (memcpy_at (buffer t) (buffer_index t) (map Some (take tok_len (drop (start t) str)))) (\<lambda>b.
              rbind (mem_write b (buffer_index t + tok_len) (Some NUL)) (\<lambda>b.
                Inr (t\<lparr>buffer := b, tokens := tokens t @ [buffer_index t],
                       buffer_index := buffer_index t + tok_len + 1\<rparr>)))
            else Inr t) (\<lambda>t. Inr (t\<lparr>start := i + 1\<rparr>))
     else Inr t)"

text \<open>The offsets of the tokens and the buffer; without memory there are none.\<close>

definition tokenize_by_space :: "string \<Rightarrow> char \<Rightarrow> nat \<Rightarrow> bool \<Rightarrow> c_error + nat list \<times> char option list" where
  "tokenize_by_space str delim max_tokens_size malloc_ok =
    (if \<not> malloc_ok then Inr ([], [])
     else rbind (for_to 0 (length str + 1) (\<lambda>i r. rbind r (token_step str delim max_tokens_size i))
            (Inr \<lparr>tokens = [], buffer = replicate (length str + 1) None, buffer_index = 0, start = 0\<rparr>))
            (\<lambda>t. Inr (tokens t, buffer t)))"

text \<open>The strings that the pointers point to.\<close>

definition strings_at :: "nat list \<times> char option list \<Rightarrow> (c_error + string) list" where
  "strings_at = (\<lambda>(offsets, buf). map (\<lambda>off. string_in (drop off buf)) offsets)"

section \<open>The state of the loop\<close>

definition packed :: "string list \<Rightarrow> string" where
  "packed ts = concat (map (\<lambda>t. t @ [NUL]) ts)"

fun offsets :: "nat \<Rightarrow> string list \<Rightarrow> nat list" where
  "offsets n [] = []"
| "offsets n (t # ts) = n # offsets (n + length t + 1) ts"

lemma packed_simps [simp]:
  "packed [] = []" "packed (t # ts) = t @ NUL # packed ts" "packed (ts @ us) = packed ts @ packed us"
  by (simp_all add: packed_def)

lemma offsets_append: "offsets n (ts @ us) = offsets n ts @ offsets (n + length (packed ts)) us"
  by (induction ts arbitrary: n) (simp_all add: add.assoc)

lemma length_offsets [simp]: "length (offsets n ts) = length ts"
  by (induction ts arbitrary: n) simp_all

lemma strings_at_packed:
  assumes "\<forall>t \<in> set ts. NUL \<notin> set t" and "length pre = n"
  shows "strings_at (offsets n ts, pre @ map Some (packed ts) @ rest) = map Inr ts"
  using assms
proof (induction ts arbitrary: n pre)
  case (Cons t ts)
  have "strings_at (offsets (n + length t + 1) ts, (pre @ map Some t @ [Some NUL]) @ map Some (packed ts) @ rest) = map Inr ts"
    by (rule Cons.IH) (use Cons.prems in auto)
  then show ?case using Cons.prems by (simp add: strings_at_def string_in_terminated)
qed (simp add: strings_at_def)

definition separator :: "char \<Rightarrow> char \<Rightarrow> bool" where
  "separator delim c \<longleftrightarrow> c = delim \<or> c = NUL"

definition token_inv :: "string \<Rightarrow> char \<Rightarrow> nat \<Rightarrow> nat \<Rightarrow> tokenizer \<Rightarrow> bool" where
  "token_inv str delim m i t \<longleftrightarrow>
    (let pre = take (start t) (str @ [NUL]); ts = take m (fields_of (separator delim) pre)
     in start t \<le> i \<and> (pre = [] \<or> separator delim (last pre))
       \<and> (\<forall>j. start t \<le> j \<and> j < i \<longrightarrow> \<not> separator delim (char_at str j))
       \<and> tokens t = offsets 0 ts \<and> buffer_index t = length (packed ts) \<and> buffer_index t \<le> start t
       \<and> (\<exists>rest. buffer t = map Some (packed ts) @ rest) \<and> length (buffer t) = length str + 1)"

lemma char_at_nth: "i \<le> length str \<Longrightarrow> char_at str i = (str @ [NUL]) ! i"
  by (simp add: char_at_def nth_append)

lemma token_step_keeps:
  assumes inv: "token_inv str delim m i t" and i: "i \<le> length str"
  shows "\<exists>u. token_step str delim m i t = Inr u \<and> token_inv str delim m (Suc i) u"
proof (cases "separator delim (char_at str i)")
  case False
  then have "token_step str delim m i t = Inr t" by (simp add: token_step_def separator_def)
  moreover have "token_inv str delim m (Suc i) t"
    using inv False by (auto simp: token_inv_def Let_def less_Suc_eq)
  ultimately show ?thesis by blast
next
  case True
  let ?P = "separator delim"
  define pre where "pre = take (start t) (str @ [NUL])"
  define w where "w = take (i - start t) (drop (start t) str)"
  define ts where "ts = take m (fields_of ?P pre)"
  note inv' = inv [unfolded token_inv_def Let_def, folded pre_def ts_def]
  obtain rest where start: "start t \<le> i" and last: "pre = [] \<or> ?P (last pre)"
    and inside: "\<And>j. start t \<le> j \<Longrightarrow> j < i \<Longrightarrow> \<not> ?P (char_at str j)"
    and toks: "tokens t = offsets 0 ts" and index: "buffer_index t = length (packed ts)" "buffer_index t \<le> start t"
    and buf: "buffer t = map Some (packed ts) @ rest" and len: "length (buffer t) = length str + 1"
    using inv' by auto
  have lw: "length w = i - start t" using start i by (simp add: w_def)
  have w_again: "take (length w) (drop (start t) str) = w" unfolding lw by (rule w_def [symmetric])
  have w: "\<forall>x \<in> set w. \<not> ?P x"
    using inside i start by (auto simp: w_def in_set_conv_nth char_at_def)
  have "take i (str @ [NUL]) = pre @ w"
    using start i by (simp add: pre_def w_def flip: take_add)
  then have pre': "take (Suc i) (str @ [NUL]) = pre @ w @ [char_at str i]"
    using take_Suc_conv_app_nth [of i "str @ [NUL]"] i by (simp only: char_at_nth append_assoc) simp
  then have fields: "fields_of ?P (take (Suc i) (str @ [NUL])) = fields_of ?P pre @ (if w = [] then [] else [w])"
    using fields_append [of pre ?P] last fields_append_separator [of ?P "char_at str i" w "[]"] True fields_single [of w ?P] w by simp
  have step: "token_step str delim m i t = rbind
      (if w \<noteq> [] \<and> length ts < m then
         rbind (memcpy_at (buffer t) (buffer_index t) (map Some w)) (\<lambda>b.
         rbind (mem_write b (buffer_index t + length w) (Some NUL)) (\<lambda>b.
           Inr (t\<lparr>buffer := b, tokens := tokens t @ [buffer_index t], buffer_index := buffer_index t + length w + 1\<rparr>)))
       else Inr t) (\<lambda>t. Inr (t\<lparr>start := i + 1\<rparr>))"
    using True w_again unfolding token_step_def Let_def separator_def lw [symmetric] toks by simp
  have room: "length (packed ts) + length w < length str + 1" using index lw start i by simp
  show ?thesis
  proof (cases "w \<noteq> [] \<and> length ts < m")
    case add: True
    then have ts': "take m (fields_of ?P (take (Suc i) (str @ [NUL]))) = ts @ [w]" and full: "ts = fields_of ?P pre"
      using fields by (auto simp: ts_def min_def split: if_splits)
    let ?b = "map Some (packed (ts @ [w])) @ drop (length w + 1) rest"
    have rest: "length rest = length str + 1 - length (packed ts)" using len buf by simp
    have "memcpy_at (buffer t) (buffer_index t) (map Some w) = Inr (map Some (packed ts) @ map Some w @ drop (length w) rest)"
      using room by (simp add: memcpy_at_def index buf rest)
    moreover have "drop (length w) rest = rest ! length w # drop (length w + 1) rest"
      using room rest by (simp add: Cons_nth_drop_Suc)
    then have "mem_write (map Some (packed ts) @ map Some w @ drop (length w) rest) (buffer_index t + length w) (Some NUL) = Inr ?b"
      using room rest by (simp add: mem_write_def index list_update_append)
    ultimately have "token_step str delim m i t = Inr (t\<lparr>buffer := ?b, tokens := tokens t @ [buffer_index t],
        buffer_index := buffer_index t + length w + 1, start := i + 1\<rparr>)"
      using add by (simp add: step)
    moreover have "token_inv str delim m (Suc i) (t\<lparr>buffer := ?b, tokens := tokens t @ [buffer_index t],
        buffer_index := buffer_index t + length w + 1, start := i + 1\<rparr>)"
      using pre' ts' True room rest index start lw
      by (auto simp: token_inv_def toks offsets_append)
    ultimately show ?thesis by blast
  next
    case False
    then have ts': "take m (fields_of ?P (take (Suc i) (str @ [NUL]))) = ts"
      using fields by (auto simp: ts_def min_def split: if_splits)
    have "token_step str delim m i t = Inr (t\<lparr>start := i + 1\<rparr>)"
      using False by (auto simp: step)
    moreover have "token_inv str delim m (Suc i) (t\<lparr>start := i + 1\<rparr>)"
      using pre' ts' True index start buf len toks by (auto simp: token_inv_def)
    ultimately show ?thesis by blast
  qed
qed

section \<open>The tokens are the fields\<close>

lemma fields_separator_string:
  assumes "NUL \<notin> set str"
  shows "fields_of (separator delim) (str @ [NUL]) = fields_of (\<lambda>c. c = delim) str"
proof -
  have "split_at (separator delim) str = split_at (\<lambda>c. c = delim) str"
    using assms by (induction str) (auto simp: separator_def split: list.splits)
  then show ?thesis
    using fields_append_separator [of "separator delim" NUL str "[]"]
    by (simp add: separator_def) (simp add: fields_of_def)
qed

lemma tokenize_lemma:
  assumes "NUL \<notin> set str"
  shows "\<exists>rest. tokenize_by_space str delim m True =
      Inr (offsets 0 (take m (fields_of (\<lambda>c. c = delim) str)),
           map Some (packed (take m (fields_of (\<lambda>c. c = delim) str))) @ rest)"
proof -
  let ?s = "\<lparr>tokens = [], buffer = replicate (length str + 1) None, buffer_index = 0, start = 0\<rparr>"
  have "token_inv str delim m 0 ?s" by (simp add: token_inv_def)
  then obtain t where t: "for_to 0 (length str + 1) (\<lambda>i r. rbind r (token_step str delim m i)) (Inr ?s) = Inr t"
      "token_inv str delim m (length str + 1) t"
    using for_to_succeeds [of "token_inv str delim m" ?s "length str + 1" "token_step str delim m"]
      token_step_keeps [of str delim m] by auto
  have "separator delim (char_at str (length str))" by (simp add: char_at_def separator_def)
  then have "\<not> start t \<le> length str"
    using t(2) unfolding token_inv_def Let_def by auto
  then have "start t = length str + 1" using t(2) by (simp add: token_inv_def Let_def)
  then show ?thesis
    using t fields_separator_string [OF assms, of delim]
    by (auto simp: token_inv_def tokenize_by_space_def Let_def)
qed

lemma strings_at_tokens:
  assumes "NUL \<notin> set str" and "tokenize_by_space str delim m True = Inr r"
  shows "strings_at r = map Inr (take m (fields_of (\<lambda>c. c = delim) str))"
proof -
  let ?ts = "take m (fields_of (\<lambda>c. c = delim) str)"
  obtain rest where "tokenize_by_space str delim m True = Inr (offsets 0 ?ts, map Some (packed ?ts) @ rest)"
    using tokenize_lemma [OF assms(1), of delim m] by blast
  moreover have "\<forall>t \<in> set ?ts. NUL \<notin> set t"
    using assms(1) fields_free by (metis in_set_takeD subsetD)
  then have "strings_at (offsets 0 ?ts, [] @ map Some (packed ?ts) @ rest) = map Inr ?ts"
    by (rule strings_at_packed) simp
  ultimately show ?thesis using assms(2) by simp
qed

section \<open>The program of \<^verbatim>\<open>space-tokenization.c\<close>\<close>

text \<open>The lines it prints for the tokens of a string.\<close>

definition token_line :: "nat \<Rightarrow> string \<Rightarrow> string" where
  "token_line i t = ''Token '' @ print_nat (i + 1) @ '': '' @ t @ [newline]"

definition tokenization_main :: "bool \<Rightarrow> c_error + string list" where
  "tokenization_main malloc_ok =
    rbind (tokenize_by_space ''This is a sample string to be tokenized'' CHR '' '' 10 malloc_ok) (\<lambda>r.
      for_to 0 (length (fst r)) (\<lambda>i out. rbind out (\<lambda>out.
        rbind (strings_at r ! i) (\<lambda>t. Inr (out @ [token_line i t])))) (Inr []))"

section \<open>The results\<close>

text \<open>C26: For every string, delimiter and limit, the pointers stored lead to the fields of the string, the
  non-empty pieces between delimiters, in order and up to the limit; no copy leaves the buffer of
  \<open>strlen + 1\<close> characters.\<close>

theorem tokenize_correct:
  assumes "NUL \<notin> set str"
  shows "\<exists>r. tokenize_by_space str delim m True = Inr r \<and>
    strings_at r = map Inr (take m (fields_of (\<lambda>c. c = delim) str))"
  using tokenize_lemma [OF assms] strings_at_tokens [OF assms] by blast

theorem tokenize_correct_witness:
  "\<exists>r. tokenize_by_space ''  to be  or'' CHR '' '' 2 True = Inr r \<and> strings_at r = [Inr ''to'', Inr ''be'']"
  using tokenize_correct [of "''  to be  or''" "CHR '' ''" 2] by (simp add: fields_of_def)

lemma tokenization_main_prints:
  "tokenization_main True = Inr [''Token 1: This'' @ [newline], ''Token 2: is'' @ [newline],
     ''Token 3: a'' @ [newline], ''Token 4: sample'' @ [newline], ''Token 5: string'' @ [newline],
     ''Token 6: to'' @ [newline], ''Token 7: be'' @ [newline], ''Token 8: tokenized'' @ [newline]]"
proof -
  let ?str = "''This is a sample string to be tokenized''"
  let ?ts = "[''This'', ''is'', ''a'', ''sample'', ''string'', ''to'', ''be'', ''tokenized'']"
  have ts: "take 10 (fields_of (\<lambda>c. c = CHR '' '') ?str) = ?ts" by (simp add: fields_of_def)
  obtain rest where r: "tokenize_by_space ?str CHR '' '' 10 True = Inr (offsets 0 ?ts, map Some (packed ?ts) @ rest)"
    using tokenize_lemma [of ?str "CHR '' ''" 10] unfolding ts by auto
  have "strings_at (offsets 0 ?ts, map Some (packed ?ts) @ rest) = map Inr ?ts"
    using strings_at_tokens [OF _ r] unfolding ts by simp
  then show ?thesis
    unfolding tokenization_main_def r rbind_simps fst_conv length_offsets
    by (simp add: for_to_def upt_rec token_line_def print_nat.simps)
qed

end
