(* ===== verification/Doc_Summary.thy ===== *)
theory Doc_Summary
  imports Tokenizer C_Int "HOL-Library.List_Lexorder" "HOL-Library.Multiset"
begin

text \<open>
  \<^verbatim>\<open>file-processing/doc-summary/summarization.c\<close>: a text is cut into lines and words, the words are
  counted, the five rarest are found by sorting, and the lines that contain one of them are printed.

  \<open>WordCount\<close> is ordered by the comparison that the code hands to \<open>qsort\<close>, so that the library's
  sorting applies to it.  The results: the table holds the number of occurrences of each of the first
  1000 words; whatever algorithm \<open>qsort\<close> uses, its result is the sorted table, and the words shown are
  rarer than every other; each line that has a rare word among its words is printed.
\<close>

section \<open>Counting words\<close>

datatype WordCount = WordCount (wc_word: string) (wc_count: int)

text \<open>The first entry of the table that has the word.\<close>

definition find_word :: "WordCount list \<Rightarrow> string \<Rightarrow> nat option" where
  "find_word unique_words w = List.find (\<lambda>j. wc_word (unique_words ! j) = w) [0..<length unique_words]"

definition count_word :: "string \<Rightarrow> WordCount list \<Rightarrow> c_error + WordCount list" where
  "count_word token unique_words =
    (case find_word unique_words token of
       Some j \<Rightarrow> rbind (checked 32 (wc_count (unique_words ! j) + 1)) (\<lambda>n.
                   Inr (unique_words[j := WordCount (wc_word (unique_words ! j)) n]))
     | None \<Rightarrow> if length unique_words < 1000 then Inr (unique_words @ [WordCount token 1])
               else Inr unique_words)"

definition fill_up_unique_words :: "(c_error + string) list \<Rightarrow> WordCount list \<Rightarrow> c_error + WordCount list" where
  "fill_up_unique_words toks unique_words =
    for_to 0 (length toks) (\<lambda>i r. rbind r (\<lambda>ws. rbind (toks ! i) (\<lambda>t. count_word t ws))) (Inr unique_words)"

text \<open>The loop over the lines of the file.\<close>

definition count_lines :: "string list \<Rightarrow> c_error + WordCount list" where
  "count_lines ls =
    fold (\<lambda>l r. rbind r (\<lambda>ws. rbind (tokenize_by_space l CHR '' '' 1000 True) (\<lambda>toks.
      fill_up_unique_words (strings_at toks) ws))) ls (Inr [])"

section \<open>Sorting\<close>

definition strcmp :: "string \<Rightarrow> string \<Rightarrow> int" where
  "strcmp a b = (if a = b then 0 else if a < b then - 1 else 1)"

definition compare_wordcount :: "WordCount \<Rightarrow> WordCount \<Rightarrow> int" where
  "compare_wordcount a b =
    (if wc_count a \<noteq> wc_count b then wc_count a - wc_count b else strcmp (wc_word a) (wc_word b))"

instantiation WordCount :: linorder
begin

definition less_eq_WordCount :: "WordCount \<Rightarrow> WordCount \<Rightarrow> bool" where
  "a \<le> b \<longleftrightarrow> compare_wordcount a b \<le> 0"

definition less_WordCount :: "WordCount \<Rightarrow> WordCount \<Rightarrow> bool" where
  "a < b \<longleftrightarrow> compare_wordcount a b < 0"

instance
proof
  fix a b c :: WordCount
  note defs = less_eq_WordCount_def less_WordCount_def compare_wordcount_def strcmp_def
  show "a < b \<longleftrightarrow> a \<le> b \<and> \<not> b \<le> a" by (auto simp: defs)
  show "a \<le> a" by (simp add: defs)
  show "a \<le> b \<Longrightarrow> b \<le> c \<Longrightarrow> a \<le> c" by (auto simp: defs split: if_splits)
  show "a \<le> b \<Longrightarrow> b \<le> a \<Longrightarrow> a = b" by (cases a; cases b) (auto simp: defs split: if_splits)
  show "a \<le> b \<or> b \<le> a" by (auto simp: defs)
qed

end

text \<open>\<open>qsort(unique_words, num_unique, sizeof(struct WordCount), compare_wordcount)\<close> and the words it
  leaves in front.\<close>

definition qsort_words :: "WordCount list \<Rightarrow> WordCount list" where
  "qsort_words ws = sort ws"

definition top_n :: "WordCount list \<Rightarrow> nat" where
  "top_n unique_words = (if length unique_words < 5 then length unique_words else 5)"

section \<open>The output\<close>

definition pad_right :: "nat \<Rightarrow> string \<Rightarrow> string" where
  "pad_right width s = s @ replicate (width - length s) CHR '' ''"

text \<open>The file \<^verbatim>\<open>frequency_table.csv\<close>.\<close>

definition csv_table :: "WordCount list \<Rightarrow> string" where
  "csv_table unique_words =
    pad_right 60 ''Words'' @ '','' @ pad_right 60 ''Counts'' @ '','' @ [newline] @
    concat (map (\<lambda>i. wc_word (unique_words ! i) @ '','' @ print_int (wc_count (unique_words ! i)) @ [newline]
        @ (if i < length unique_words - 1 then [newline] else [])) [0..<length unique_words])"

definition console_table :: "WordCount list \<Rightarrow> string" where
  "console_table unique_words =
    ''Unique words and counts:'' @ [newline] @ pad_right 60 ''Words'' @ pad_right 60 ''Counts'' @ [newline]
    @ pad_right 60 ''------'' @ pad_right 60 ''------'' @ [newline]
    @ concat (map (\<lambda>w. pad_right 60 (wc_word w) @ '' '' @ pad_right 60 (print_int (wc_count w)) @ [newline]) unique_words)"

definition rare_words_list :: "WordCount list \<Rightarrow> string" where
  "rare_words_list ws =
    [newline] @ ''Top '' @ print_nat (length ws) @ '' rarest words:'' @ [newline]
    @ concat (map (\<lambda>i. print_nat (i + 1) @ ''. '' @ [CHR 0x22] @ wc_word (ws ! i) @ [CHR 0x22] @ '' (appears ''
        @ print_int (wc_count (ws ! i)) @ '' time'' @ (if wc_count (ws ! i) = 1 then [] else ''s'') @ '')'' @ [newline])
        [0..<length ws])"

text \<open>The inner loop looks for the first rare word that is a part of the line.\<close>

definition contains_rare :: "WordCount list \<Rightarrow> string \<Rightarrow> bool" where
  "contains_rare ws line = list_ex (\<lambda>w. strstr line (wc_word w) \<noteq> None) ws"

definition rare_sentences :: "WordCount list \<Rightarrow> string list \<Rightarrow> (nat \<times> string) list" where
  "rare_sentences ws ls = filter (\<lambda>(n, l). contains_rare ws l) (zip [1..<Suc (length ls)] ls)"

definition sentence_lines :: "(nat \<times> string) list \<Rightarrow> string" where
  "sentence_lines sentences = [newline] @ ''Sentences containing these rare words:'' @ [newline]
    @ concat (map (\<lambda>(n, l). print_nat n @ ''. '' @ l @ [newline]) sentences)"

text \<open>\<open>None\<close> is a file that cannot be opened; the result is the exit status, the table file if it is
  written, and what is printed to the console.\<close>

definition summarization_main :: "string option \<Rightarrow> bool \<Rightarrow> c_error + int \<times> string option \<times> string" where
  "summarization_main doc csv_ok =
    (case doc of
       None \<Rightarrow> Inr (1, None, [])
     | Some content \<Rightarrow>
         rbind (count_lines (file_lines content)) (\<lambda>unique_words.
           if \<not> csv_ok then Inr (1, None, ''Error: could not open file frequency_table.csv'' @ [newline])
           else
             let rare = take (top_n unique_words) (qsort_words unique_words)
             in Inr (0, Some (csv_table unique_words),
                  console_table unique_words @ ''Successfully generated frequency_table.csv'' @ [newline]
                  @ rare_words_list rare @ sentence_lines (rare_sentences rare (file_lines content)))))"

section \<open>What the table holds\<close>

text \<open>The distinct words in the order of their first occurrence.\<close>

definition firsts :: "string list \<Rightarrow> string list" where
  "firsts ws = rev (remdups (rev ws))"

definition table_of :: "string list \<Rightarrow> WordCount list" where
  "table_of ws = map (\<lambda>w. WordCount w (int (count_list ws w))) (take 1000 (firsts ws))"

lemma firsts_Nil [simp]: "firsts [] = []"
  by (simp add: firsts_def)

lemma firsts_snoc: "firsts (ws @ [w]) = (if w \<in> set ws then firsts ws else firsts ws @ [w])"
  by (simp add: firsts_def)

lemma set_firsts [simp]: "set (firsts ws) = set ws" and distinct_firsts: "distinct (firsts ws)"
  by (simp_all add: firsts_def)

lemma find_word_None: "find_word ws w = None \<longleftrightarrow> w \<notin> wc_word ` set ws"
proof -
  have "w \<in> wc_word ` set ws \<longleftrightarrow> (\<exists>j < length ws. wc_word (ws ! j) = w)"
    by (metis (no_types) image_iff in_set_conv_nth)
  then show ?thesis by (auto simp: find_word_def find_None_iff)
qed

lemma find_word_Some: "find_word ws w = Some j \<Longrightarrow> j < length ws \<and> wc_word (ws ! j) = w"
  by (auto simp: find_word_def find_Some_iff)

lemma count_word_table:
  assumes "length ws < 2147483647"
  shows "count_word w (table_of ws) = Inr (table_of (ws @ [w]))"
proof (cases "find_word (table_of ws) w")
  case None
  then have w: "w \<notin> set (take 1000 (firsts ws))" by (simp add: find_word_None table_of_def image_image)
  then have counts: "map (\<lambda>v. WordCount v (int (count_list (ws @ [w]) v))) (take 1000 (firsts ws)) = table_of ws"
    by (auto simp: table_of_def)
  show ?thesis
  proof (cases "length (firsts ws) < 1000")
    case True
    then have "w \<notin> set ws" using w by simp
    then show ?thesis using None True counts
      by (simp add: count_word_def table_of_def firsts_snoc count_notin)
  next
    case False
    then have "take 1000 (firsts (ws @ [w])) = take 1000 (firsts ws)" by (simp add: firsts_snoc)
    then show ?thesis using None False counts by (simp add: count_word_def table_of_def)
  qed
next
  case (Some j)
  let ?fs = "take 1000 (firsts ws)"
  have j: "j < length ?fs" "?fs ! j = w"
    using find_word_Some [OF Some] by (auto simp: table_of_def simp del: take_map)
  then have "w \<in> set ?fs" using nth_mem by metis
  then have "w \<in> set ws" using in_set_takeD set_firsts by metis
  have dist: "distinct ?fs" by (simp add: distinct_firsts)
  have "count_list ws w \<le> length ws" by (rule count_le_length)
  then have "fits 32 (int (count_list ws w) + 1)" using assms by (simp add: fits_32)
  then have "count_word w (table_of ws) = Inr ((table_of ws)[j := WordCount w (int (count_list ws w) + 1)])"
    using Some j by (simp add: count_word_def table_of_def checked_def)
  moreover have "(table_of ws)[j := WordCount w (int (count_list ws w) + 1)] = table_of (ws @ [w])"
  proof (rule nth_equalityI)
    show "length ((table_of ws)[j := WordCount w (int (count_list ws w) + 1)]) = length (table_of (ws @ [w]))"
      using \<open>w \<in> set ws\<close> by (simp add: table_of_def firsts_snoc)
    fix i assume "i < length ((table_of ws)[j := WordCount w (int (count_list ws w) + 1)])"
    then have i: "i < length ?fs" by (simp add: table_of_def)
    then have "?fs ! i = w \<longleftrightarrow> i = j" using j nth_eq_iff_index_eq [OF dist] by metis
    then show "(table_of ws)[j := WordCount w (int (count_list ws w) + 1)] ! i = table_of (ws @ [w]) ! i"
      using i j \<open>w \<in> set ws\<close> by (auto simp: table_of_def firsts_snoc nth_list_update)
  qed
  ultimately show ?thesis by simp
qed

lemma fill_up_table:
  assumes "length ws + length us \<le> 2147483647"
  shows "fill_up_unique_words (map Inr us) (table_of ws) = Inr (table_of (ws @ us))"
proof -
  have "\<exists>u. for_to 0 (length us) (\<lambda>i r. rbind r (\<lambda>t. rbind (map Inr us ! i) (\<lambda>w. count_word w t))) (Inr (table_of ws))
      = Inr u \<and> u = table_of (ws @ take (length us) us)"
  proof (rule for_to_succeeds)
    fix i t assume i: "i < length us" and t: "t = table_of (ws @ take i us)"
    have "length (ws @ take i us) < 2147483647" using assms i by simp
    then show "\<exists>u. rbind (map Inr us ! i) (\<lambda>w. count_word w t) = Inr u \<and> u = table_of (ws @ take (Suc i) us)"
      using i by (simp add: t count_word_table take_Suc_conv_app_nth)
  qed simp
  then show ?thesis by (simp add: fill_up_unique_words_def)
qed

definition words_of :: "string \<Rightarrow> string list" where
  "words_of l = take 1000 (fields_of (\<lambda>c. c = CHR '' '') l)"

lemma count_lines_lemma:
  assumes "\<forall>l \<in> set ls. NUL \<notin> set l" and "length (concat (map words_of ls)) \<le> 2147483647"
  shows "count_lines ls = Inr (table_of (concat (map words_of ls)))"
  using assms
proof (induction ls rule: rev_induct)
  case (snoc l ls)
  obtain toks where "tokenize_by_space l CHR '' '' 1000 True = Inr toks" "strings_at toks = map Inr (words_of l)"
    using tokenize_lemma [of l "CHR '' ''" 1000] strings_at_tokens [of l "CHR '' ''" 1000] snoc.prems(1)
    by (auto simp: words_of_def)
  then show ?case using snoc fill_up_table [of "concat (map words_of ls)" "words_of l"]
    by (simp add: count_lines_def)
qed (simp add: count_lines_def table_of_def)

section \<open>Words within a line\<close>

lemma split_at_infix:
  "(\<forall>y ys. split_at P xs = y # ys \<longrightarrow> (\<exists>vs. xs = y @ vs)) \<and> (t \<in> set (split_at P xs) \<longrightarrow> (\<exists>us vs. xs = us @ t @ vs))"
proof (induction xs)
  case (Cons x xs)
  obtain y ys where s: "split_at P xs = y # ys"
    using split_at_nonempty by (metis neq_Nil_conv)
  then obtain vs where vs: "xs = y @ vs" using Cons by blast
  show ?case
  proof (cases "P x")
    case True
    moreover have "\<exists>us vs. x # xs = us @ t @ vs" if "t \<in> set (split_at P xs)"
      using Cons that by (metis append_Cons)
    ultimately show ?thesis by auto
  next
    case False
    moreover have "\<exists>us vs. x # xs = us @ t @ vs" if "t \<in> set ys"
      using Cons that s by (metis append_Cons list.set_intros(2))
    moreover have "x # xs = [] @ (x # y) @ vs" using vs by simp
    ultimately show ?thesis using s by auto
  qed
qed simp

lemma word_infix: "t \<in> set (words_of l) \<Longrightarrow> \<exists>us vs. l = us @ t @ vs"
  using split_at_infix [of "\<lambda>c. c = CHR '' ''" l t] by (auto simp: words_of_def fields_of_def dest!: in_set_takeD)

section \<open>The results\<close>

text \<open>C23: The program counts right: for every document of at most 2147483647 words it ends with status 0,
  and the table it writes and prints has, for each of the first 1000 distinct words in the order of
  their appearance, the number of its occurrences (a line counts up to its 1000th word).\<close>

theorem summary_counts_words:
  assumes "length (concat (map words_of (file_lines content))) \<le> 2147483647"
  shows "let T = table_of (concat (map words_of (file_lines content)));
             rare = take (top_n T) (qsort_words T)
    in summarization_main (Some content) True = Inr (0, Some (csv_table T),
         console_table T @ ''Successfully generated frequency_table.csv'' @ [newline]
         @ rare_words_list rare @ sentence_lines (rare_sentences rare (file_lines content)))"
proof -
  have "\<forall>l \<in> set (file_lines content). NUL \<notin> set l" using file_lines_free by blast
  from count_lines_lemma [OF this assms] show ?thesis by (simp add: summarization_main_def Let_def)
qed

definition demo_doc :: string where
  "demo_doc = ''to be or not to be'' @ [newline]"

lemma demo_doc_lines: "file_lines demo_doc = [''to be or not to be'']"
  using file_lines_line [of "''to be or not to be''" "[]"] by (simp add: demo_doc_def)

theorem summary_counts_words_witness:
  "\<exists>out. summarization_main (Some demo_doc) True =
     Inr (0, Some (csv_table [WordCount ''to'' 2, WordCount ''be'' 2, WordCount ''or'' 1, WordCount ''not'' 1]), out)"
proof -
  have "concat (map words_of (file_lines demo_doc)) = [''to'', ''be'', ''or'', ''not'', ''to'', ''be'']"
    by (simp add: demo_doc_lines words_of_def fields_of_def)
  then show ?thesis
    using summary_counts_words [of demo_doc] by (simp add: Let_def table_of_def firsts_def)
qed

text \<open>Whatever algorithm \<open>qsort\<close> uses: an arrangement of the table that its comparison accepts as
  sorted is the sorted table, and of a table without repetition the entries shown, five or all of them,
  come strictly before every other entry.\<close>

theorem rarest_words_determined:
  assumes "mset ys = mset ws" and "sorted_wrt (\<lambda>a b. compare_wordcount a b \<le> 0) ys" and "distinct ws"
  shows "ys = qsort_words ws \<and> length (take (top_n ws) ys) = min 5 (length ws)
    \<and> (\<forall>a \<in> set (take (top_n ws) ys). \<forall>b \<in> set (drop (top_n ws) ys). compare_wordcount a b < 0)"
proof -
  have "(\<lambda>a b. compare_wordcount a b \<le> 0) = (\<le>)" by (simp add: fun_eq_iff less_eq_WordCount_def)
  then have "sorted ys" using assms(2) by simp
  moreover have "distinct ys" using assms(1,3) mset_eq_imp_distinct_iff by blast
  ultimately have "sorted_wrt (<) ys" by (simp add: strict_sorted_iff)
  then have "sorted_wrt (<) (take (top_n ws) ys @ drop (top_n ws) ys)" by simp
  then have "\<forall>a \<in> set (take (top_n ws) ys). \<forall>b \<in> set (drop (top_n ws) ys). a < b"
    unfolding sorted_wrt_append by blast
  moreover have "length ys = length ws" using assms(1) by (rule mset_eq_length)
  ultimately show ?thesis
    using properties_for_sort [OF assms(1) \<open>sorted ys\<close>]
    by (auto simp: less_WordCount_def qsort_words_def top_n_def)
qed

theorem rarest_words_determined_witness:
  "[WordCount ''b'' 1, WordCount ''a'' 2] = qsort_words [WordCount ''a'' 2, WordCount ''b'' 1]"
  using rarest_words_determined [of "[WordCount ''b'' 1, WordCount ''a'' 2]" "[WordCount ''a'' 2, WordCount ''b'' 1]"]
  by (simp add: compare_wordcount_def)

text \<open>A line that has a rare word among its words is printed.\<close>

lemma rare_word_line_printed:
  assumes "w \<in> set ws" and "wc_word w \<in> set (words_of l)"
  shows "contains_rare ws l"
  using assms word_infix [OF assms(2)] by (auto simp: contains_rare_def list_ex_iff strstr_None_iff)

text \<open>The summary prints exactly the lines, with their numbers from 1, that contain one of the rare
  words as a part (of a longer word, too).\<close>

theorem rare_sentences_spec:
  "(n, l) \<in> set (rare_sentences ws ls) \<longleftrightarrow>
     0 < n \<and> n \<le> length ls \<and> ls ! (n - 1) = l \<and> (\<exists>w \<in> set ws. \<exists>us vs. l = us @ wc_word w @ vs)"
proof -
  have "(n, l) \<in> set (zip [1..<Suc (length ls)] ls) \<longleftrightarrow> 0 < n \<and> n \<le> length ls \<and> ls ! (n - 1) = l"
    by (cases n) (auto simp: set_zip simp del: upt_Suc intro!: exI [of _ "n - 1"])
  then show ?thesis by (auto simp: rare_sentences_def contains_rare_def list_ex_iff strstr_None_iff)
qed

end
