(* ===== verification/Ftp.thy ===== *)
theory Ftp
  imports C_Int C_String
begin

text \<open>
  \<^verbatim>\<open>FTP/ftp_simple_server.c\<close> and \<^verbatim>\<open>FTP/ftp_client.c\<close>: a session over a control connection (user name,
  password, \<open>PORT\<close>, \<open>LIST\<close>) that ends with the listing of a directory on a data connection.  Every
  session runs in a thread of its own (\<open>Ftp_Threads\<close>), so a session is a function of the results of its
  system calls.

  The results: what a session sends and leaves open in every case, the log-in that comes before every
  listing, the session of the client with the server, and the ways it goes wrong.
\<close>

section \<open>The server\<close>

text \<open>What a session has written and which of its sockets are open.\<close>

record ftp_session =
  control_out :: "string list"
  data_out :: "string list"
  control_open :: bool
  data_open :: bool

record ftp_kernel =
  data_socket :: int                   \<comment> \<open>the results of \<open>socket\<close> and \<open>connect\<close>\<close>
  data_connect :: int
  directory :: "string list option"    \<comment> \<open>the names \<open>readdir\<close> delivers; \<open>None\<close> if \<open>opendir\<close> fails\<close>

text \<open>The next message: the buffer of 1024 characters is cleared, filled by \<open>read\<close> and printed.\<close>

definition command_of :: "string option \<Rightarrow> c_error + string" where
  "command_of r = c_string_of (splice (replicate 1024 NUL) 0 (case r of None \<Rightarrow> [] | Some msg \<Rightarrow> msg))"

definition next_command :: "string option list \<Rightarrow> c_error + string \<times> string option list" where
  "next_command reads =
    (case reads of
       [] \<Rightarrow> Inl Exhausted
     | r # reads \<Rightarrow> rbind (command_of r) (\<lambda>s. Inr (s, reads)))"

text \<open>\<open>strncmp(s, p, strlen(p)) == 0\<close>.\<close>

definition starts_with :: "string \<Rightarrow> string \<Rightarrow> bool" where
  "starts_with p s \<longleftrightarrow> take (length p) s = p"

definition reply :: "string \<Rightarrow> ftp_session \<Rightarrow> ftp_session" where
  "reply msg s = s\<lparr>control_out := control_out s @ [msg]\<rparr>"

text \<open>\<open>sscanf(port_command, "PORT %d,%d,%d,%d,%d,%d", ...) == 6\<close>; \<open>None\<close> for fewer conversions.\<close>

fun scan_ints :: "nat \<Rightarrow> string \<Rightarrow> c_error + int list option" where
  "scan_ints 0 inp = Inr (Some [])"
| "scan_ints (Suc n) inp =
    (let (scanned, rest) = scan_int inp
     in case scanned of
          None \<Rightarrow> Inr None
        | Some v \<Rightarrow>
            rbind (checked 32 v) (\<lambda>v.
              if n = 0 then Inr (Some [v])
              else case rest of
                     [] \<Rightarrow> Inr None
                   | c # rest \<Rightarrow>
                       if c = CHR '','' then rbind (scan_ints n rest) (\<lambda>vs. Inr (map_option ((#) v) vs))
                       else Inr None))"

definition parse_port_command :: "string \<Rightarrow> c_error + string \<times> int" where
  "parse_port_command port_command =
    rbind (if starts_with ''PORT'' port_command then scan_ints 6 (drop 4 port_command) else Inr None) (\<lambda>r.
      case r of
        Some [a, b, c, d, e, f] \<Rightarrow>
          rbind (checked 32 (e * 256)) (\<lambda>hi. rbind (checked 32 (hi + f)) (\<lambda>port.
            Inr (take 15 (print_int a @ ''.'' @ print_int b @ ''.'' @ print_int c @ ''.'' @ print_int d), port)))
      | _ \<Rightarrow> Inl Exit_failure)"

definition list_directory :: "string list option \<Rightarrow> string list" where
  "list_directory dir =
    (case dir of
       None \<Rightarrow> []
     | Some names \<Rightarrow> map (\<lambda>name. take 1023 (name @ [newline])) (filter (\<lambda>name. name = [] \<or> hd name \<noteq> CHR ''.'') names))"

text \<open>The part of \<open>handle_client\<close> after a \<open>PORT\<close> command.\<close>

definition handle_port :: "ftp_kernel \<Rightarrow> string \<Rightarrow> string option list \<Rightarrow> ftp_session \<Rightarrow> c_error + ftp_session" where
  "handle_port k cmd reads s =
    rbind (parse_port_command cmd) (\<lambda>(client_ip, client_data_port).
      if data_socket k < 0 then Inr (s\<lparr>control_open := False\<rparr>)
      else if data_connect k < 0 then Inr (s\<lparr>control_open := False\<rparr>)
      else
        let s = s\<lparr>data_open := True\<rparr>
        in rbind (next_command reads) (\<lambda>(cmd, reads).
             if starts_with ''LIST'' cmd
             then Inr (reply (''226 Directory send OK.'' @ [newline])
                    (s\<lparr>data_out := data_out s @ list_directory (directory k), data_open := False, control_open := False\<rparr>))
             else Inr (reply (''502 Command not implemented.'' @ [newline]) (s\<lparr>control_open := False\<rparr>))))"

definition handle_client :: "ftp_kernel \<Rightarrow> string option list \<Rightarrow> c_error + ftp_session" where
  "handle_client k reads =
    (let s = \<lparr>control_out = [], data_out = [], control_open = True, data_open = False\<rparr>
     in rbind (next_command reads) (\<lambda>(username, reads).
        if \<not> starts_with ''ftpClient'' username
        then Inr (reply (''530 Invalid username.'' @ [newline]) (s\<lparr>control_open := False\<rparr>))
        else
          let s = reply (''331 Username OK, need password.'' @ [newline]) s
          in rbind (next_command reads) (\<lambda>(password, reads).
             if \<not> starts_with ''ftpCLPass'' password
             then Inr (reply (''530 Login incorrect.'' @ [newline]) (s\<lparr>control_open := False\<rparr>))
             else
               let s = reply (''230 Login successful.'' @ [newline]) s
               in rbind (next_command reads) (\<lambda>(cmd, reads).
                  if starts_with ''PORT'' cmd then handle_port k cmd reads s
                  else Inr (s\<lparr>control_open := False\<rparr>)))))"

section \<open>The client\<close>

definition create_data_socket :: "int \<Rightarrow> int \<Rightarrow> int \<Rightarrow> c_error + unit" where
  "create_data_socket socket_ret bind_ret listen_ret =
    (if socket_ret < 0 then Inl Exit_failure
     else if bind_ret < 0 then Inl Exit_failure
     else if listen_ret < 0 then Inl Exit_failure else Inr ())"

record ftp_client_kernel =
  control_ret :: int                   \<comment> \<open>\<open>socket\<close> and \<open>connect\<close> of the control connection\<close>
  connect_ret :: int
  listen_rets :: "int \<times> int \<times> int"     \<comment> \<open>\<open>socket\<close>, \<open>bind\<close> and \<open>listen\<close> of the data socket\<close>
  answers :: "string option list"      \<comment> \<open>what the four \<open>read\<close>s deliver\<close>

text \<open>The messages sent on the control connection and the lines printed.\<close>

definition ftp_port_text :: "c_error + string" where
  "ftp_port_text = rbind (c_div 32 2021 256) (\<lambda>p1. rbind (c_mod 32 2021 256) (\<lambda>p2.
    Inr (''PORT 127,0,0,1,'' @ print_int p1 @ '','' @ print_int p2 @ [newline])))"

definition ftp_client_main :: "ftp_client_kernel \<Rightarrow> c_error + string list \<times> string list" where
  "ftp_client_main k =
    (if control_ret k < 0 then Inl Exit_failure
     else if connect_ret k < 0 then Inl Exit_failure
     else
       rbind (next_command (answers k)) (\<lambda>(a1, reads).
       rbind (next_command reads) (\<lambda>(a2, reads).
       rbind (case listen_rets k of (s, b, l) \<Rightarrow> create_data_socket s b l) (\<lambda>_.
       rbind ftp_port_text (\<lambda>port_text.
       rbind (next_command reads) (\<lambda>(a3, reads).
       rbind (next_command reads) (\<lambda>(listing, reads).
         Inr ([''ftpClient'' @ [newline], ''ftpCLPass'' @ [newline], port_text, ''LIST'' @ [newline]],
              [''Connected to FTP server.'' @ [newline], ''Server: '' @ a1, ''Server: '' @ a2,
               ''Data socket created on port 2021'' @ [newline], ''Server: '' @ a3,
               ''Received Directory Listing:'' @ [newline] @ listing]))))))))"

section \<open>Commands\<close>

lemma starts_with_append [simp]: "starts_with p (p @ s)"
  by (simp add: starts_with_def)

text \<open>A message shorter than the buffer is the command, as far as its first zero byte.\<close>

lemma next_command_lemma:
  assumes "length msg < 1024"
  shows "next_command (Some msg # reads) = Inr (c_str msg, reads)"
proof -
  obtain n where n: "1024 - length msg = Suc n" using assms by (cases "1024 - length msg") auto
  then have "splice (replicate 1024 NUL) 0 msg = msg @ replicate (Suc n) NUL"
    using assms by (simp add: splice_def)
  moreover have "c_str (msg @ replicate k NUL) = c_str msg" for k
    by (induction msg) (simp_all add: c_str_def)
  ultimately show ?thesis
    unfolding next_command_def command_of_def by (simp add: c_string_of_def del: replicate.simps)
qed

lemma next_command_full:
  assumes "length msg = 1024" and "NUL \<notin> set msg"
  shows "next_command (Some msg # reads) = Inl Out_of_bounds"
proof -
  have "splice (replicate 1024 NUL) 0 msg = msg" using assms(1) by (simp add: splice_def)
  then show ?thesis unfolding next_command_def command_of_def using assms(2) by (simp add: c_string_of_def)
qed

text \<open>Six numbers in a \<open>PORT\<close> command are read back.\<close>

definition port_text :: "int list \<Rightarrow> string" where
  "port_text vs = concat (map (\<lambda>v. print_int v @ '','') (butlast vs)) @ print_int (last vs)"

lemma scan_ints_text:
  assumes "vs \<noteq> []" and "\<forall>v \<in> set vs. fits 32 v" and "rest = [] \<or> \<not> isdigit (hd rest)"
  shows "scan_ints (length vs) (port_text vs @ rest) = Inr (Some vs)"
  using assms
proof (induction vs)
  case (Cons v vs)
  show ?case
  proof (cases "vs = []")
    case True
    then show ?thesis using Cons.prems by (simp add: port_text_def scan_print_int checked_def)
  next
    case False
    then have "port_text (v # vs) @ rest = print_int v @ CHR '','' # port_text vs @ rest"
      by (simp add: port_text_def)
    moreover have "scan_int (print_int v @ CHR '','' # port_text vs @ rest) = (Some v, CHR '','' # port_text vs @ rest)"
      by (rule scan_print_int) (simp add: isdigit_def)
    ultimately show ?thesis using Cons False by (simp add: checked_def)
  qed
qed simp

lemma scan_ints_space: "isspace c \<Longrightarrow> scan_ints (Suc n) (c # inp) = scan_ints (Suc n) inp"
  by (simp add: scan_int_space)

lemma parse_port_lemma:
  assumes "\<forall>v \<in> {a, b, c, d}. 0 \<le> v \<and> v < 256" and "0 \<le> p" and "p < 65536"
    and "\<not> isdigit (hd rest)" and "rest \<noteq> []"
  shows "parse_port_command (''PORT '' @ port_text [a, b, c, d, p div 256, p mod 256] @ rest) =
    Inr (print_int a @ ''.'' @ print_int b @ ''.'' @ print_int c @ ''.'' @ print_int d, p)"
proof -
  let ?vs = "[a, b, c, d, p div 256, p mod 256]"
  have hi: "p div 256 < 256" using assms(3) by simp
  have "\<forall>v \<in> set ?vs. fits 32 v"
    using assms hi by (auto simp: fits_32 pos_imp_zdiv_nonneg_iff)
  then have "scan_ints 6 ('' '' @ port_text ?vs @ rest) = Inr (Some ?vs)"
    using scan_ints_text [of ?vs rest] scan_ints_space [of "CHR '' ''" 5 "port_text ?vs @ rest"] assms(4)
    by (simp add: isspace_def numeral_eq_Suc)
  moreover have "checked 32 (p div 256 * 256) = Inr (p div 256 * 256)" "checked 32 (p div 256 * 256 + p mod 256) = Inr p"
    using assms hi by (auto simp: checked_def fits_32 pos_imp_zdiv_nonneg_iff)
  moreover have short: "0 \<le> v \<Longrightarrow> v < 256 \<Longrightarrow> length (print_int v) \<le> 3" for v
    using length_print_nat [of "nat v" 3] by (simp add: print_int_def)
  have "length (print_int a @ ''.'' @ print_int b @ ''.'' @ print_int c @ ''.'' @ print_int d) \<le> 15"
    using short [of a] short [of b] short [of c] short [of d] assms(1) by simp
  ultimately show ?thesis
    by (simp add: parse_port_command_def starts_with_def)
qed

section \<open>The results\<close>

abbreviation user_ok :: string where "user_ok \<equiv> ''331 Username OK, need password.'' @ [newline]"
abbreviation login_ok :: string where "login_ok \<equiv> ''230 Login successful.'' @ [newline]"
abbreviation list_ok :: string where "list_ok \<equiv> ''226 Directory send OK.'' @ [newline]"
abbreviation no_command :: string where "no_command \<equiv> ''502 Command not implemented.'' @ [newline]"

lemmas session_simps = handle_client_def handle_port_def reply_def rbind_eq_Inr Let_def

text \<open>A session up to its fourth message.\<close>

lemma logged_in_session:
  assumes "next_command reads = Inr (u, r1)" and "starts_with ''ftpClient'' u"
    and "next_command r1 = Inr (p, r2)" and "starts_with ''ftpCLPass'' p"
    and "next_command r2 = Inr (c, r3)" and "starts_with ''PORT'' c" and "parse_port_command c = Inr address"
    and "0 \<le> data_socket k" and "0 \<le> data_connect k"
  shows "handle_client k reads = rbind (next_command r3) (\<lambda>(cmd, _).
    Inr (if starts_with ''LIST'' cmd
         then \<lparr>control_out = [user_ok, login_ok, list_ok], data_out = list_directory (directory k),
               control_open = False, data_open = False\<rparr>
         else \<lparr>control_out = [user_ok, login_ok, no_command], data_out = [],
               control_open = False, data_open = True\<rparr>))"
proof (cases "next_command r3")
  case (Inr x)
  then show ?thesis
    using assms(8,9) by (cases x; cases address) (simp add: handle_client_def handle_port_def assms(1-7) reply_def Let_def)
next
  case (Inl e)
  then show ?thesis
    using assms(8,9) by (cases address) (simp add: handle_client_def handle_port_def assms(1-7) reply_def Let_def)
qed

text \<open>A listing is only sent in a session whose first two messages start with the user name and the
  password and whose next two start with \<open>PORT\<close> and \<open>LIST\<close>, and the client has been told so each time.\<close>

theorem ftp_listing_needs_login:
  assumes "handle_client k reads = Inr s" and "data_out s \<noteq> []"
  shows "\<exists>u p c l r1 r2 r3 r4. next_command reads = Inr (u, r1) \<and> starts_with ''ftpClient'' u
    \<and> next_command r1 = Inr (p, r2) \<and> starts_with ''ftpCLPass'' p
    \<and> next_command r2 = Inr (c, r3) \<and> starts_with ''PORT'' c
    \<and> next_command r3 = Inr (l, r4) \<and> starts_with ''LIST'' l
    \<and> control_out s = [user_ok, login_ok, list_ok] \<and> data_out s = list_directory (directory k)"
  using assms by (fastforce simp: session_simps split: if_splits)

definition demo_ftp :: ftp_kernel where
  "demo_ftp = \<lparr>data_socket = 5, data_connect = 0, directory = Some [''.'', ''a.txt'', ''.profile'']\<rparr>"

definition demo_login :: "string option list" where
  "demo_login = [Some ''ftpClientX'', Some ''ftpCLPass1'', Some (''PORT '' @ port_text [127, 0, 0, 1, 7, 229] @ [newline])]"

lemma demo_port:
  "parse_port_command (''PORT '' @ port_text [127, 0, 0, 1, 7, 229] @ newline # rest) = Inr (''127.0.0.1'', 2021)"
  using parse_port_lemma [of 127 0 0 1 2021 "newline # rest"]
  by (simp add: print_int_def print_nat.simps isdigit_def)

lemma port_text_local: "port_text [127, 0, 0, 1, 7, 229] = ''127,0,0,1,7,229''"
  by (simp add: port_text_def print_int_def print_nat.simps)

theorem ftp_listing_needs_login_witness:
  "\<exists>s. handle_client demo_ftp (demo_login @ [Some ''LIST'']) = Inr s \<and> data_out s = [''a.txt'' @ [newline]]
    \<and> control_out s = [user_ok, login_ok, list_ok]"
proof -
  let ?s = "\<lparr>control_out = [user_ok, login_ok, list_ok], data_out = [''a.txt'' @ [newline]], control_open = False, data_open = False\<rparr>"
  have "handle_client demo_ftp (demo_login @ [Some ''LIST'']) = Inr ?s"
    using logged_in_session [of "demo_login @ [Some ''LIST'']" "''ftpClientX''" _ "''ftpCLPass1''" _
        "''PORT '' @ port_text [127, 0, 0, 1, 7, 229] @ [newline]" "[Some ''LIST'']", OF _ _ _ _ _ _ demo_port]
    by (simp add: demo_login_def demo_ftp_def next_command_lemma c_str_def starts_with_def list_directory_def port_text_local)
  from ftp_listing_needs_login [OF this] this show ?thesis by auto
qed


lemma session_cases:
  assumes "handle_client k reads = Inr s"
  shows "(control_out s, control_open s, data_open s) \<in>
    {([''530 Invalid username.'' @ [newline]], False, False), ([user_ok, ''530 Login incorrect.'' @ [newline]], False, False),
     ([user_ok, login_ok], False, False), ([user_ok, login_ok, list_ok], False, False),
     ([user_ok, login_ok, no_command], False, True)}" (is "_ \<in> ?cases")
proof -
  obtain u r1 where u: "next_command reads = Inr (u, r1)"
    using assms by (auto simp: handle_client_def rbind_eq_Inr Let_def)
  show ?thesis
  proof (cases "starts_with ''ftpClient'' u")
    case user: True
    then obtain p r2 where p: "next_command r1 = Inr (p, r2)"
      using assms u by (auto simp: handle_client_def rbind_eq_Inr Let_def)
    show ?thesis
    proof (cases "starts_with ''ftpCLPass'' p")
      case pass: True
      then obtain c r3 where c: "next_command r2 = Inr (c, r3)"
        using assms u user p by (auto simp: handle_client_def rbind_eq_Inr Let_def)
      show ?thesis
      proof (cases "starts_with ''PORT'' c")
        case True
        let ?s = "\<lparr>control_out = [user_ok, login_ok], data_out = [], control_open = True, data_open = False\<rparr>"
        have "handle_port k c r3 ?s = Inr s"
          using assms u user p pass c True by (simp add: handle_client_def reply_def Let_def)
        then consider "s = ?s\<lparr>control_open := False\<rparr>"
          | d where "s = reply list_ok (?s\<lparr>data_out := d, control_open := False\<rparr>)"
          | "s = reply no_command (?s\<lparr>data_open := True, control_open := False\<rparr>)"
          unfolding handle_port_def rbind_eq_Inr Let_def by (auto simp: rbind_eq_Inr split: if_splits)
        then show ?thesis by cases (simp_all add: reply_def)
      next
        case False
        then have "s = \<lparr>control_out = [user_ok, login_ok], data_out = [], control_open = False, data_open = False\<rparr>"
          using assms u user p pass c by (simp add: handle_client_def reply_def Let_def)
        then show ?thesis by simp
      qed
    next
      case False
      then have "s = reply (''530 Login incorrect.'' @ [newline])
          \<lparr>control_out = [user_ok], data_out = [], control_open = False, data_open = False\<rparr>"
        using assms u user p by (simp add: handle_client_def reply_def Let_def)
      then show ?thesis by (simp add: reply_def)
    qed
  next
    case False
    then have "s = reply (''530 Invalid username.'' @ [newline])
        \<lparr>control_out = [], data_out = [], control_open = False, data_open = False\<rparr>"
      using assms u by (simp add: handle_client_def reply_def Let_def)
    then show ?thesis by (simp add: reply_def)
  qed
qed

text \<open>Every session that ends has one of five transcripts on its control connection and closes it;
  only the one that ends with the refusal of a command leaves its data socket open for good.\<close>

theorem ftp_session_transcripts:
  assumes "handle_client k reads = Inr s"
  shows "\<not> control_open s \<and> (data_open s \<longleftrightarrow> control_out s = [user_ok, login_ok, no_command])
    \<and> control_out s \<in> {[''530 Invalid username.'' @ [newline]], [user_ok, ''530 Login incorrect.'' @ [newline]],
         [user_ok, login_ok], [user_ok, login_ok, list_ok], [user_ok, login_ok, no_command]}"
  using session_cases [OF assms] by auto

theorem ftp_session_transcripts_witness:
  "\<exists>s. handle_client demo_ftp (demo_login @ [Some ''QUIT'']) = Inr s \<and> data_open s \<and> \<not> control_open s"
proof -
  let ?s = "\<lparr>control_out = [user_ok, login_ok, no_command], data_out = [], control_open = False, data_open = True\<rparr>"
  have "handle_client demo_ftp (demo_login @ [Some ''QUIT'']) = Inr ?s"
    using logged_in_session [of "demo_login @ [Some ''QUIT'']" "''ftpClientX''" _ "''ftpCLPass1''" _
        "''PORT '' @ port_text [127, 0, 0, 1, 7, 229] @ [newline]" "[Some ''QUIT'']", OF _ _ _ _ _ _ demo_port]
    by (simp add: demo_login_def demo_ftp_def next_command_lemma c_str_def starts_with_def port_text_local)
  from ftp_session_transcripts [OF this] this show ?thesis by auto
qed

definition client_messages :: "string list" where
  "client_messages = [''ftpClient'' @ [newline], ''ftpCLPass'' @ [newline],
     ''PORT '' @ port_text [127, 0, 0, 1, 7, 229] @ [newline], ''LIST'' @ [newline]]"

lemma client_session:
  assumes "0 \<le> data_socket k" and "0 \<le> data_connect k" and "next_command reads = Inr (''LIST'' @ [newline], rest)"
  shows "handle_client k (map Some (take 3 client_messages) @ reads) =
    Inr \<lparr>control_out = [user_ok, login_ok, list_ok], data_out = list_directory (directory k), control_open = False, data_open = False\<rparr>"
  using logged_in_session [of "map Some (take 3 client_messages) @ reads" "''ftpClient'' @ [newline]" _ "''ftpCLPass'' @ [newline]" _
        "''PORT '' @ port_text [127, 0, 0, 1, 7, 229] @ [newline]" reads, OF _ _ _ _ _ _ demo_port] assms
  by (simp add: client_messages_def next_command_lemma c_str_def starts_with_def port_text_local)

lemma ftp_port_text_eq: "ftp_port_text = Inr (''PORT '' @ port_text [127, 0, 0, 1, 7, 229] @ [newline])"
  by (simp add: ftp_port_text_def c_div_def c_mod_def checked_def fits_32 port_text_local print_int_def print_nat.simps)

lemma ftp_client_lemma:
  assumes "0 \<le> control_ret c" and "0 \<le> connect_ret c" and "listen_rets c = (s1, s2, s3)" and "0 \<le> min s1 (min s2 s3)"
    and "answers c = [Some user_ok, Some login_ok, Some list_ok, None]"
  shows "\<exists>printed. ftp_client_main c = Inr (client_messages, printed)
    \<and> last printed = ''Received Directory Listing:'' @ [newline]"
proof -
  have "next_command [None] = Inr ([], [])"
    using next_command_lemma [of "[]" "[]"] by (simp add: next_command_def command_of_def c_str_def)
  then show ?thesis
    using assms by (simp add: ftp_client_main_def create_data_socket_def next_command_lemma c_str_def
        ftp_port_text_eq client_messages_def)
qed

text \<open>Client and server agree on the session: when each message arrives with one \<open>read\<close>, the server
  answers the four messages of the client with the three replies that the client waits for, and sends
  the names of the directory that do not start with a dot.  The client never accepts the data
  connection: its \<open>read\<close> from the listening socket fails, and it shows an empty listing.\<close>

theorem ftp_client_server_session:
  assumes "0 \<le> data_socket k" and "0 \<le> data_connect k"
    and "0 \<le> control_ret c" and "0 \<le> connect_ret c" and "listen_rets c = (s1, s2, s3)" and "0 \<le> min s1 (min s2 s3)"
    and "answers c = [Some user_ok, Some login_ok, Some list_ok, None]"
  shows "\<exists>sent printed s. ftp_client_main c = Inr (sent, printed) \<and> handle_client k (map Some sent) = Inr s
    \<and> answers c = map Some (control_out s) @ [None] \<and> data_out s = list_directory (directory k)
    \<and> \<not> control_open s \<and> \<not> data_open s \<and> last printed = ''Received Directory Listing:'' @ [newline]"
proof -
  obtain printed where "ftp_client_main c = Inr (client_messages, printed)"
      "last printed = ''Received Directory Listing:'' @ [newline]"
    using ftp_client_lemma [OF assms(3-7)] by blast
  moreover have "handle_client k (map Some (take 3 client_messages) @ [Some (''LIST'' @ [newline])]) = Inr
      \<lparr>control_out = [user_ok, login_ok, list_ok], data_out = list_directory (directory k), control_open = False, data_open = False\<rparr>"
    by (rule client_session [OF assms(1,2)]) (simp add: next_command_lemma c_str_def)
  moreover have "map Some client_messages = map Some (take 3 client_messages) @ [Some (''LIST'' @ [newline])]"
    by (simp add: client_messages_def)
  ultimately show ?thesis using assms(7) by (intro exI conjI) auto
qed

definition demo_client :: ftp_client_kernel where
  "demo_client = \<lparr>control_ret = 3, connect_ret = 0, listen_rets = (4, 0, 0),
     answers = [Some user_ok, Some login_ok, Some list_ok, None]\<rparr>"

theorem ftp_client_server_session_witness:
  "\<exists>sent printed s. ftp_client_main demo_client = Inr (sent, printed) \<and> handle_client demo_ftp (map Some sent) = Inr s
    \<and> data_out s = [''a.txt'' @ [newline]] \<and> last printed = ''Received Directory Listing:'' @ [newline]"
  using ftp_client_server_session [of demo_ftp demo_client 4 0 0]
  by (auto simp: demo_client_def demo_ftp_def list_directory_def)

text \<open>The client sends \<open>LIST\<close> without waiting for an answer to \<open>PORT\<close>.  When both arrive with the
  same \<open>read\<close>, the server takes them for one command and waits for another message, which the client,
  waiting for the reply, never sends.\<close>

theorem ftp_merged_commands_block:
  assumes "0 \<le> data_socket k" and "0 \<le> data_connect k"
  shows "handle_client k (map Some (take 2 client_messages @ [concat (drop 2 client_messages)])) = Inl Exhausted"
proof -
  let ?port = "''PORT '' @ port_text [127, 0, 0, 1, 7, 229] @ [newline]"
  have "parse_port_command (?port @ ''LIST'' @ [newline]) = Inr (''127.0.0.1'', 2021)"
    using demo_port [of "''LIST'' @ [newline]"] by simp
  from logged_in_session [of "map Some (take 2 client_messages @ [concat (drop 2 client_messages)])" "''ftpClient'' @ [newline]" _
      "''ftpCLPass'' @ [newline]" _ "?port @ ''LIST'' @ [newline]" "[]", OF _ _ _ _ _ _ this] assms
  show ?thesis
    by (simp add: client_messages_def next_command_lemma c_str_def starts_with_def port_text_local)
      (simp add: next_command_def)
qed

theorem ftp_merged_commands_block_witness:
  "handle_client demo_ftp [Some (''ftpClient'' @ [newline]), Some (''ftpCLPass'' @ [newline]),
     Some (''PORT 127,0,0,1,7,229'' @ [newline] @ ''LIST'' @ [newline])] = Inl Exhausted"
  using ftp_merged_commands_block [of demo_ftp] by (simp add: demo_ftp_def client_messages_def port_text_local)

text \<open>A \<open>PORT\<close> command without six numbers ends the process, and with it the sessions of all other
  clients.\<close>

theorem ftp_bad_port_ends_server:
  assumes "next_command reads = Inr (u, r1)" and "starts_with ''ftpClient'' u"
    and "next_command r1 = Inr (p, r2)" and "starts_with ''ftpCLPass'' p"
    and "next_command r2 = Inr (c, r3)" and "starts_with ''PORT'' c" and "scan_ints 6 (drop 4 c) = Inr None"
  shows "handle_client k reads = Inl Exit_failure"
  by (simp add: handle_client_def handle_port_def parse_port_command_def assms Let_def)

theorem ftp_bad_port_ends_server_witness:
  "handle_client demo_ftp [Some ''ftpClient'', Some ''ftpCLPass'', Some ''PORT 127,0,0,1''] = Inl Exit_failure"
proof -
  have six: "(6 :: nat) = Suc (Suc (Suc (Suc (Suc (Suc 0)))))" by simp
  have "scan_ints 6 '' 127,0,0,1'' = Inr None"
    unfolding six by (simp add: scan_int_def isspace_def isdigit_def nat_of_digits_def digit_value_def checked_def fits_32)
  then show ?thesis
    using ftp_bad_port_ends_server [of "[Some ''ftpClient'', Some ''ftpCLPass'', Some ''PORT 127,0,0,1'']"]
    by (simp add: next_command_lemma c_str_def starts_with_def)
qed

end
