(* ===== verification/Ftp_Threads.thy ===== *)
theory Ftp_Threads
  imports Ftp
begin

text \<open>
  The process of \<^verbatim>\<open>FTP/ftp_simple_server.c\<close>: \<open>main\<close> starts a thread for every connection, and the threads
  run in any order.  \<open>main\<close> hands each thread its socket in memory from \<open>malloc\<close>, which the thread reads and
  frees when it starts.  A thread then waits in a \<open>read\<close> or has ended; one step of it runs from the return of
  one \<open>read\<close> to the call of the next.  The process ends for all threads when one of them exits, is killed by
  \<open>SIGPIPE\<close> or leaves the behaviour that C defines.

  The buffer of a thread is a local variable that it clears before every \<open>read\<close>; it is part of the step.
  Data sockets are not counted among the open ones, so that the model lets \<open>accept\<close> return more numbers
  than the kernel would.

  The results: every thread serves the connection it was created for, as \<open>handle_client\<close> serves it alone;
  only threads that are given the log-in send listings; and exactly what ends the process.
\<close>

section \<open>The model\<close>

text \<open>The \<open>read\<close> of \<open>handle_client\<close> that a thread waits in.\<close>

datatype ftp_wait = For_user | For_password | For_command | For_list | Ended

record ftp_thread =
  kernel :: ftp_kernel
  waits :: ftp_wait
  session :: ftp_session

definition thread_start :: "ftp_kernel \<Rightarrow> ftp_thread" where
  "thread_start k = \<lparr>kernel = k, waits = For_user,
     session = \<lparr>control_out = [], data_out = [], control_open = True, data_open = False\<rparr>\<rparr>"

definition continue :: "ftp_wait \<Rightarrow> ftp_session \<Rightarrow> ftp_thread \<Rightarrow> ftp_thread" where
  "continue w s t = t\<lparr>waits := w, session := s\<rparr>"

text \<open>From the buffer that \<open>read\<close> has filled to the next \<open>read\<close> or to the end of \<open>handle_client\<close>.\<close>

definition command_step :: "ftp_thread \<Rightarrow> string \<Rightarrow> c_error + ftp_thread" where
  "command_step t cmd =
    (let s = session t; closed = s\<lparr>control_open := False\<rparr>
     in case waits t of
          For_user \<Rightarrow>
            Inr (if \<not> starts_with ''ftpClient'' cmd
                 then continue Ended (reply (''530 Invalid username.'' @ [newline]) closed) t
                 else continue For_password (reply (''331 Username OK, need password.'' @ [newline]) s) t)
        | For_password \<Rightarrow>
            Inr (if \<not> starts_with ''ftpCLPass'' cmd
                 then continue Ended (reply (''530 Login incorrect.'' @ [newline]) closed) t
                 else continue For_command (reply (''230 Login successful.'' @ [newline]) s) t)
        | For_command \<Rightarrow>
            if starts_with ''PORT'' cmd
            then rbind (parse_port_command cmd) (\<lambda>(client_ip, client_data_port). Inr (
                   if data_socket (kernel t) < 0 then continue Ended closed t
                   else if data_connect (kernel t) < 0 then continue Ended closed t
                   else continue For_list (s\<lparr>data_open := True\<rparr>) t))
            else Inr (continue Ended closed t)
        | For_list \<Rightarrow>
            Inr (continue Ended
              (if starts_with ''LIST'' cmd
               then reply (''226 Directory send OK.'' @ [newline])
                 (closed\<lparr>data_out := data_out s @ list_directory (directory (kernel t)), data_open := False\<rparr>)
               else reply (''502 Command not implemented.'' @ [newline]) closed) t)
        | Ended \<Rightarrow> Inr t)"

definition thread_step :: "ftp_thread \<Rightarrow> string option \<Rightarrow> c_error + ftp_thread" where
  "thread_step t r = rbind (command_of r) (command_step t)"

text \<open>A thread that is given the results of all its \<open>read\<close>s.\<close>

fun run_thread :: "ftp_thread \<Rightarrow> string option list \<Rightarrow> c_error + ftp_session" where
  "run_thread t [] = (if waits t = Ended then Inr (session t) else Inl Exhausted)"
| "run_thread t (r # reads) =
    (if waits t = Ended then Inr (session t) else rbind (thread_step t r) (\<lambda>t'. run_thread t' reads))"

text \<open>
  The process: the memory that \<open>main\<close> has allocated, the control sockets that are open, and a task for
  each thread, in the order of their creation: the pointer it was given and, once it has run up to its first
  \<open>read\<close>, its own copy of the socket.
\<close>

record ftp_task =
  argument :: nat
  control_socket :: "int option"
  thread :: ftp_thread

record ftp_state =
  heap :: "nat \<Rightarrow> int option"
  open_sockets :: "int set"
  tasks :: "ftp_task list"

datatype ftp_process = Alive ftp_state | Dead c_error

text \<open>\<open>main\<close> up to its loop, and one round of the loop for the results of \<open>accept\<close>, \<open>malloc\<close> and
  \<open>pthread_create\<close>.  Without a thread, \<open>pthread_detach\<close> uses an indeterminate variable.\<close>

definition ftp_server_start :: "int \<Rightarrow> int \<Rightarrow> int \<Rightarrow> c_error + ftp_state" where
  "ftp_server_start server_fd bind_ret listen_ret =
    (if server_fd < 0 then Inl Exit_failure
     else if bind_ret = - 1 then Inl Exit_failure
     else if listen_ret = - 1 then Inl Exit_failure
     else Inr \<lparr>heap = (\<lambda>_. None), open_sockets = {server_fd}, tasks = []\<rparr>)"

definition accept_client :: "int \<Rightarrow> nat option \<Rightarrow> int \<Rightarrow> ftp_kernel \<Rightarrow> ftp_state \<Rightarrow> c_error + ftp_state" where
  "accept_client ftp_control_socket new_sock create_ret k s =
    (if ftp_control_socket = - 1 then Inl Exit_failure
     else case new_sock of
            None \<Rightarrow> Inl Null_pointer
          | Some a \<Rightarrow>
              if create_ret \<noteq> 0 then Inl Uninitialised
              else Inr (s\<lparr>heap := (heap s)(a := Some ftp_control_socket),
                     open_sockets := insert ftp_control_socket (open_sockets s),
                     tasks := tasks s @ [\<lparr>argument = a, control_socket = None, thread = thread_start k\<rparr>]\<rparr>))"

text \<open>The first two lines of \<open>handle_client\<close>: the socket is read through the pointer, which is then freed.\<close>

definition start_task :: "nat \<Rightarrow> ftp_state \<Rightarrow> c_error + ftp_state" where
  "start_task i s =
    (let t = tasks s ! i
     in case heap s (argument t) of
          None \<Rightarrow> Inl Dangling
        | Some fd \<Rightarrow> Inr (s\<lparr>heap := (heap s)(argument t := None), tasks := (tasks s)[i := (t\<lparr>control_socket := Some fd\<rparr>)]\<rparr>))"

text \<open>A step of a thread, from the return of its \<open>read\<close> on the socket \<open>fd\<close>.  If the peer is \<open>gone\<close>, a write
  in this step raises \<open>SIGPIPE\<close>.\<close>

definition writes :: "ftp_thread \<Rightarrow> ftp_thread \<Rightarrow> bool" where
  "writes t t' \<longleftrightarrow> control_out (session t') \<noteq> control_out (session t) \<or> data_out (session t') \<noteq> data_out (session t)"

definition serve_task :: "nat \<Rightarrow> int \<Rightarrow> string option \<Rightarrow> bool \<Rightarrow> ftp_state \<Rightarrow> c_error + ftp_state" where
  "serve_task i fd r gone s =
    rbind (thread_step (thread (tasks s ! i)) r) (\<lambda>t'.
      if gone \<and> writes (thread (tasks s ! i)) t' then Inl Broken_pipe
      else Inr (s\<lparr>tasks := (tasks s)[i := (tasks s ! i)\<lparr>thread := t'\<rparr>],
             open_sockets := (if control_open (session t') then open_sockets s else open_sockets s - {fd})\<rparr>))"

text \<open>
  An event is a round of \<open>main\<close>, the start of a thread, or the return of a \<open>read\<close> on a control socket.
  The kernel hands out sockets that are not open, \<open>malloc\<close> memory that is not in use.
\<close>

datatype ftp_event = Accepted int "nat option" int ftp_kernel | Started nat | Received int "string option" bool

definition outcome :: "c_error + ftp_state \<Rightarrow> ftp_process" where
  "outcome r = (case r of Inl e \<Rightarrow> Dead e | Inr s \<Rightarrow> Alive s)"

inductive ftp_step :: "ftp_process \<Rightarrow> ftp_event \<Rightarrow> ftp_process \<Rightarrow> bool" where
  accepted: "fd \<notin> open_sockets s \<Longrightarrow> (\<And>a. new_sock = Some a \<Longrightarrow> heap s a = None)
    \<Longrightarrow> ftp_step (Alive s) (Accepted fd new_sock create_ret k) (outcome (accept_client fd new_sock create_ret k s))"
| started: "i < length (tasks s) \<Longrightarrow> control_socket (tasks s ! i) = None
    \<Longrightarrow> ftp_step (Alive s) (Started i) (outcome (start_task i s))"
| received: "i < length (tasks s) \<Longrightarrow> control_socket (tasks s ! i) = Some fd \<Longrightarrow> waits (thread (tasks s ! i)) \<noteq> Ended
    \<Longrightarrow> ftp_step (Alive s) (Received fd r gone) (outcome (serve_task i fd r gone s))"

inductive ftp_run :: "ftp_event list \<Rightarrow> ftp_process \<Rightarrow> bool" where
  begun: "ftp_server_start server_fd bind_ret listen_ret = Inr s \<Longrightarrow> ftp_run [] (Alive s)"
| event: "ftp_run es p \<Longrightarrow> ftp_step p e p' \<Longrightarrow> ftp_run (es @ [e]) p'"


text \<open>The connections in the order in which they are accepted, with their sockets; the messages of one are
  those that arrive on its socket, until this is given to another connection.\<close>

fun connections :: "ftp_event list \<Rightarrow> (int \<times> ftp_kernel) list" where
  "connections [] = []"
| "connections (Accepted fd new_sock create_ret k # es) = (fd, k) # connections es"
| "connections (Started i # es) = connections es"
| "connections (Received fd r gone # es) = connections es"

fun heard :: "int \<Rightarrow> ftp_event list \<Rightarrow> string option list" where
  "heard fd [] = []"
| "heard fd (Accepted fd' new_sock create_ret k # es) = (if fd' = fd then [] else heard fd es)"
| "heard fd (Started i # es) = heard fd es"
| "heard fd (Received fd' r gone # es) = (if fd' = fd then r # heard fd es else heard fd es)"

fun conversation :: "nat \<Rightarrow> ftp_event list \<Rightarrow> string option list" where
  "conversation i [] = []"
| "conversation i (Accepted fd new_sock create_ret k # es) = (case i of 0 \<Rightarrow> heard fd es | Suc j \<Rightarrow> conversation j es)"
| "conversation i (Started j # es) = conversation i es"
| "conversation i (Received fd r gone # es) = conversation i es"

text \<open>The socket of connection \<open>i\<close> has not been given to another one since.\<close>

definition assigned :: "nat \<Rightarrow> int \<Rightarrow> ftp_event list \<Rightarrow> bool" where
  "assigned i fd es \<longleftrightarrow> i < length (connections es) \<and> fst (connections es ! i) = fd
     \<and> fd \<notin> fst ` set (drop (Suc i) (connections es))"

section \<open>A thread alone\<close>

lemma next_command_Nil [simp]: "next_command [] = Inl Exhausted"
  by (simp add: next_command_def)

lemma next_command_Cons [simp]: "next_command (r # reads) = rbind (command_of r) (\<lambda>s. Inr (s, reads))"
  by (simp add: next_command_def)

lemma run_thread_ended [simp]: "waits t = Ended \<Longrightarrow> run_thread t reads = Inr (session t)"
  by (cases reads) simp_all

lemma continue_sel [simp]: "waits (continue w s t) = w" "session (continue w s t) = s" "kernel (continue w s t) = kernel t"
  by (simp_all add: continue_def)

lemma run_thread_next:
  "waits t \<noteq> Ended \<Longrightarrow> run_thread t reads =
    rbind (next_command reads) (\<lambda>(cmd, reads). rbind (command_step t cmd) (\<lambda>t'. run_thread t' reads))"
  by (cases reads) (simp_all add: thread_step_def rbind_assoc)

text \<open>The four reads, as \<open>handle_client\<close> has them.\<close>

lemma run_user:
  "waits t = For_user \<Longrightarrow> run_thread t reads = rbind (next_command reads) (\<lambda>(cmd, reads).
     if \<not> starts_with ''ftpClient'' cmd
     then Inr (reply (''530 Invalid username.'' @ [newline]) (session t\<lparr>control_open := False\<rparr>))
     else run_thread (continue For_password (reply user_ok (session t)) t) reads)"
  by (cases "next_command reads") (auto simp: run_thread_next command_step_def Let_def)

lemma run_password:
  "waits t = For_password \<Longrightarrow> run_thread t reads = rbind (next_command reads) (\<lambda>(cmd, reads).
     if \<not> starts_with ''ftpCLPass'' cmd
     then Inr (reply (''530 Login incorrect.'' @ [newline]) (session t\<lparr>control_open := False\<rparr>))
     else run_thread (continue For_command (reply login_ok (session t)) t) reads)"
  by (cases "next_command reads") (auto simp: run_thread_next command_step_def Let_def)

lemma run_list:
  "waits t = For_list \<Longrightarrow> run_thread t reads = rbind (next_command reads) (\<lambda>(cmd, reads).
     if starts_with ''LIST'' cmd
     then Inr (reply list_ok (session t\<lparr>data_out := data_out (session t) @ list_directory (directory (kernel t)),
            data_open := False, control_open := False\<rparr>))
     else Inr (reply no_command (session t\<lparr>control_open := False\<rparr>)))"
  by (cases "next_command reads"; cases "session t") (auto simp: run_thread_next command_step_def reply_def Let_def)

lemma run_command:
  assumes "waits t = For_command"
  shows "run_thread t reads = rbind (next_command reads) (\<lambda>(cmd, reads).
     if starts_with ''PORT'' cmd then handle_port (kernel t) cmd reads (session t)
     else Inr (session t\<lparr>control_open := False\<rparr>))"
proof (cases "next_command reads")
  case (Inr x)
  then show ?thesis
    using assms by (cases x; cases "parse_port_command (fst x)"; cases "session t")
      (auto simp: run_thread_next command_step_def handle_port_def run_list reply_def Let_def
        if_distrib [of Inr] cong: if_cong)
qed (simp add: run_thread_next assms)

theorem handle_client_is_thread: "handle_client k reads = run_thread (thread_start k) reads"
  by (simp add: handle_client_def run_user run_password run_command thread_start_def Let_def cong: if_cong)

section \<open>Threads together\<close>

lemma command_step_kernel: "command_step t cmd = Inr t' \<Longrightarrow> kernel t' = kernel t"
  by (cases "waits t"; cases "parse_port_command cmd") (auto simp: command_step_def Let_def split: if_splits)

lemma thread_step_kernel: "thread_step t r = Inr t' \<Longrightarrow> kernel t' = kernel t"
  using command_step_kernel by (auto simp: thread_step_def rbind_eq_Inr)

lemma run_thread_step:
  "waits t \<noteq> Ended \<Longrightarrow> thread_step t r = Inr t' \<Longrightarrow> run_thread t (r # reads) = run_thread t' reads"
  by simp

text \<open>The socket and the memory of each task.\<close>

lemma connections_append [simp]: "connections (es @ es') = connections es @ connections es'"
  by (induction es rule: connections.induct) simp_all

lemma heard_snoc:
  "heard fd (es @ [Received fd' r gone]) = heard fd es @ (if fd' = fd \<and> fd \<notin> fst ` set (connections es) then [r] else [])"
  by (induction fd es rule: heard.induct) auto

lemma heard_other: "heard fd (es @ [Accepted fd' new_sock create_ret k]) = heard fd es" "heard fd (es @ [Started i]) = heard fd es"
  by (induction fd es rule: heard.induct) simp_all

lemma conversation_snoc:
  "conversation i (es @ [Received fd r gone]) = conversation i es @ (if assigned i fd es then [r] else [])"
  "conversation i (es @ [Accepted fd new_sock create_ret k]) = conversation i es"
  "conversation i (es @ [Started j]) = conversation i es"
  by (induction i es rule: conversation.induct)
    (auto simp: heard_snoc heard_other assigned_def split: nat.splits)

lemma assigned_snoc:
  "assigned i fd (es @ [Received fd' r gone]) = assigned i fd es"
  "assigned i fd (es @ [Started j]) = assigned i fd es"
  "assigned i fd (es @ [Accepted fd' new_sock create_ret k]) \<longleftrightarrow>
    (if i < length (connections es) then assigned i fd es \<and> fd \<noteq> fd' else i = length (connections es) \<and> fd = fd')"
  by (auto simp: assigned_def nth_append less_Suc_eq)

lemma assigned_unique: "assigned i fd es \<Longrightarrow> assigned j fd es \<Longrightarrow> i = j"
proof (induction i j rule: linorder_wlog)
  case (le i j)
  show ?case
  proof (rule ccontr)
    assume "i \<noteq> j"
    then have "i < j" "j < length (connections es)" using le by (simp_all add: assigned_def)
    then have "connections es ! j \<in> set (drop (Suc i) (connections es))"
      by (auto simp: in_set_conv_nth intro!: exI [of _ "j - Suc i"])
    then have "fst (connections es ! j) \<in> fst ` set (drop (Suc i) (connections es))" by (rule imageI)
    then show False using le(2,3) by (simp add: assigned_def)
  qed
qed simp

text \<open>A thread closes its socket in the step that ends it.\<close>

lemma thread_step_open:
  "thread_step t r = Inr t' \<Longrightarrow> waits t \<noteq> Ended \<Longrightarrow> control_open (session t) \<Longrightarrow>
    control_open (session t') \<longleftrightarrow> waits t' \<noteq> Ended"
proof -
  have "control_open (session t') \<longleftrightarrow> waits t' \<noteq> Ended"
    if "command_step t cmd = Inr t'" "waits t \<noteq> Ended" "control_open (session t)" for cmd
    using that by (cases "waits t"; cases "parse_port_command cmd")
      (auto simp: command_step_def reply_def Let_def split: if_splits)
  then show "thread_step t r = Inr t' \<Longrightarrow> waits t \<noteq> Ended \<Longrightarrow> control_open (session t) \<Longrightarrow> ?thesis"
    by (auto simp: thread_step_def rbind_eq_Inr)
qed

definition unstarted :: "ftp_state \<Rightarrow> nat set" where
  "unstarted s = {i. i < length (tasks s) \<and> control_socket (tasks s ! i) = None}"

definition memory_ok :: "ftp_state \<Rightarrow> bool" where
  "memory_ok s \<longleftrightarrow> inj_on (\<lambda>i. argument (tasks s ! i)) (unstarted s)
     \<and> dom (heap s) = (\<lambda>i. argument (tasks s ! i)) ` unstarted s"

definition task_ok :: "nat \<Rightarrow> ftp_event list \<Rightarrow> ftp_state \<Rightarrow> bool" where
  "task_ok i es s \<longleftrightarrow>
    (let t = tasks s ! i; (fd, k) = connections es ! i
     in kernel (thread t) = k
       \<and> (control_open (session (thread t)) \<longleftrightarrow> waits (thread t) \<noteq> Ended)
       \<and> (waits (thread t) \<noteq> Ended \<longrightarrow> fd \<in> open_sockets s \<and> assigned i fd es)
       \<and> (case control_socket t of
            None \<Rightarrow> heap s (argument t) = Some fd \<and> thread t = thread_start k \<and> conversation i es = []
          | Some fd' \<Rightarrow> fd' = fd))"

definition sound :: "ftp_event list \<Rightarrow> ftp_state \<Rightarrow> bool" where
  "sound es s \<longleftrightarrow> length (connections es) = length (tasks s) \<and> memory_ok s \<and> (\<forall>i < length (tasks s). task_ok i es s)"

lemma thread_start_sel [simp]: "waits (thread_start k) = For_user" "kernel (thread_start k) = k"
    "session (thread_start k) = \<lparr>control_out = [], data_out = [], control_open = True, data_open = False\<rparr>"
  by (simp_all add: thread_start_def)

lemma outcome_Alive [simp]: "outcome r = Alive s \<longleftrightarrow> r = Inr s" "Alive s = outcome r \<longleftrightarrow> r = Inr s"
  by (auto simp: outcome_def split: sum.splits)

lemma outcome_Dead [simp]: "outcome r = Dead e \<longleftrightarrow> r = Inl e" "Dead e = outcome r \<longleftrightarrow> r = Inl e"
  by (auto simp: outcome_def split: sum.splits)

lemma sound_task: "sound es s \<Longrightarrow> i < length (tasks s) \<Longrightarrow> task_ok i es s"
  by (simp add: sound_def)

lemma sound_start: "ftp_server_start server_fd bind_ret listen_ret = Inr s \<Longrightarrow> sound [] s"
  by (auto simp: ftp_server_start_def sound_def memory_ok_def unstarted_def split: if_splits)

lemma sound_accept:
  assumes sound: "sound es s" and fresh: "fd \<notin> open_sockets s" "\<And>a. new_sock = Some a \<Longrightarrow> heap s a = None"
    and step: "accept_client fd new_sock create_ret k s = Inr s'"
  shows "sound (es @ [Accepted fd new_sock create_ret k]) s'"
proof -
  let ?es = "es @ [Accepted fd new_sock create_ret k]" and ?n = "length (tasks s)"
  obtain a where a: "heap s a = None" "new_sock = Some a"
    and s': "s' = s\<lparr>heap := (heap s)(a := Some fd), open_sockets := insert fd (open_sockets s),
      tasks := tasks s @ [\<lparr>argument = a, control_socket = None, thread = thread_start k\<rparr>]\<rparr>"
    using step fresh(2) by (auto simp: accept_client_def split: if_splits option.splits)
  have len: "length (connections es) = ?n" and mem: "memory_ok s" using sound by (simp_all add: sound_def)
  have un: "unstarted s' = insert ?n (unstarted s)" by (auto simp: unstarted_def s' nth_append less_Suc_eq)
  have arg: "argument (tasks s' ! i) = argument (tasks s ! i)" if "i \<in> unstarted s" for i
    using that by (simp add: unstarted_def s' nth_append)
  have "a \<notin> (\<lambda>i. argument (tasks s ! i)) ` unstarted s" 
    using mem a(1) unfolding memory_ok_def by (metis domIff)
  moreover have "argument (tasks s' ! ?n) = a" and "?n \<notin> unstarted s" by (simp_all add: s' unstarted_def)
  moreover have "dom (heap s') = insert a (dom (heap s))" by (simp add: s')
  ultimately have "memory_ok s'"
    using mem arg unfolding memory_ok_def un inj_on_def by (auto simp: image_iff)
  moreover have "task_ok i ?es s'" if i: "i < Suc ?n" for i
  proof (cases "i = ?n")
    case True
    have "conversation i es = []" if "length (connections es) \<le> i" for i
      using that by (induction i es rule: conversation.induct) (auto split: nat.splits)
    then show ?thesis using True len by (simp add: task_ok_def s' nth_append assigned_snoc conversation_snoc)
  next
    case False
    then have "i < ?n" and ok: "task_ok i es s" using i sound by (simp_all add: sound_def)
    then have [simp]: "tasks s' ! i = tasks s ! i" "(connections es @ [(fd, k)]) ! i = connections es ! i"
      and new: "fd \<noteq> fd' \<Longrightarrow> assigned i fd' ?es = assigned i fd' es" for fd'
      using len by (auto simp: s' nth_append assigned_snoc)
    have "argument (tasks s ! i) \<noteq> a" if "control_socket (tasks s ! i) = None"
      using ok that a(1) by (auto simp: task_ok_def Let_def split: prod.splits)
    then show ?thesis
      using ok fresh(1) new [of "fst (connections es ! i)"]
      by (cases "connections es ! i"; cases "control_socket (tasks s ! i)";
          cases "waits (thread (tasks s ! i)) = Ended"; cases "fst (connections es ! i) = fd")
        (simp_all add: task_ok_def conversation_snoc, simp_all add: s')
  qed
  ultimately show ?thesis using len by (simp add: sound_def s')
qed

lemma sound_started:
  assumes sound: "sound es s" and i: "i < length (tasks s)" "control_socket (tasks s ! i) = None"
    and step: "start_task i s = Inr s'"
  shows "sound (es @ [Started i]) s'"
proof -
  let ?t = "tasks s ! i"
  note ok = sound_task [OF sound]
  have fd: "heap s (argument ?t) = Some (fst (connections es ! i))"
    using ok [OF i(1)] i(2) by (simp add: task_ok_def Let_def split: prod.splits)
  then have s': "s' = s\<lparr>heap := (heap s)(argument ?t := None),
      tasks := (tasks s)[i := (?t\<lparr>control_socket := Some (fst (connections es ! i))\<rparr>)]\<rparr>"
    using step by (simp add: start_task_def Let_def)
  have len: "length (connections es) = length (tasks s)" and mem: "memory_ok s" using sound by (simp_all add: sound_def)
  have un: "unstarted s' = unstarted s - {i}" using i by (auto simp: unstarted_def s' nth_list_update split: if_splits)
  have iun: "i \<in> unstarted s" using i by (simp add: unstarted_def)
  have arg: "argument (tasks s' ! j) = argument (tasks s ! j)" for j using i(1) by (cases "j = i") (simp_all add: s')
  have inj: "inj_on (\<lambda>j. argument (tasks s ! j)) (unstarted s)" using mem by (simp add: memory_ok_def)
  have "memory_ok s'"
    unfolding memory_ok_def un arg
    using mem iun inj_on_image_set_diff [OF inj, of "unstarted s" "{i}"]
    by (auto simp: memory_ok_def s' intro: inj_on_subset)
  moreover have "task_ok j (es @ [Started i]) s'" if j: "j < length (tasks s)" for j
  proof (cases "j = i")
    case True
    then show ?thesis using ok [OF j] i
      by (auto simp: task_ok_def s' assigned_snoc conversation_snoc Let_def split: prod.splits)
  next
    case False
    have "argument (tasks s ! j) \<noteq> argument ?t" if "control_socket (tasks s ! j) = None"
      using inj_onD [OF inj, of j i] False that iun j by (auto simp: unstarted_def)
    then show ?thesis using ok [OF j] False
      by (auto simp: task_ok_def s' assigned_snoc conversation_snoc Let_def split: prod.splits option.splits)
  qed
  ultimately show ?thesis using len by (simp add: sound_def s')
qed

lemma sound_received:
  assumes sound: "sound es s" and i: "i < length (tasks s)" "control_socket (tasks s ! i) = Some fd"
      "waits (thread (tasks s ! i)) \<noteq> Ended"
    and step: "serve_task i fd r gone s = Inr s'"
  shows "sound (es @ [Received fd r gone]) s'"
    and "assigned i fd es"
    and "thread_step (thread (tasks s ! i)) r = Inr (thread (tasks s' ! i))"
    and "j \<noteq> i \<Longrightarrow> thread (tasks s' ! j) = thread (tasks s ! j)"
    and "length (tasks s') = length (tasks s)"
proof -
  let ?t = "tasks s ! i"
  note ok = sound_task [OF sound]
  show mine: "assigned i fd es" using ok [OF i(1)] i(2,3) by (simp add: task_ok_def Let_def split: prod.splits)
  obtain t' where t': "thread_step (thread ?t) r = Inr t'"
    and s': "s' = s\<lparr>tasks := (tasks s)[i := ?t\<lparr>thread := t'\<rparr>],
      open_sockets := (if control_open (session t') then open_sockets s else open_sockets s - {fd})\<rparr>"
    using step by (auto simp: serve_task_def rbind_eq_Inr split: if_splits)
  have open': "control_open (session t') \<longleftrightarrow> waits t' \<noteq> Ended"
    using thread_step_open [OF t' i(3)] ok [OF i(1)] i(3) by (simp add: task_ok_def Let_def split: prod.splits)
  have un: "unstarted s' = unstarted s" using i by (auto simp: unstarted_def s' nth_list_update split: if_splits)
  have arg: "argument (tasks s' ! j) = argument (tasks s ! j)" for j
    using i(1) by (cases "j = i") (simp_all add: s')
  have "memory_ok s'" using sound by (simp add: sound_def memory_ok_def un arg) (simp add: s')
  moreover have "task_ok j (es @ [Received fd r gone]) s'" if j: "j < length (tasks s)" for j
  proof (cases "j = i")
    case True
    then show ?thesis using ok [OF j] i mine open' thread_step_kernel [OF t']
      by (auto simp: task_ok_def s' assigned_snoc Let_def split: prod.splits)
  next
    case False
    have "\<not> assigned j fd es" using assigned_unique [OF mine, of j] False by auto
    then show ?thesis using ok [OF j] False
      by (auto simp: task_ok_def s' assigned_snoc conversation_snoc Let_def split: prod.splits option.splits)
  qed
  ultimately show "sound (es @ [Received fd r gone]) s'" using sound by (simp add: sound_def s')
  show "thread_step (thread ?t) r = Inr (thread (tasks s' ! i))" using t' i(1) by (simp add: s')
  show "j \<noteq> i \<Longrightarrow> thread (tasks s' ! j) = thread (tasks s ! j)" "length (tasks s') = length (tasks s)"
    by (simp_all add: s')
qed

lemma ftp_run_sound: "ftp_run es p \<Longrightarrow> p = Alive s \<Longrightarrow> sound es s"
proof (induction arbitrary: s rule: ftp_run.induct)
  case (event es p ev p')
  show ?case using event.hyps(2) event.IH event.prems
    by (cases rule: ftp_step.cases) (auto intro: sound_accept sound_started sound_received(1))
qed (auto dest: sound_start)

lemma sound_unstarted:
  assumes "sound es s" and "i < length (tasks s)" and "control_socket (tasks s ! i) = None"
  shows "conversation i es = [] \<and> (\<exists>k. thread (tasks s ! i) = thread_start k)"
  using sound_task [OF assms(1,2)] assms(3) by (auto simp: task_ok_def Let_def split: prod.splits)

text \<open>A relation between the messages of a connection and its thread that the steps of the thread keep.\<close>

locale thread_relation =
  fixes P :: "string option list \<Rightarrow> ftp_thread \<Rightarrow> bool"
  assumes at_start: "P [] (thread_start k)"
    and at_step: "P ms t \<Longrightarrow> waits t \<noteq> Ended \<Longrightarrow> thread_step t r = Inr t' \<Longrightarrow> P (ms @ [r]) t'"
begin

lemma in_every_thread:
  "ftp_run es p \<Longrightarrow> p = Alive s \<Longrightarrow> i < length (tasks s) \<Longrightarrow> P (conversation i es) (thread (tasks s ! i))"
proof (induction arbitrary: s i rule: ftp_run.induct)
  case (event es p ev p')
  have sound: "sound (es @ [ev]) s" using ftp_run_sound [OF ftp_run.event [OF event.hyps]] event.prems by blast
  from event.hyps(2) show ?case
  proof (cases rule: ftp_step.cases)
    case (accepted fd s0 new_sock create_ret k)
    then have "accept_client fd new_sock create_ret k s0 = Inr s" using event.prems by simp
    then have new: "\<exists>t. tasks s = tasks s0 @ [t] \<and> control_socket t = None"
      by (auto simp: accept_client_def split: if_splits option.splits)
    show ?thesis
    proof (cases "i < length (tasks s0)")
      case True
      then show ?thesis using event.IH [of s0 i] accepted new by (auto simp: conversation_snoc nth_append)
    next
      case False
      then have "control_socket (tasks s ! i) = None" using new event.prems by (auto simp: nth_append less_Suc_eq)
      then show ?thesis using sound_unstarted [OF sound event.prems(2)] at_start by auto
    qed
  next
    case (started i' s0)
    then have "thread (tasks s ! i) = thread (tasks s0 ! i)" "length (tasks s) = length (tasks s0)"
      using event.prems by (auto simp: start_task_def Let_def nth_list_update split: option.splits)
    then show ?thesis using event.IH [of s0 i] started event.prems by (simp add: conversation_snoc)
  next
    case (received i' s0 fd r gone)
    then have "ftp_run es (Alive s0)" "serve_task i' fd r gone s0 = Inr s" using event.hyps event.prems by simp_all
    note step = sound_received [OF ftp_run_sound [OF this(1) refl] received(4-6) this(2)]
    have IH: "P (conversation i es) (thread (tasks s0 ! i))" using event.IH [of s0 i] received step(5) event.prems by simp
    show ?thesis
    proof (cases "i = i'")
      case True
      then show ?thesis using at_step [OF IH] step(2,3) received by (simp add: conversation_snoc)
    next
      case False
      then show ?thesis using IH step(4) assigned_unique [OF step(2), of i] received by (auto simp: conversation_snoc)
    qed
  qed
qed (auto simp: ftp_server_start_def split: if_splits)

end

definition resumes :: "string option list \<Rightarrow> ftp_thread \<Rightarrow> bool" where
  "resumes ms t \<longleftrightarrow>
     (\<forall>reads. handle_client (kernel t) (ms @ reads) = run_thread t reads)
     \<and> handle_client (kernel t) ms = (if waits t = Ended then Inr (session t) else Inl Exhausted)"

interpretation resume: thread_relation resumes
proof unfold_locales
  show "resumes [] (thread_start k)" for k by (simp add: resumes_def handle_client_is_thread)
next
  fix ms t r t'
  assume t: "resumes ms t" and "waits t \<noteq> Ended" and step: "thread_step t r = Inr t'"
  then have "handle_client (kernel t) (ms @ r # reads) = run_thread t' reads" for reads by (simp add: resumes_def)
  from this this [of "[]"] show "resumes (ms @ [r]) t'" by (simp add: resumes_def thread_step_kernel [OF step])
qed

text \<open>A run: while a guest is refused, a client logs in and is sent the listing.\<close>

definition ftp_at :: "(nat \<Rightarrow> int option) \<Rightarrow> int set \<Rightarrow> ftp_task list \<Rightarrow> ftp_state" where
  "ftp_at h fds ts = \<lparr>heap = h, open_sockets = fds, tasks = ts\<rparr>"

lemma ftp_at_sel [simp]: "heap (ftp_at h fds ts) = h" "open_sockets (ftp_at h fds ts) = fds" "tasks (ftp_at h fds ts) = ts"
  by (simp_all add: ftp_at_def)

lemma run_accepted:
  assumes "ftp_run es (Alive (ftp_at h fds ts))" and "fd \<notin> fds" "fd \<noteq> - 1" and "h a = None"
    and "es' = es @ [Accepted fd (Some a) 0 k]"
    and "h' = h(a := Some fd)" and "fds' = insert fd fds" and "ts' = ts @ [\<lparr>argument = a, control_socket = None, thread = thread_start k\<rparr>]"
  shows "ftp_run es' (Alive (ftp_at h' fds' ts'))"
proof -
  have "accept_client fd (Some a) 0 k (ftp_at h fds ts) = Inr (ftp_at h' fds' ts')"
    using assms(3-8) by (simp add: accept_client_def ftp_at_def)
  then show ?thesis
    unfolding assms(5)
    using ftp_run.event [OF assms(1) ftp_step.accepted [of fd _ "Some a" 0 k]] assms(2,4) by (simp add: outcome_def)
qed

lemma run_started:
  assumes "ftp_run es (Alive (ftp_at h fds ts))" and "i < length ts" "control_socket (ts ! i) = None"
    and "h (argument (ts ! i)) = Some fd" and "es' = es @ [Started i]"
    and "h' = h(argument (ts ! i) := None)" and "ts' = ts[i := (ts ! i)\<lparr>control_socket := Some fd\<rparr>]"
  shows "ftp_run es' (Alive (ftp_at h' fds ts'))"
proof -
  have "start_task i (ftp_at h fds ts) = Inr (ftp_at h' fds ts')"
    using assms(4-7) by (simp add: start_task_def ftp_at_def Let_def)
  then show ?thesis
    unfolding assms(5)
    using ftp_run.event [OF assms(1) ftp_step.started [of i]] assms(2,3) by (simp add: outcome_def)
qed

lemma run_received:
  assumes "ftp_run es (Alive (ftp_at h fds ts))" and "i < length ts" "control_socket (ts ! i) = Some fd"
    and "waits (thread (ts ! i)) \<noteq> Ended" and "command_of r = Inr cmd"
    and "command_step (thread (ts ! i)) cmd = Inr t" and "es' = es @ [Received fd r False]"
    and "fds' = (if control_open (session t) then fds else fds - {fd})" and "ts' = ts[i := (ts ! i)\<lparr>thread := t\<rparr>]"
  shows "ftp_run es' (Alive (ftp_at h fds' ts'))"
proof -
  have "serve_task i fd r False (ftp_at h fds ts) = Inr (ftp_at h fds' ts')"
    using assms(5-9) by (simp add: serve_task_def thread_step_def ftp_at_def)
  then show ?thesis
    unfolding assms(7)
    using ftp_run.event [OF assms(1) ftp_step.received [of i _ fd r False]] assms(2-4) by (simp add: outcome_def)
qed

lemma command_of_short: "length msg < 1024 \<Longrightarrow> command_of (Some msg) = Inr (c_str msg)"
  using next_command_lemma [of msg "[]"] by (auto simp: rbind_eq_Inr)

lemma run_begun: "ftp_run [] (Alive (ftp_at (\<lambda>_. None) {3} []))"
  by (rule ftp_run.begun [of 3 0 0]) (simp add: ftp_server_start_def ftp_at_def)

definition demo_start :: "ftp_event list" where
  "demo_start = [Accepted 4 (Some 100) 0 demo_ftp, Accepted 5 (Some 200) 0 demo_ftp, Started 1, Started 0]"

definition demo_guest :: "ftp_event list" where
  "demo_guest = demo_start @
     [Received 5 (Some ''ftpClient'') False, Received 4 (Some ''guest'') False, Received 5 (Some ''ftpCLPass'') False]"

definition demo_events :: "ftp_event list" where
  "demo_events = demo_guest @
     [Received 5 (Some (''PORT 127,0,0,1,7,229'' @ [newline])) False, Received 5 (Some ''LIST'') False]"

definition guest_thread :: ftp_thread where
  "guest_thread = \<lparr>kernel = demo_ftp, waits = Ended, session = \<lparr>control_out = [''530 Invalid username.'' @ [newline]],
     data_out = [], control_open = False, data_open = False\<rparr>\<rparr>"

definition user_thread :: "ftp_wait \<Rightarrow> string list \<Rightarrow> bool \<Rightarrow> ftp_thread" where
  "user_thread w out d = \<lparr>kernel = demo_ftp, waits = w,
     session = \<lparr>control_out = out, data_out = [], control_open = True, data_open = d\<rparr>\<rparr>"

definition served_thread :: ftp_thread where
  "served_thread = \<lparr>kernel = demo_ftp, waits = Ended, session = \<lparr>control_out = [user_ok, login_ok, list_ok],
     data_out = [''a.txt'' @ [newline]], control_open = False, data_open = False\<rparr>\<rparr>"

text \<open>The state of the process with a thread for the guest and one for the client.\<close>

definition demo_state :: "int set \<Rightarrow> ftp_thread \<Rightarrow> ftp_thread \<Rightarrow> ftp_state" where
  "demo_state fds g u = ftp_at (\<lambda>_. None) fds
     [\<lparr>argument = 100, control_socket = Some 4, thread = g\<rparr>, \<lparr>argument = 200, control_socket = Some 5, thread = u\<rparr>]"

lemma demo_start_run: "ftp_run demo_start (Alive (demo_state {3, 4, 5} (thread_start demo_ftp) (thread_start demo_ftp)))"
proof -
  let ?t = "\<lambda>a c. \<lparr>argument = a, control_socket = c, thread = thread_start demo_ftp\<rparr>"
  have "ftp_run [Accepted 4 (Some 100) 0 demo_ftp] (Alive (ftp_at [100 \<mapsto> 4] {3, 4} [?t 100 None]))"
    by (rule run_accepted [OF run_begun, of 4]) auto
  then have "ftp_run [Accepted 4 (Some 100) 0 demo_ftp, Accepted 5 (Some 200) 0 demo_ftp]
      (Alive (ftp_at [100 \<mapsto> 4, 200 \<mapsto> 5] {3, 4, 5} [?t 100 None, ?t 200 None]))"
    by (rule run_accepted [where fd = 5 and a = 200]) auto
  then have "ftp_run [Accepted 4 (Some 100) 0 demo_ftp, Accepted 5 (Some 200) 0 demo_ftp, Started 1]
      (Alive (ftp_at [100 \<mapsto> 4] {3, 4, 5} [?t 100 None, ?t 200 (Some 5)]))"
    by (rule run_started [where i = 1]) (auto simp: fun_eq_iff)
  then show ?thesis
    unfolding demo_state_def
    by (rule run_started [where i = 0]) (auto simp: fun_eq_iff demo_start_def)
qed

lemma demo_received:
  assumes "ftp_run es (Alive (demo_state fds g u))"
  shows "waits g \<noteq> Ended \<Longrightarrow> command_of r = Inr cmd \<Longrightarrow> command_step g cmd = Inr t \<Longrightarrow>
      fds' = (if control_open (session t) then fds else fds - {4}) \<Longrightarrow> es' = es @ [Received 4 r False] \<Longrightarrow>
      ftp_run es' (Alive (demo_state fds' t u))"
    and "waits u \<noteq> Ended \<Longrightarrow> command_of r = Inr cmd \<Longrightarrow> command_step u cmd = Inr t \<Longrightarrow>
      fds' = (if control_open (session t) then fds else fds - {5}) \<Longrightarrow> es' = es @ [Received 5 r False] \<Longrightarrow>
      ftp_run es' (Alive (demo_state fds' g t))"
  using run_received [OF assms [unfolded demo_state_def], of 0 4 r cmd t] run_received [OF assms [unfolded demo_state_def], of 1 5 r cmd t]
  by (simp_all add: demo_state_def)

lemmas demo_thread_simps = thread_start_def guest_thread_def user_thread_def served_thread_def continue_def
  command_step_def reply_def command_of_short c_str_def starts_with_def

lemma demo_guest_run:
  "ftp_run demo_guest (Alive (demo_state {3, 5} guest_thread (user_thread For_command [user_ok, login_ok] False)))"
proof -
  have "ftp_run (demo_start @ [Received 5 (Some ''ftpClient'') False])
      (Alive (demo_state {3, 4, 5} (thread_start demo_ftp) (user_thread For_password [user_ok] False)))"
    by (rule demo_received(2) [OF demo_start_run, of _ "''ftpClient''"]) (simp_all add: demo_thread_simps)
  then have "ftp_run (demo_start @ [Received 5 (Some ''ftpClient'') False, Received 4 (Some ''guest'') False])
      (Alive (demo_state {3, 5} guest_thread (user_thread For_password [user_ok] False)))"
    by (rule demo_received(1) [of _ _ _ _ _ "''guest''"]) (auto simp: demo_thread_simps)
  then show ?thesis
    unfolding demo_guest_def
    by (rule demo_received(2) [of _ _ _ _ _ "''ftpCLPass''"]) (simp_all add: demo_thread_simps)
qed

lemma demo_ftp_run: "ftp_run demo_events (Alive (demo_state {3} guest_thread served_thread))"
proof -
  have port: "parse_port_command (''PORT 127,0,0,1,7,229'' @ [newline]) = Inr (''127.0.0.1'', 2021)"
    using demo_port [of "[]"] by (simp add: port_text_local)
  have "ftp_run (demo_guest @ [Received 5 (Some (''PORT 127,0,0,1,7,229'' @ [newline])) False])
      (Alive (demo_state {3, 5} guest_thread (user_thread For_list [user_ok, login_ok] True)))"
    by (rule demo_received(2) [OF demo_guest_run, of _ "''PORT 127,0,0,1,7,229'' @ [newline]"])
      (use port in \<open>simp_all add: demo_thread_simps demo_ftp_def\<close>)
  then show ?thesis
    by (rule demo_received(2) [of _ _ _ _ "Some ''LIST''" "''LIST''"])
      (auto simp: demo_thread_simps demo_events_def demo_ftp_def list_directory_def)
qed

text \<open>C6: Every thread serves the connection it was created for, whatever the order in which \<open>main\<close> accepts
  connections, threads start and messages arrive.  \<open>main\<close> hands the socket over in memory of its own: until
  the thread has started, the pointer it was given leads to the socket of its connection, and memory is in
  use for exactly the threads that have not started.  Once started, its copy is that socket, which stays
  open and is not given to another connection until the thread ends.  What it has sent is what
  \<open>handle_client\<close> sends when it is given just the messages that arrived on this socket, and what it will do
  is what \<open>handle_client\<close> does with those and the messages still to come.\<close>

theorem ftp_threads_isolated:
  assumes "ftp_run es (Alive s)" and "i < length (tasks s)"
  shows "length (connections es) = length (tasks s)
    \<and> dom (heap s) = argument ` {t \<in> set (tasks s). control_socket t = None}
    \<and> (case control_socket (tasks s ! i) of
         None \<Rightarrow> heap s (argument (tasks s ! i)) = Some (fst (connections es ! i)) \<and> conversation i es = []
       | Some fd \<Rightarrow> fd = fst (connections es ! i))
    \<and> (if waits (thread (tasks s ! i)) = Ended
       then handle_client (snd (connections es ! i)) (conversation i es) = Inr (session (thread (tasks s ! i)))
       else handle_client (snd (connections es ! i)) (conversation i es) = Inl Exhausted
         \<and> fst (connections es ! i) \<in> open_sockets s \<and> assigned i (fst (connections es ! i)) es)
    \<and> handle_client (snd (connections es ! i)) (conversation i es @ reads) = run_thread (thread (tasks s ! i)) reads"
proof -
  have sound: "sound es s" by (rule ftp_run_sound [OF assms(1) refl])
  then have "dom (heap s) = argument ` {t \<in> set (tasks s). control_socket t = None}"
    by (auto simp: sound_def memory_ok_def unstarted_def in_set_conv_nth image_iff)
  moreover have "length (connections es) = length (tasks s)" using sound by (simp add: sound_def)
  moreover note sound_task [OF sound assms(2)] resume.in_every_thread [OF assms(1) refl assms(2)]
  ultimately show ?thesis
    by (cases "connections es ! i"; cases "control_socket (tasks s ! i)") (simp_all add: resumes_def task_ok_def Let_def)
qed

text \<open>Before the last message of the client, and after it.\<close>

theorem ftp_threads_isolated_witness:
  "ftp_run demo_guest (Alive (demo_state {3, 5} guest_thread (user_thread For_command [user_ok, login_ok] False)))
    \<and> handle_client demo_ftp (conversation 1 demo_guest) = Inl Exhausted
    \<and> handle_client demo_ftp (conversation 1 demo_events) = Inr (session served_thread)"
  using ftp_threads_isolated [OF demo_guest_run, of 1] ftp_threads_isolated [OF demo_ftp_run, of 1] demo_guest_run
  by (simp add: demo_state_def user_thread_def served_thread_def demo_events_def demo_guest_def demo_start_def)

text \<open>How far a thread has come, by the \<open>read\<close> it waits in.\<close>

fun asked :: "ftp_wait \<Rightarrow> string list" where
  "asked For_user = []"
| "asked For_password = [''ftpClient'']"
| "asked For_command = [''ftpClient'', ''ftpCLPass'']"
| "asked For_list = [''ftpClient'', ''ftpCLPass'', ''PORT'']"
| "asked Ended = [''ftpClient'', ''ftpCLPass'', ''PORT'', ''LIST'']"

fun told :: "ftp_wait \<Rightarrow> string list" where
  "told For_user = []"
| "told For_password = [user_ok]"
| "told For_command = [user_ok, login_ok]"
| "told For_list = [user_ok, login_ok]"
| "told Ended = [user_ok, login_ok, list_ok]"

definition progress :: "string list \<Rightarrow> ftp_thread \<Rightarrow> bool" where
  "progress cmds t \<longleftrightarrow>
     (waits t = Ended \<and> data_out (session t) = []) \<or>
     (list_all2 starts_with (asked (waits t)) cmds \<and> control_out (session t) = told (waits t)
      \<and> data_out (session t) = (if waits t = Ended then list_directory (directory (kernel t)) else []))"

lemma progress_command:
  assumes "progress cmds t" and "waits t \<noteq> Ended" and "command_step t cmd = Inr t'"
  shows "progress (cmds @ [cmd]) t'"
proof (cases "waits t")
  case For_command
  then show ?thesis
    using assms by (cases "parse_port_command cmd")
      (auto simp: progress_def command_step_def list_all2_Cons1 Let_def split: if_splits)
qed (use assms in \<open>auto simp: progress_def command_step_def reply_def list_all2_Cons1 Let_def split: if_splits\<close>)

definition progresses :: "string option list \<Rightarrow> ftp_thread \<Rightarrow> bool" where
  "progresses ms t \<longleftrightarrow> (\<exists>cmds. map command_of ms = map Inr cmds \<and> progress cmds t)"

interpretation progress: thread_relation progresses
proof unfold_locales
  show "progresses [] (thread_start k)" for k by (simp add: progresses_def progress_def thread_start_def)
next
  fix ms t r t'
  assume "progresses ms t" and t: "waits t \<noteq> Ended" and step: "thread_step t r = Inr t'"
  then obtain cmds cmd where "map command_of ms = map Inr cmds" "progress cmds t" "command_of r = Inr cmd"
      "command_step t cmd = Inr t'"
    by (auto simp: progresses_def thread_step_def rbind_eq_Inr)
  then have "map command_of (ms @ [r]) = map Inr (cmds @ [cmd]) \<and> progress (cmds @ [cmd]) t'"
    using progress_command [OF _ t] by simp
  then show "progresses (ms @ [r]) t'" unfolding progresses_def by blast
qed

text \<open>C11: However the threads interleave, a thread sends a listing only if its own client has sent it exactly
  four messages, which start with the user name, the password, \<open>PORT\<close> and \<open>LIST\<close>, and has been told so each
  time; what it sends is the listing of the directory.  The log-in of another client does not help.\<close>

theorem ftp_listing_needs_own_login:
  assumes "ftp_run es (Alive s)" and "i < length (tasks s)" and "t = thread (tasks s ! i)" and "data_out (session t) \<noteq> []"
  shows "\<exists>u p c l. map command_of (conversation i es) = [Inr u, Inr p, Inr c, Inr l]
    \<and> starts_with ''ftpClient'' u \<and> starts_with ''ftpCLPass'' p \<and> starts_with ''PORT'' c \<and> starts_with ''LIST'' l
    \<and> control_out (session t) = [user_ok, login_ok, list_ok]
    \<and> data_out (session t) = list_directory (directory (kernel t))"
proof -
  obtain cmds where cmds: "map command_of (conversation i es) = map Inr cmds" and "progress cmds t"
    using progress.in_every_thread [OF assms(1) refl assms(2)] unfolding progresses_def assms(3) by blast
  then have "waits t = Ended" "list_all2 starts_with (asked Ended) cmds" "control_out (session t) = told Ended"
      "data_out (session t) = list_directory (directory (kernel t))"
    using assms(4) by (auto simp: progress_def split: if_splits)
  then show ?thesis using cmds by (auto simp: list_all2_Cons1)
qed

theorem ftp_listing_needs_own_login_witness:
  "ftp_run demo_events (Alive (demo_state {3} guest_thread served_thread)) \<and> data_out (session served_thread) \<noteq> []
    \<and> (\<exists>u p c l. map command_of (conversation 1 demo_events) = [Inr u, Inr p, Inr c, Inr l] \<and> starts_with ''ftpCLPass'' p)"
  using ftp_listing_needs_own_login [OF demo_ftp_run, of 1] demo_ftp_run by (auto simp: demo_state_def served_thread_def)


section \<open>The end of the process\<close>

text \<open>What ends a session, and the process with it.  The message fills the buffer, so that printing it runs
  past the end; a \<open>PORT\<close> command is without six numbers, or with numbers that the program cannot compute
  with; the client is gone when it is sent an answer, which is sent at once to every message but the third.\<close>

definition fills_buffer :: "string option \<Rightarrow> bool" where
  "fills_buffer r \<longleftrightarrow> (\<exists>msg. r = Some msg \<and> 1024 \<le> length msg \<and> NUL \<notin> set msg)"

definition port_fails :: "string \<Rightarrow> c_error \<Rightarrow> bool" where
  "port_fails cmd e \<longleftrightarrow>
    (case scan_ints 6 (drop 4 cmd) of
       Inr None \<Rightarrow> e = Exit_failure
     | Inr (Some vs) \<Rightarrow> e = Overflow \<and> \<not> (fits 32 (vs ! 4 * 256) \<and> fits 32 (vs ! 4 * 256 + vs ! 5))
     | Inl _ \<Rightarrow> e = Overflow)"

definition session_fails :: "nat \<Rightarrow> string option \<Rightarrow> bool \<Rightarrow> c_error \<Rightarrow> bool" where
  "session_fails n r gone e \<longleftrightarrow>
    (let cmd = c_str (case r of None \<Rightarrow> [] | Some msg \<Rightarrow> msg)
     in if fills_buffer r then e = Out_of_bounds
        else if n = 2 then starts_with ''PORT'' cmd \<and> port_fails cmd e
        else gone \<and> e = Broken_pipe)"

lemma command_of_eq:
  "command_of r = (if fills_buffer r then Inl Out_of_bounds else Inr (c_str (case r of None \<Rightarrow> [] | Some msg \<Rightarrow> msg)))"
proof -
  have c_str: "c_str (msg @ replicate k NUL) = c_str msg" for msg k
    by (induction msg) (simp_all add: c_str_def)
  show ?thesis
  proof (cases r)
    case None
    then show ?thesis using c_str [of "[]" 1024]
      by (simp add: command_of_def c_string_of_def splice_def fills_buffer_def)
  next
    case (Some msg)
    then show ?thesis
      using c_str [of msg "1024 - length msg"]
      by (auto simp: command_of_def c_string_of_def splice_def fills_buffer_def)
  qed
qed

lemma length_scan_ints: "scan_ints n inp = Inr (Some vs) \<Longrightarrow> length vs = n"
proof (induction n arbitrary: inp vs)
  case (Suc n)
  then show ?case
    by (auto simp: rbind_eq_Inr Let_def split: prod.splits option.splits list.splits if_splits)
qed simp

lemma scan_ints_overflow: "scan_ints n inp = Inl e \<Longrightarrow> e = Overflow"
proof (induction n arbitrary: inp e)
  case (Suc n)
  then show ?case
    by (auto simp: rbind_eq_Inl checked_def Let_def neq_Nil_conv split: prod.splits option.splits list.splits if_splits)
qed simp

lemma parse_port_command_fails:
  assumes "starts_with ''PORT'' cmd"
  shows "parse_port_command cmd = Inl e \<longleftrightarrow> port_fails cmd e"
proof (cases "scan_ints 6 (drop 4 cmd)")
  case (Inl e')
  then show ?thesis using scan_ints_overflow [OF Inl] assms by (auto simp: parse_port_command_def port_fails_def)
next
  case (Inr r)
  show ?thesis
  proof (cases r)
    case (Some vs)
    then have "length vs = 6" using Inr length_scan_ints by blast
    then obtain a b c d p q where "vs = [a, b, c, d, p, q]" by (auto simp: length_Suc_conv eval_nat_numeral)
    then show ?thesis using Inr Some assms by (auto simp: parse_port_command_def port_fails_def checked_def)
  qed (use Inr assms in \<open>auto simp: parse_port_command_def port_fails_def\<close>)
qed

definition at_message :: "string option list \<Rightarrow> ftp_thread \<Rightarrow> bool" where
  "at_message ms t \<longleftrightarrow> waits t = Ended \<or> length ms < 4 \<and> waits t = [For_user, For_password, For_command, For_list] ! length ms"

lemma at_message_cases:
  assumes "at_message ms t" and "waits t \<noteq> Ended"
  obtains "length ms = 0" "waits t = For_user" | "length ms = 1" "waits t = For_password"
    | "length ms = 2" "waits t = For_command" | "length ms = 3" "waits t = For_list"
  using assms by (auto simp: at_message_def less_Suc_eq numeral_eq_Suc)

interpretation at_message: thread_relation at_message
proof unfold_locales
  show "at_message [] (thread_start k)" for k by (simp add: at_message_def)
next
  fix ms t r t'
  assume "at_message ms t" "waits t \<noteq> Ended" "thread_step t r = Inr t'"
  moreover from this obtain cmd where "command_step t cmd = Inr t'" by (auto simp: thread_step_def rbind_eq_Inr)
  ultimately show "at_message (ms @ [r]) t'"
    by (cases rule: at_message_cases)
      (auto simp: at_message_def command_step_def rbind_eq_Inr Let_def nth_append split: if_splits)
qed

lemma thread_step_fails:
  assumes "at_message ms t" and "waits t \<noteq> Ended"
  shows "(\<exists>t'. thread_step t r = Inr t' \<and> gone \<and> writes t t' \<and> e = Broken_pipe) \<or> thread_step t r = Inl e
    \<longleftrightarrow> session_fails (length ms) r gone e"
proof (cases "fills_buffer r")
  case False
  show ?thesis
    using assms
  proof (cases rule: at_message_cases)
    case 3
    let ?cmd = "c_str (case r of None \<Rightarrow> [] | Some msg \<Rightarrow> msg)"
    show ?thesis
      using 3 False parse_port_command_fails [of ?cmd e]
      by (cases "parse_port_command ?cmd")
        (auto simp: session_fails_def thread_step_def command_of_eq command_step_def writes_def Let_def)
  qed (use False in \<open>simp_all add: session_fails_def thread_step_def command_of_eq command_step_def reply_def writes_def Let_def\<close>)
qed (auto simp: session_fails_def thread_step_def command_of_eq)

lemma serve_task_fails:
  assumes "at_message ms (thread (tasks s ! i))" and "waits (thread (tasks s ! i)) \<noteq> Ended"
  shows "serve_task i fd r gone s = Inl e \<longleftrightarrow> session_fails (length ms) r gone e"
  unfolding thread_step_fails [OF assms, symmetric] by (auto simp: serve_task_def rbind_eq_Inl)

text \<open>C28: What ends the process, and with it the sessions of all clients, in any interleaving: \<open>main\<close>, if
  \<open>accept\<close> fails, or (the behaviour being undefined) if \<open>malloc\<close> fails or no thread is created; a thread,
  if the message that arrives on its socket, by its place in the conversation of this client, is one
  that its session fails at, or if the client is gone when it is answered (\<open>SIGPIPE\<close>).  Nothing else ends
  it, and in particular not the start of a thread.\<close>

theorem ftp_process_ends:
  assumes "ftp_run es (Alive s)" and "ftp_step (Alive s) ev p"
  shows "p = Dead e \<longleftrightarrow>
    (case ev of
       Accepted fd new_sock create_ret k \<Rightarrow>
         if fd = - 1 then e = Exit_failure
         else if new_sock = None then e = Null_pointer
         else create_ret \<noteq> 0 \<and> e = Uninitialised
     | Started i \<Rightarrow> False
     | Received fd r gone \<Rightarrow> \<exists>i. assigned i fd es \<and> session_fails (length (conversation i es)) r gone e)"
proof -
  have sound: "sound es s" by (rule ftp_run_sound [OF assms(1) refl])
  have "ftp_step q ev p \<Longrightarrow> q = Alive s \<Longrightarrow> ?thesis" for q
  proof (induction rule: ftp_step.induct)
    case (accepted fd s' new_sock create_ret k)
    then show ?case by (auto simp: accept_client_def split: option.splits)
  next
    case (started i s')
    then have "heap s (argument (tasks s ! i)) \<noteq> None"
      using sound_task [OF sound, of i] by (auto simp: task_ok_def Let_def split: prod.splits)
    then show ?case using started by (auto simp: start_task_def Let_def)
  next
    case (received i s' fd r gone)
    then have mine: "assigned i fd es"
      using sound_task [OF sound, of i] by (auto simp: task_ok_def Let_def split: prod.splits)
    have "at_message (conversation i es) (thread (tasks s ! i))"
      by (rule at_message.in_every_thread [OF assms(1) refl]) (use received in simp)
    from serve_task_fails [OF this] received
    have "outcome (serve_task i fd r gone s') = Dead e \<longleftrightarrow> session_fails (length (conversation i es)) r gone e" by simp
    moreover have "(\<exists>j. assigned j fd es \<and> Q j) \<longleftrightarrow> Q i" for Q using mine assigned_unique [OF mine] by metis
    ultimately show ?case by simp
  qed
  then show ?thesis using assms(2) by blast
qed

text \<open>A client that has logged in sends a \<open>PORT\<close> command without six numbers.\<close>

theorem ftp_process_ends_witness:
  "\<exists>p. ftp_step (Alive (demo_state {3, 5} guest_thread (user_thread For_command [user_ok, login_ok] False)))
         (Received 5 (Some ''PORT'') False) p \<and> p = Dead Exit_failure"
proof -
  let ?s = "demo_state {3, 5} guest_thread (user_thread For_command [user_ok, login_ok] False)"
  have six: "scan_ints 6 [] = Inr None" using scan_ints.simps(2) [of 5 "[]"] by (simp add: scan_int_def)
  have step: "ftp_step (Alive ?s) (Received 5 (Some ''PORT'') False) (outcome (serve_task 1 5 (Some ''PORT'') False ?s))"
    by (rule ftp_step.received) (simp_all add: demo_state_def user_thread_def)
  have "assigned 1 5 demo_guest" "length (conversation 1 demo_guest) = 2"
    by (simp_all add: assigned_def demo_guest_def demo_start_def)
  moreover have "session_fails 2 (Some ''PORT'') False Exit_failure"
    using six by (simp add: session_fails_def fills_buffer_def port_fails_def c_str_def starts_with_def)
  ultimately have "outcome (serve_task 1 5 (Some ''PORT'') False ?s) = Dead Exit_failure"
    using ftp_process_ends [OF demo_guest_run step, of Exit_failure] by (auto simp del: outcome_Dead)
  then show ?thesis using step by metis
qed

end
