(* ===== verification/Ftp_Session.thy ===== *)
theory Ftp_Session
  imports Ftp_Threads
begin

text \<open>
  A session of \<^verbatim>\<open>FTP/ftp_simple_client.c\<close> with one thread of \<^verbatim>\<open>FTP/ftp_simple_server.c\<close>, among any other threads
  and in any order of their steps.
\<close>

section \<open>The stages of a session\<close>

definition waiting_at :: "nat \<Rightarrow> ftp_wait" where
  "waiting_at n = [For_user, For_password, For_command, For_list, Ended] ! n"

definition stage :: "ftp_kernel \<Rightarrow> nat \<Rightarrow> ftp_thread" where
  "stage k n = \<lparr>kernel = k, waits = waiting_at n,
     session = \<lparr>control_out = told (waiting_at n), data_out = (if n = 4 then list_directory (directory k) else []),
       control_open = n < 4, data_open = (n = 3)\<rparr>\<rparr>"

lemma commands_of_client:
  "command_of (Some (client_messages ! 0)) = Inr (''ftpClient'' @ [newline])"
  "command_of (Some (client_messages ! 1)) = Inr (''ftpCLPass'' @ [newline])"
  "command_of (Some (client_messages ! 2)) = Inr (''PORT '' @ port_text [127, 0, 0, 1, 7, 229] @ [newline])"
  "command_of (Some (client_messages ! 3)) = Inr (''LIST'' @ [newline])"
  by (simp_all add: client_messages_def port_text_local command_of_short c_str_def)

lemmas stage_simps = stage_def waiting_at_def command_step_def continue_def reply_def Let_def

lemma stage_step:
  assumes "0 \<le> data_socket k" and "0 \<le> data_connect k" and "n < 4"
  shows "thread_step (stage k n) (Some (client_messages ! n)) = Inr (stage k (Suc n))"
proof -
  have port: "parse_port_command (''PORT '' @ port_text [127, 0, 0, 1, 7, 229] @ [newline]) = Inr (''127.0.0.1'', 2021)"
    by (rule demo_port)
  consider "n = 0" | "n = 1" | "n = 2" | "n = 3" using assms(3) by linarith
  then show ?thesis
  proof cases
    case 1
    then show ?thesis using commands_of_client(1) by (simp add: thread_step_def stage_simps starts_with_def)
  next
    case 2
    then show ?thesis using commands_of_client(2) by (simp add: thread_step_def stage_simps starts_with_def)
  next
    case 3
    then show ?thesis using commands_of_client(3) port assms(1,2) by (simp add: thread_step_def stage_simps starts_with_def)
  next
    case 4
    then show ?thesis using commands_of_client(4) by (simp add: thread_step_def stage_simps starts_with_def)
  qed
qed

text \<open>A thread that has been sent the first messages of the client is at the stage after them.\<close>

definition staged :: "string option list \<Rightarrow> ftp_thread \<Rightarrow> bool" where
  "staged ms t \<longleftrightarrow> (\<forall>n \<le> 4. ms = map Some (take n client_messages) \<longrightarrow>
     0 \<le> data_socket (kernel t) \<longrightarrow> 0 \<le> data_connect (kernel t) \<longrightarrow> t = stage (kernel t) n)"

lemma length_client_messages: "length client_messages = 4"
  by (simp add: client_messages_def)

interpretation stages: thread_relation staged
proof unfold_locales
  fix k
  have "n = 0" if "[] = map Some (take n client_messages)" "n \<le> 4" for n
    using that length_client_messages by auto
  moreover have "thread_start k = stage (kernel (thread_start k)) 0"
    by (simp add: thread_start_def stage_def waiting_at_def)
  ultimately show "staged [] (thread_start k)" unfolding staged_def by blast
next
  fix ms t r t'
  assume t: "staged ms t" and step: "thread_step t r = Inr t'"
  show "staged (ms @ [r]) t'"
    unfolding staged_def
  proof (intro allI impI)
    fix n
    assume n: "n \<le> 4" and ms: "ms @ [r] = map Some (take n client_messages)"
      and k: "0 \<le> data_socket (kernel t')" "0 \<le> data_connect (kernel t')"
    from ms obtain m where m: "n = Suc m" by (cases n) auto
    then have "m < 4" and split: "take n client_messages = take m client_messages @ [client_messages ! m]"
      using n length_client_messages by (auto simp: take_Suc_conv_app_nth)
    then have "ms = map Some (take m client_messages)" "r = Some (client_messages ! m)" using ms by auto
    moreover from this have "t = stage (kernel t) m"
      using t k \<open>m < 4\<close> unfolding staged_def thread_step_kernel [OF step] by simp
    ultimately show "t' = stage (kernel t') n"
      using step stage_step [of "kernel t" m] k \<open>m < 4\<close> unfolding m thread_step_kernel [OF step] by simp
  qed
qed

section \<open>The result\<close>

text \<open>C20: Client and server agree on the session, whatever other clients do: as long as the process lives, the
  thread of the client, once it has read the first \<open>n\<close> of its four messages, each with one \<open>read\<close>, has
  answered those with the replies the client waits for and waits for the next; after the fourth it has
  sent the listing of the directory, its replies are all that the client is waiting for, and both its
  connections are closed.  The client never accepts the data connection: its \<open>read\<close> from the listening
  socket fails, and it shows an empty listing.\<close>

theorem ftp_client_among_threads:
  assumes "ftp_run es (Alive s)" and "i < length (tasks s)" and "t = thread (tasks s ! i)"
    and "0 \<le> data_socket (kernel t)" and "0 \<le> data_connect (kernel t)"
    and "0 \<le> control_ret c" and "0 \<le> connect_ret c" and "listen_rets c = (s1, s2, s3)" and "0 \<le> min s1 (min s2 s3)"
    and "answers c = [Some user_ok, Some login_ok, Some list_ok, None]"
  shows "\<exists>sent printed. ftp_client_main c = Inr (sent, printed) \<and> last printed = ''Received Directory Listing:'' @ [newline]
    \<and> length sent = 4
    \<and> (\<forall>n \<le> 4. conversation i es = map Some (take n sent) \<longrightarrow>
        waits t = [For_user, For_password, For_command, For_list, Ended] ! n
        \<and> session t = \<lparr>control_out = told (waits t),
            data_out = (if n = 4 then list_directory (directory (kernel t)) else []),
            control_open = n < 4, data_open = (n = 3)\<rparr>)
    \<and> answers c = map Some (told Ended) @ [None]"
proof -
  obtain printed where client: "ftp_client_main c = Inr (client_messages, printed)"
      "last printed = ''Received Directory Listing:'' @ [newline]"
    using ftp_client_lemma [OF assms(6-10)] by blast
  have "t = stage (kernel t) n" if "n \<le> 4" "conversation i es = map Some (take n client_messages)" for n
    using stages.in_every_thread [OF assms(1) refl assms(2)] that assms(3-5) unfolding staged_def by blast
  then have "waits t = waiting_at n \<and> session t = \<lparr>control_out = told (waiting_at n),
      data_out = (if n = 4 then list_directory (directory (kernel t)) else []), control_open = n < 4, data_open = (n = 3)\<rparr>"
    if "n \<le> 4" "conversation i es = map Some (take n client_messages)" for n
    using that by (metis stage_def ftp_thread.select_convs(2,3))
  then show ?thesis
    using client assms(10) length_client_messages unfolding waiting_at_def
    by (intro exI [of _ client_messages] exI [of _ printed]) simp
qed

definition demo_after :: "nat \<Rightarrow> ftp_event list" where
  "demo_after n = demo_start @ [Received 4 (Some ''guest'') False]
     @ map (\<lambda>m. Received 5 (Some m) False) (take n client_messages)"

definition stage_fds :: "nat \<Rightarrow> int set" where
  "stage_fds n = (if n < 4 then {3, 5} else {3})"

lemma demo_session_run: "n \<le> 4 \<Longrightarrow> ftp_run (demo_after n) (Alive (demo_state (stage_fds n) guest_thread (stage demo_ftp n)))"
proof (induction n)
  case 0
  have "ftp_run (demo_start @ [Received 4 (Some ''guest'') False]) (Alive (demo_state {3, 5} guest_thread (thread_start demo_ftp)))"
    by (rule demo_received(1) [OF demo_start_run, of _ "''guest''"]) (auto simp: demo_thread_simps)
  then show ?case by (simp add: demo_after_def stage_fds_def stage_def waiting_at_def thread_start_def)
next
  case (Suc n)
  then have n: "n < 4" by simp
  have waits: "waits (stage demo_ftp n) \<noteq> Ended" using n by (auto simp: stage_def waiting_at_def nth_Cons split: nat.splits)
  have "thread_step (stage demo_ftp n) (Some (client_messages ! n)) = Inr (stage demo_ftp (Suc n))"
    using n by (intro stage_step) (simp_all add: demo_ftp_def)
  then obtain cmd where cmd: "command_of (Some (client_messages ! n)) = Inr cmd"
      "command_step (stage demo_ftp n) cmd = Inr (stage demo_ftp (Suc n))"
    by (auto simp: thread_step_def rbind_eq_Inr)
  have run: "ftp_run (demo_after n) (Alive (demo_state (stage_fds n) guest_thread (stage demo_ftp n)))"
    using Suc.IH n by simp
  show ?case
    by (rule demo_received(2) [OF run waits cmd])
      (use n length_client_messages in \<open>auto simp: stage_fds_def stage_def demo_after_def take_Suc_conv_app_nth\<close>)
qed

theorem ftp_client_among_threads_witness:
  "ftp_run (demo_after 4) (Alive (demo_state {3} guest_thread (stage demo_ftp 4)))
    \<and> (\<exists>printed. ftp_client_main demo_client = Inr (client_messages, printed))
    \<and> control_out (session (stage demo_ftp 4)) = [user_ok, login_ok, list_ok]
    \<and> data_out (session (stage demo_ftp 4)) = [''a.txt'' @ [newline]]"
proof -
  have run: "ftp_run (demo_after 4) (Alive (demo_state {3} guest_thread (stage demo_ftp 4)))"
    using demo_session_run [of 4] by (simp add: stage_fds_def)
  have messages: "conversation 1 (demo_after 4) = map Some (take 4 client_messages)"
    by (simp add: demo_after_def demo_start_def client_messages_def)
  obtain sent printed where sent: "ftp_client_main demo_client = Inr (sent, printed)"
    and ends: "conversation 1 (demo_after 4) = map Some (take 4 sent) \<Longrightarrow>
      session (stage demo_ftp 4) = \<lparr>control_out = told (waits (stage demo_ftp 4)), data_out = list_directory (directory demo_ftp),
        control_open = False, data_open = False\<rparr>"
    using ftp_client_among_threads [OF run, of 1 "stage demo_ftp 4" demo_client 4 0 0]
    by (auto simp: demo_client_def stage_def demo_ftp_def demo_state_def)
  have "sent = client_messages"
    using sent ftp_client_lemma [of demo_client 4 0 0] by (auto simp: demo_client_def)
  with ends messages have "session (stage demo_ftp 4) = \<lparr>control_out = told (waits (stage demo_ftp 4)),
      data_out = list_directory (directory demo_ftp), control_open = False, data_open = False\<rparr>"
    by simp
  then show ?thesis using run sent \<open>sent = client_messages\<close>
    by (simp add: stage_def waiting_at_def demo_ftp_def list_directory_def)
qed

end
