(* ===== verification/Info_Server.thy ===== *)
theory Info_Server
  imports Epoll Server_Loop Stream_Client
begin

text \<open>
  \<^verbatim>\<open>system-info/info-server.c\<close> and its client \<^verbatim>\<open>info-client.c\<close>: every iteration the server composes a
  report on the machine and stores it for each of at most ten clients; every five seconds it sends the
  stored reports.  What \<open>uname\<close>, \<open>sysinfo\<close> and the command run by \<open>popen\<close> deliver are arguments.

  The results: the report is the composed text cut to the buffer; who is sent what and when; the
  table of clients over any run, in which no slot is ever freed; and what a client prints.
\<close>

section \<open>The report\<close>

record uts =
  sysname :: string
  nodename :: string
  release :: string

record sysinfo =
  uptime :: int
  totalram :: nat
  freeram :: nat

text \<open>\<open>strncat(log_data, s, buffer_size - strlen(log_data) - 1)\<close>.\<close>

definition log_append :: "nat \<Rightarrow> string \<Rightarrow> string \<Rightarrow> string" where
  "log_append buffer_size s log = log @ take (buffer_size - length log - 1) s"

text \<open>The output of the command, in the pieces that \<open>fgets\<close> delivers into 256 characters.\<close>

function ps_lines :: "string \<Rightarrow> string list" where
  "ps_lines out =
    (case fgets 256 out of
       None \<Rightarrow> []
     | Some (l, rest) \<Rightarrow> c_str l # ps_lines rest)"
  by pat_completeness auto
termination
  by (relation "measure length") (auto dest: fgets_decreases)

declare ps_lines.simps [simp del]

text \<open>\<open>None\<close> is a command that cannot be started.  The first line is skipped.\<close>

definition get_top_cpu_processes :: "string option \<Rightarrow> nat \<Rightarrow> string \<Rightarrow> string" where
  "get_top_cpu_processes ps_out buffer_size log =
    (case ps_out of
       None \<Rightarrow> log
     | Some out \<Rightarrow> fold (log_append buffer_size) (tl (ps_lines out))
         (log_append buffer_size ([newline] @ ''Top 5 CPU Consuming Processes:'' @ [newline]) log))"

definition compose_log :: "uts \<Rightarrow> sysinfo \<Rightarrow> string option \<Rightarrow> string" where
  "compose_log uts_info sys_info ps_out =
    (let log = take 1023 (''System Name: '' @ sysname uts_info @ [newline]);
         log = log_append 1024 ''Node Name: '' log;
         log = log_append 1024 (nodename uts_info) log;
         log = log_append 1024 ([newline] @ ''Release: '') log;
         log = log_append 1024 (release uts_info) log;
         log = log_append 1024 [newline] log;
         log = log_append 1024 (take 63 (''Uptime: '' @ print_int (uptime sys_info) @ '' seconds'' @ [newline])) log;
         log = log_append 1024 (take 63 (''Total RAM: '' @ print_nat (totalram sys_info div (1024 * 1024)) @ '' MB'' @ [newline])) log;
         log = log_append 1024 (take 63 (''Free RAM: '' @ print_nat (freeram sys_info div (1024 * 1024)) @ '' MB'' @ [newline])) log
     in get_top_cpu_processes ps_out 1024 log)"

section \<open>The clients\<close>

record ClientInfo =
  socket_fd :: int
  outgoing_data :: string
  data_ready :: bool

record info_server = epoll_state +
  clients :: "ClientInfo list"
  last_message_time :: int
  running :: bool

text \<open>The global array starts as zero bytes; \<open>init_clients\<close> leaves the data as it is.\<close>

definition init_clients :: "ClientInfo list" where
  "init_clients = replicate 10 \<lparr>socket_fd = - 1, outgoing_data = [], data_ready = False\<rparr>"

text \<open>The loop returns at the first free slot; without one nothing is stored.\<close>

fun add_client :: "int \<Rightarrow> ClientInfo list \<Rightarrow> ClientInfo list" where
  "add_client new_socket_fd [] = []"
| "add_client new_socket_fd (c # cs) =
    (if socket_fd c = - 1 then c\<lparr>socket_fd := new_socket_fd, data_ready := False\<rparr> # cs
     else c # add_client new_socket_fd cs)"

definition log_system_info :: "uts \<Rightarrow> sysinfo \<Rightarrow> string option \<Rightarrow> ClientInfo list \<Rightarrow> ClientInfo list" where
  "log_system_info uts_info sys_info ps_out cs =
    map (\<lambda>c. if socket_fd c \<noteq> - 1
             then c\<lparr>outgoing_data := compose_log uts_info sys_info ps_out, data_ready := True\<rparr> else c) cs"

text \<open>The second argument is what \<open>send\<close> returns for a descriptor; the message is the one attempted.\<close>

definition send_data_to_client :: "(int \<Rightarrow> int) \<Rightarrow> ClientInfo \<Rightarrow> ClientInfo \<times> (int \<times> string) list" where
  "send_data_to_client send client =
    (if data_ready client
     then (if 0 < send (socket_fd client) then client\<lparr>data_ready := False\<rparr> else client,
           [(socket_fd client, outgoing_data client)])
     else (client, []))"

section \<open>The loop\<close>

definition handle_new_connection :: "accept_result list \<Rightarrow> info_server \<Rightarrow> c_error + info_server" where
  "handle_new_connection rs s = accept_loop (\<lambda>client_fd s. s\<lparr>clients := add_client client_fd (clients s)\<rparr>) rs s"

record info_kernel =
  uname_ret :: int
  uname_info :: uts
  sysinfo_ret :: int
  sysinfo_info :: sysinfo
  ps_output :: "string option"
  epoll_ret :: "int list option"       \<comment> \<open>descriptors with events; \<open>None\<close> for \<open>-1\<close>\<close>
  accepts :: "accept_result list"
  current_time :: int
  send_ret :: "int \<Rightarrow> int"

text \<open>Events of clients are ignored.\<close>

fun handle_events :: "int \<Rightarrow> info_kernel \<Rightarrow> int list \<Rightarrow> info_server \<Rightarrow> c_error + info_server" where
  "handle_events server_fd k [] s = Inr s"
| "handle_events server_fd k (fd # es) s =
    rbind (if fd = server_fd then handle_new_connection (accepts k) s else Inr s) (handle_events server_fd k es)"

definition send_to_all :: "(int \<Rightarrow> int) \<Rightarrow> ClientInfo list \<Rightarrow> ClientInfo list \<times> (int \<times> string) list" where
  "send_to_all send cs =
    (map (\<lambda>c. if socket_fd c \<noteq> - 1 then fst (send_data_to_client send c) else c) cs,
     concat (map (\<lambda>c. if socket_fd c \<noteq> - 1 then snd (send_data_to_client send c) else []) cs))"

text \<open>An iteration; a failure of \<open>uname\<close> or \<open>sysinfo\<close> ends the loop and closes the listening socket.\<close>

definition info_server_step :: "int \<Rightarrow> info_kernel \<Rightarrow> info_server \<Rightarrow> c_error + info_server \<times> (int \<times> string) list" where
  "info_server_step server_fd k s =
    (if \<not> running s then Inr (s, [])
     else if uname_ret k = - 1 \<or> sysinfo_ret k = - 1
     then Inr (s\<lparr>running := False, open_fds := open_fds s - {server_fd}\<rparr>, [])
     else
       let s = s\<lparr>clients := log_system_info (uname_info k) (sysinfo_info k) (ps_output k) (clients s)\<rparr>
       in case epoll_ret k of
            None \<Rightarrow> Inl Exit_failure
          | Some events \<Rightarrow>
              rbind (handle_events server_fd k events s) (\<lambda>s.
                if 5 \<le> current_time k - last_message_time s then
                  (case send_to_all (send_ret k) (clients s) of (cs, out) \<Rightarrow>
                     Inr (s\<lparr>clients := cs, last_message_time := current_time k\<rparr>, out))
                else Inr (s, [])))"

definition info_server_start :: "int \<Rightarrow> int \<Rightarrow> (int \<Rightarrow> int) \<Rightarrow> int \<Rightarrow> int \<Rightarrow> int \<Rightarrow> int \<Rightarrow> int \<Rightarrow> c_error + info_server" where
  "info_server_start server_fd getfl setfl bind_ret listen_ret create_ret ctl_ret start_time =
    (if server_fd = - 1 then Inl Exit_failure
     else if make_socket_non_blocking getfl setfl = - 1 then Inl Exit_failure
     else if bind_ret = - 1 then Inl Exit_failure
     else if listen_ret = - 1 then Inl Exit_failure
     else create_epoll create_ret ctl_ret server_fd
       \<lparr>epoll_set = {}, open_fds = {server_fd}, clients = init_clients, last_message_time = start_time, running = True\<rparr>)"

section \<open>The client program\<close>

text \<open>The loop prints what each \<open>read\<close> delivers (at most 1023 characters) until it fails or delivers
  nothing.\<close>

fun info_client_loop :: "string option list \<Rightarrow> c_error + string list" where
  "info_client_loop [] = Inl Exhausted"
| "info_client_loop (None # reads) = Inr []"
| "info_client_loop (Some msg # reads) =
    (if msg = [] then Inr [''Server closed the connection.'' @ [newline]]
     else rbind (info_client_loop reads) (\<lambda>out. Inr ((''Received: '' @ c_str (take 1023 msg) @ [newline]) # out)))"

definition info_client_main :: "nat \<Rightarrow> int \<Rightarrow> int \<Rightarrow> string option list \<Rightarrow> c_error + string list" where
  "info_client_main argc socket_ret connect_ret reads =
    (if argc < 2 then Inl Exit_failure
     else if socket_ret = - 1 then Inl Exit_failure
     else if connect_ret = - 1 then Inl Exit_failure
     else rbind (info_client_loop reads) (\<lambda>out. Inr (out @ [''Client disconnected.'' @ [newline]])))"

section \<open>The report as one text\<close>

definition report_text :: "uts \<Rightarrow> sysinfo \<Rightarrow> string option \<Rightarrow> string" where
  "report_text u i ps_out =
    ''System Name: '' @ sysname u @ [newline] @ ''Node Name: '' @ nodename u @ [newline] @ ''Release: '' @ release u @ [newline]
    @ take 63 (''Uptime: '' @ print_int (uptime i) @ '' seconds'' @ [newline])
    @ take 63 (''Total RAM: '' @ print_nat (totalram i div (1024 * 1024)) @ '' MB'' @ [newline])
    @ take 63 (''Free RAM: '' @ print_nat (freeram i div (1024 * 1024)) @ '' MB'' @ [newline])
    @ (case ps_out of None \<Rightarrow> []
       | Some out \<Rightarrow> [newline] @ ''Top 5 CPU Consuming Processes:'' @ [newline] @ concat (tl (ps_lines out)))"

lemma log_append_take: "log_append 1024 s (take 1023 t) = take 1023 (t @ s)"
  by (cases "length t \<le> 1023") (simp_all add: log_append_def)

lemma log_append_all: "fold (log_append 1024) ls (take 1023 t) = take 1023 (t @ concat ls)"
  by (induction ls arbitrary: t) (simp_all only: fold_simps log_append_take concat.simps append_Nil2 append_assoc)

lemma compose_log_lemma: "compose_log u i ps_out = take 1023 (report_text u i ps_out)"
proof (cases ps_out)
  case None
  show ?thesis
    unfolding None compose_log_def report_text_def Let_def get_top_cpu_processes_def log_append_take option.case append_assoc append_Nil2 ..
next
  case (Some out)
  show ?thesis
    unfolding Some compose_log_def report_text_def Let_def get_top_cpu_processes_def log_append_take log_append_all option.case append_assoc ..
qed

section \<open>The table of clients\<close>

interpretation info_accept: accept_handler "\<lambda>client_fd s. s\<lparr>clients := add_client client_fd (clients s)\<rparr>"
  by unfold_locales simp_all

lemma clients_admitted [simp]:
  "clients (fold info_accept.admit fds s) = fold add_client fds (clients s)"
  "last_message_time (fold info_accept.admit fds s) = last_message_time s"
  "running (fold info_accept.admit fds s) = running s"
  by (induction fds arbitrary: s) (simp_all add: info_accept.admit_def with_client_def)

text \<open>What is accepted in an iteration: all that waits, if the listening socket has an event.\<close>

definition admitted :: "int \<Rightarrow> info_kernel \<Rightarrow> int list \<Rightarrow> int list" where
  "admitted server_fd k events = (if server_fd \<in> set events then new_clients (accepts k) else [])"

lemma info_events_lemma:
  assumes "handle_events server_fd k es s = Inr s'" and "distinct es"
    and "server_fd \<in> set es \<Longrightarrow> fresh_accepts (accepts k) (open_fds s)"
  shows "s' = fold info_accept.admit (admitted server_fd k es) s"
  using assms
proof (induction es arbitrary: s)
  case (Cons fd es)
  show ?case
  proof (cases "fd = server_fd")
    case True
    then obtain t where "handle_new_connection (accepts k) s = Inr t" "handle_events server_fd k es t = Inr s'"
      using Cons.prems(1) by (auto simp: rbind_eq_Inr)
    moreover from this have "t = fold info_accept.admit (new_clients (accepts k)) s"
      using info_accept.accept_loop_result Cons.prems(3) True by (simp add: handle_new_connection_def)
    moreover have "server_fd \<notin> set es" using True Cons.prems(2) by simp
    ultimately show ?thesis using Cons.IH [of t] Cons.prems(2) True by (simp add: admitted_def)
  qed (use Cons in \<open>auto simp: admitted_def\<close>)
qed (simp add: admitted_def)

definition taken_slots :: "int list \<Rightarrow> int list" where
  "taken_slots fds = take 10 (fds @ replicate 10 (- 1))"

lemma taken_slots_full: "10 \<le> length fds \<Longrightarrow> taken_slots (fds @ new) = taken_slots fds"
  by (simp add: taken_slots_def)

lemma add_client_free:
  "map socket_fd cs = fds @ replicate (Suc n) (- 1) \<Longrightarrow> - 1 \<notin> set fds \<Longrightarrow>
    map socket_fd (add_client fd cs) = fds @ fd # replicate n (- 1)"
  by (induction cs arbitrary: fds) (auto simp: Cons_eq_append_conv)

lemma add_client_full: "- 1 \<notin> set (map socket_fd cs) \<Longrightarrow> add_client fd cs = cs"
  by (induction cs) auto

lemma add_client_taken:
  assumes "map socket_fd cs = taken_slots fds" and "- 1 \<notin> set fds"
  shows "map socket_fd (add_client fd cs) = taken_slots (fds @ [fd])"
proof (cases "length fds < 10")
  case True
  then obtain n where "10 - length fds = Suc n" by (cases "10 - length fds") auto
  then have "taken_slots fds = fds @ replicate (Suc n) (- 1)" "taken_slots (fds @ [fd]) = fds @ fd # replicate n (- 1)"
    using True by (simp_all add: taken_slots_def take_Cons')
  then show ?thesis using add_client_free assms by metis
next
  case False
  then have "taken_slots fds = take 10 fds" "taken_slots (fds @ [fd]) = take 10 fds"
    by (simp_all add: taken_slots_def)
  moreover have "- 1 \<notin> set (take 10 fds)" using assms(2) in_set_takeD by fast
  ultimately show ?thesis using assms(1) add_client_full [of cs fd] by metis
qed

lemma add_clients_taken:
  assumes "map socket_fd cs = taken_slots fds" and "- 1 \<notin> set (fds @ new)"
  shows "map socket_fd (fold add_client new cs) = taken_slots (fds @ new)"
  using assms
proof (induction new arbitrary: cs fds)
  case (Cons fd new)
  then show ?case using add_client_taken [of cs fds fd] Cons.IH [of "add_client fd cs" "fds @ [fd]"] by simp
qed simp

section \<open>An iteration\<close>

definition connected :: "ClientInfo \<Rightarrow> bool" where
  "connected c \<longleftrightarrow> socket_fd c \<noteq> - 1"

text \<open>What must be sent: the report of this iteration, to the clients that were there before it.\<close>

definition broadcast :: "info_kernel \<Rightarrow> info_server \<Rightarrow> (int \<times> string) list" where
  "broadcast k s =
    (if 5 \<le> current_time k - last_message_time s
     then map (\<lambda>c. (socket_fd c, take 1023 (report_text (uname_info k) (sysinfo_info k) (ps_output k))))
            (filter connected (clients s))
     else [])"

text \<open>The clients that ever connected, in order; only the first ten have a slot.\<close>

definition info_holds :: "int \<Rightarrow> int list \<Rightarrow> info_server \<Rightarrow> bool" where
  "info_holds server_fd fds s \<longleftrightarrow> distinct fds \<and> server_fd \<notin> set fds \<and> (\<forall>fd \<in> set fds. 0 \<le> fd)
     \<and> map socket_fd (clients s) = taken_slots fds \<and> epoll_set s = insert server_fd (set fds)
     \<and> open_fds s = (if running s then insert server_fd (set fds) else set fds)"

text \<open>\<open>epoll_wait\<close> names a descriptor once, \<open>accept\<close> returns descriptors that are not in use, and \<open>uname\<close>
  fills its structure with C strings.\<close>

definition info_legal :: "int \<Rightarrow> info_kernel \<Rightarrow> info_server \<Rightarrow> bool" where
  "info_legal server_fd k s \<longleftrightarrow> (case epoll_ret k of None \<Rightarrow> True | Some es \<Rightarrow> distinct es)
     \<and> fresh_accepts (accepts k) (open_fds s)
     \<and> NUL \<notin> set (sysname (uname_info k) @ nodename (uname_info k) @ release (uname_info k))"

lemma log_system_info_fds [simp]: "map socket_fd (log_system_info u i p cs) = map socket_fd cs"
  by (simp add: log_system_info_def comp_def if_distrib cong: if_cong)

lemma send_to_all_fds [simp]: "map socket_fd (fst (send_to_all send cs)) = map socket_fd cs"
  by (simp add: send_to_all_def send_data_to_client_def)

lemma send_to_all_add: "snd (send_to_all send (add_client fd cs)) = snd (send_to_all send cs)"
  by (induction cs) (simp_all add: send_to_all_def send_data_to_client_def)

lemma send_to_all_add_list: "snd (send_to_all send (fold add_client fds cs)) = snd (send_to_all send cs)"
  by (induction fds arbitrary: cs) (simp_all add: send_to_all_add)

lemma send_to_all_logged:
  "snd (send_to_all send (log_system_info u i p cs)) =
    map (\<lambda>c. (socket_fd c, take 1023 (report_text u i p))) (filter connected cs)"
  by (induction cs) (simp_all add: send_to_all_def send_data_to_client_def log_system_info_def connected_def compose_log_lemma)

lemma info_step_lemma:
  assumes inv: "info_holds server_fd fds s" and legal: "info_legal server_fd k s"
    and step: "info_server_step server_fd k s = Inr (s', out)"
  shows "\<exists>new. info_holds server_fd (fds @ new) s'
    \<and> out = (if running s \<and> uname_ret k \<noteq> - 1 \<and> sysinfo_ret k \<noteq> - 1 then broadcast k s else [])"
proof (cases "running s \<and> uname_ret k \<noteq> - 1 \<and> sysinfo_ret k \<noteq> - 1")
  case False
  then have "out = []" "s' = s \<or> s' = s\<lparr>running := False, open_fds := open_fds s - {server_fd}\<rparr> \<and> running s"
    using step by (auto simp: info_server_step_def split: if_splits)
  then have "info_holds server_fd (fds @ []) s'" using inv by (auto simp: info_holds_def)
  then show ?thesis using \<open>out = []\<close> False by metis
next
  case True
  let ?cs = "log_system_info (uname_info k) (sysinfo_info k) (ps_output k) (clients s)"
  let ?t = "s\<lparr>clients := ?cs\<rparr>"
  obtain es u where es: "epoll_ret k = Some es" "handle_events server_fd k es ?t = Inr u"
    and res: "(s', out) = (if 5 \<le> current_time k - last_message_time u
        then (u\<lparr>clients := fst (send_to_all (send_ret k) (clients u)), last_message_time := current_time k\<rparr>,
              snd (send_to_all (send_ret k) (clients u))) else (u, []))"
    using step True by (auto simp: info_server_step_def rbind_eq_Inr case_prod_unfold Let_def split: option.splits if_splits)
  define new where "new = admitted server_fd k es"
  have fresh: "fresh_accepts (accepts k) (open_fds s)" "distinct es" using legal es(1) by (simp_all add: info_legal_def)
  then have u: "u = fold info_accept.admit new ?t" using info_events_lemma [OF es(2)] by (simp add: new_def)
  have new: "distinct new" "\<forall>fd \<in> set new. 0 \<le> fd \<and> fd \<notin> open_fds s"
    using new_clients_fresh [OF fresh(1)] new_clients_distinct [OF fresh(1)] by (auto simp: new_def admitted_def)
  have "- 1 \<notin> set (fds @ new)" using inv new(2) by (auto simp: info_holds_def)
  moreover have "map socket_fd ?cs = taken_slots fds" using inv by (simp add: info_holds_def)
  ultimately have "map socket_fd (clients u) = taken_slots (fds @ new)" using add_clients_taken by (simp add: u)
  then have "map socket_fd (clients s') = taken_slots (fds @ new)"
    using res by (auto split: if_splits)
  moreover have "epoll_set s' = epoll_set s \<union> set new" "open_fds s' = open_fds s \<union> set new" "running s'"
    using res True u by (auto simp: info_accept.admit_sets split: if_splits)
  ultimately have "info_holds server_fd (fds @ new) s'"
    using inv new True by (auto simp: info_holds_def)
  moreover have "out = broadcast k s"
    using res by (auto simp: u broadcast_def send_to_all_add_list send_to_all_logged split: if_splits)
  ultimately show ?thesis using True by auto
qed

section \<open>Runs\<close>

lemma ps_lines_no_NUL: "l \<in> set (ps_lines out) \<Longrightarrow> NUL \<notin> set l"
proof (induction out rule: ps_lines.induct)
  case (1 out)
  show ?case
  proof (cases "fgets 256 out")
    case (Some p)
    then obtain x rest where "fgets 256 out = Some (x, rest)" by (cases p) simp
    then show ?thesis using 1 by (subst (asm) (2) ps_lines.simps) auto
  qed (use 1(2) in \<open>simp add: ps_lines.simps [of out]\<close>)
qed

lemma print_nat_no_NUL: "NUL \<notin> set (print_nat n)"
  using print_nat_digits by auto

lemma report_text_string:
  assumes "NUL \<notin> set (sysname u @ nodename u @ release u)"
  shows "NUL \<notin> set (report_text u i ps_out)" and "take 1023 (report_text u i ps_out) \<noteq> []"
proof -
  have ps: "NUL \<notin> set (concat (tl (ps_lines out)))" for out
    using ps_lines_no_NUL [of _ out] by (cases "ps_lines out") auto
  have cut: "NUL \<notin> set s \<Longrightarrow> NUL \<notin> set (take n s)" for n and s :: string by (auto dest: in_set_takeD)
  show "NUL \<notin> set (report_text u i ps_out)"
    unfolding report_text_def using assms ps
    by (simp add: cut print_int_no_NUL print_nat_no_NUL del: take_append split: option.split)
  show "take 1023 (report_text u i ps_out) \<noteq> []" by (simp add: report_text_def)
qed

definition info_starts :: "int \<Rightarrow> info_server \<Rightarrow> bool" where
  "info_starts server_fd s \<longleftrightarrow> running s \<and> clients s = init_clients \<and> epoll_set s = {server_fd} \<and> open_fds s = {server_fd}"

lemma info_starts_holds: "info_starts server_fd s \<Longrightarrow> info_holds server_fd [] s"
  by (simp add: info_starts_def info_holds_def init_clients_def taken_slots_def)

lemma info_server_start_starts:
  "info_server_start server_fd getfl setfl bind_ret listen_ret create_ret ctl_ret start_time = Inr s
    \<Longrightarrow> info_starts server_fd s"
  by (auto simp: info_server_start_def create_epoll_def info_starts_def split: if_splits)

text \<open>A message: a C string for another descriptor that is not empty and fits the client's buffer.\<close>

definition info_message :: "int \<Rightarrow> int \<times> string \<Rightarrow> bool" where
  "info_message server_fd m \<longleftrightarrow> fst m \<noteq> server_fd \<and> snd m \<noteq> [] \<and> length (snd m) \<le> 1023 \<and> NUL \<notin> set (snd m)"

lemma taken_slot: "fd \<in> set (taken_slots fds) \<Longrightarrow> fd \<noteq> - 1 \<Longrightarrow> fd \<in> set fds"
  by (auto simp: taken_slots_def dest: in_set_takeD split: if_splits)

lemma broadcast_messages:
  assumes "info_holds server_fd fds s" and "info_legal server_fd k s"
  shows "list_all (info_message server_fd) (broadcast k s)"
proof -
  have "socket_fd c \<noteq> server_fd" if "connected c" "c \<in> set (clients s)" for c
  proof -
    have "socket_fd c \<in> set (taken_slots fds)"
      using that(2) assms(1) by (metis info_holds_def image_eqI list.set_map)
    then show ?thesis using that(1) assms(1) taken_slot by (auto simp: info_holds_def connected_def)
  qed
  moreover have "NUL \<notin> set (take 1023 (report_text (uname_info k) (sysinfo_info k) (ps_output k)))"
    using assms(2) report_text_string(1) by (auto simp: info_legal_def dest: in_set_takeD)
  moreover have "take 1023 (report_text (uname_info k) (sysinfo_info k) (ps_output k)) \<noteq> []"
    using assms(2) report_text_string(2) by (simp add: info_legal_def)
  ultimately show ?thesis by (auto simp: broadcast_def list_all_iff info_message_def)
qed

interpretation info: server "info_starts server_fd" "info_server_step server_fd" "info_legal server_fd"
  "\<lambda>s. \<exists>fds. info_holds server_fd fds s" "info_message server_fd" for server_fd :: int
proof unfold_locales
  fix s
  assume "info_starts server_fd s"
  then show "\<exists>fds. info_holds server_fd fds s" using info_starts_holds by blast
next
  fix s k s' out
  assume *: "\<exists>fds. info_holds server_fd fds s" "info_legal server_fd k s" "info_server_step server_fd k s = Inr (s', out)"
  then show "\<exists>fds. info_holds server_fd fds s'" using info_step_lemma by blast
  show "list_all (info_message server_fd) out"
    using * info_step_lemma [of server_fd _ s k s' out] broadcast_messages [of server_fd _ s k] by (auto split: if_splits)
qed

lemma info_run_table:
  assumes "info_holds server_fd fds s" and "server_run (info_server_step server_fd) (info_legal server_fd) s out s'"
  shows "\<exists>new. info_holds server_fd (fds @ new) s'"
proof -
  let ?R = "\<lambda>t u. \<forall>fds. info_holds server_fd fds t \<longrightarrow> (\<exists>new. info_holds server_fd (fds @ new) u)"
  have "?R s s'"
  proof (rule info.run_relation [OF assms(2), of ?R])
    show "?R t v" if "?R t u" "?R u v" for t u v using that by (metis append_assoc)
    show "?R t t" for t by (metis append_Nil2)
    show "?R t u" if "info_legal server_fd k t" "info_server_step server_fd k t = Inr (u, out)" for t k u out
      using that info_step_lemma by blast
  qed (use assms(1) in blast)
  then show ?thesis using assms(1) by blast
qed

interpretation info_client: stream_client info_client_loop 1023 "[''Server closed the connection.'' @ [newline]]"
  by unfold_locales simp_all

section \<open>The results\<close>

text \<open>C16: The table of clients over any run of the server: its ten slots hold the first ten clients that
  ever connected, in that order, and what is in use at one time is in use, unchanged, at every later one.
  No slot is freed when a client goes, so once the table is full no new client is ever served.\<close>

theorem info_table_only_grows:
  assumes "info_server_start server_fd getfl setfl bind_ret listen_ret create_ret ctl_ret start_time = Inr s"
    and "server_run (info_server_step server_fd) (info_legal server_fd) s out t"
    and "server_run (info_server_step server_fd) (info_legal server_fd) t out' u"
  shows "\<exists>fds new. distinct (fds @ new) \<and> map socket_fd (clients t) = taken_slots fds
    \<and> map socket_fd (clients u) = taken_slots (fds @ new) \<and> epoll_set u = insert server_fd (set (fds @ new))
    \<and> (10 \<le> length fds \<longrightarrow> map socket_fd (clients u) = map socket_fd (clients t))"
proof -
  have "info_holds server_fd [] s" using info_server_start_starts [OF assms(1)] by (rule info_starts_holds)
  then obtain fds where "info_holds server_fd fds t" using info_run_table [OF _ assms(2)] by blast
  moreover from this obtain new where "info_holds server_fd (fds @ new) u" using info_run_table [OF _ assms(3)] by blast
  ultimately have "distinct (fds @ new) \<and> map socket_fd (clients t) = taken_slots fds
    \<and> map socket_fd (clients u) = taken_slots (fds @ new) \<and> epoll_set u = insert server_fd (set (fds @ new))"
    by (simp add: info_holds_def)
  moreover have "10 \<le> length fds \<longrightarrow> taken_slots (fds @ new) = taken_slots fds" by (simp add: taken_slots_full)
  ultimately show ?thesis by metis
qed

text \<open>What an iteration sends, in any state of a run: nothing unless five seconds have passed since the
  last time, and then to every client that was in the table before this iteration, in the order of the
  slots, the system report of this iteration, cut to 1023 characters.\<close>

theorem info_broadcasts:
  assumes "info_server_start server_fd getfl setfl bind_ret listen_ret create_ret ctl_ret start_time = Inr s"
    and "server_run (info_server_step server_fd) (info_legal server_fd) s out t" and "info_legal server_fd k t"
    and "info_server_step server_fd k t = Inr (u, sent)"
  shows "sent = (if running t \<and> uname_ret k \<noteq> - 1 \<and> sysinfo_ret k \<noteq> - 1 then broadcast k t else [])"
proof -
  have "info_holds server_fd [] s" using info_server_start_starts [OF assms(1)] by (rule info_starts_holds)
  then obtain fds where "info_holds server_fd fds t" using info_run_table [OF _ assms(2)] by blast
  then show ?thesis using info_step_lemma assms(3,4) by blast
qed

text \<open>C17: Server and client together: a client prints everything that the server sends it in a run, however
  the stream of the reports is cut into pieces of at most 1023 characters, until the connection fails.\<close>

theorem info_client_prints_reports:
  assumes "info_server_start server_fd getfl setfl bind_ret listen_ret create_ret ctl_ret start_time = Inr s"
    and "server_run (info_server_step server_fd) (info_legal server_fd) s out t"
    and "concat chunks = concat (sent_to fd out)"
    and "list_all (\<lambda>c. c \<noteq> [] \<and> length c \<le> 1023) chunks"
    and "2 \<le> argc" and "socket_ret \<noteq> - 1" and "connect_ret \<noteq> - 1"
  shows "info_client_main argc socket_ret connect_ret (map Some chunks @ [None]) =
    Inr (map received chunks @ [''Client disconnected.'' @ [newline]])"
proof -
  have "list_all (info_message server_fd) out"
    using info.run_safe info_server_start_starts assms(1,2) by blast
  then have "list_all (\<lambda>m. NUL \<notin> set m) (sent_to fd out)"
    by (auto simp: list_all_iff info_message_def)
  from info_client.shows_stream(1) [OF assms(3) this assms(4)] show ?thesis
    using assms(5-7) by (simp add: info_client_main_def)
qed

section \<open>A run\<close>

definition demo_uts :: uts where
  "demo_uts = \<lparr>sysname = ''Linux'', nodename = ''host'', release = ''6.1''\<rparr>"

definition demo_sysinfo :: sysinfo where
  "demo_sysinfo = \<lparr>uptime = 90, totalram = 8388608, freeram = 2097152\<rparr>"

text \<open>A client connects after one second; the report is sent after six.\<close>

definition demo_connect :: info_kernel where
  "demo_connect = \<lparr>uname_ret = 0, uname_info = demo_uts, sysinfo_ret = 0, sysinfo_info = demo_sysinfo, ps_output = None,
     epoll_ret = Some [3], accepts = [Accepted 5 2 (\<lambda>_. 0) 0, Would_block], current_time = 1, send_ret = (\<lambda>_. 1)\<rparr>"

definition demo_send :: info_kernel where
  "demo_send = demo_connect\<lparr>epoll_ret := Some [], accepts := [], current_time := 6\<rparr>"

definition demo_state :: "ClientInfo list \<Rightarrow> int set \<Rightarrow> int \<Rightarrow> info_server" where
  "demo_state cs fds t = \<lparr>epoll_set = fds, open_fds = fds, clients = cs, last_message_time = t, running = True\<rparr>"

definition demo_table :: "string \<Rightarrow> ClientInfo list" where
  "demo_table data = \<lparr>socket_fd = 5, outgoing_data = data, data_ready = False\<rparr> # tl init_clients"

definition demo_report :: string where
  "demo_report = ''System Name: Linux'' @ [newline] @ ''Node Name: host'' @ [newline] @ ''Release: 6.1'' @ [newline]
    @ ''Uptime: 90 seconds'' @ [newline] @ ''Total RAM: 8 MB'' @ [newline] @ ''Free RAM: 2 MB'' @ [newline]"

lemma demo_report_composed: "compose_log demo_uts demo_sysinfo None = demo_report"
proof -
  have "print_int 90 = ''90''" "print_nat 8 = ''8''" "print_nat 2 = ''2''"
    by (simp_all add: print_int_def print_nat.simps)
  then show ?thesis
    by (simp add: compose_log_lemma report_text_def demo_uts_def demo_sysinfo_def demo_report_def)
qed

lemma demo_start:
  "info_server_start 3 2 (\<lambda>_. 0) 0 0 4 0 0 = Inr (demo_state init_clients {3} 0)"
  by (simp add: info_server_start_def create_epoll_def make_socket_non_blocking_def demo_state_def)

lemma demo_connect_step:
  "info_server_step 3 demo_connect (demo_state init_clients {3} 0) = Inr (demo_state (demo_table []) {3, 5} 0, [])"
proof -
  have "log_system_info demo_uts demo_sysinfo None init_clients = init_clients"
    by (simp add: log_system_info_def init_clients_def)
  then show ?thesis
    by (simp add: info_server_step_def demo_connect_def demo_state_def handle_new_connection_def
        make_socket_non_blocking_def insert_commute demo_table_def init_clients_def eval_nat_numeral)
qed

lemma demo_send_step:
  "info_server_step 3 demo_send (demo_state (demo_table []) {3, 5} 0) =
    Inr (demo_state (demo_table demo_report) {3, 5} 6, [(5, demo_report)])"
proof -
  have "log_system_info demo_uts demo_sysinfo None (demo_table []) =
      \<lparr>socket_fd = 5, outgoing_data = demo_report, data_ready = True\<rparr> # tl init_clients"
    by (simp add: log_system_info_def demo_table_def init_clients_def demo_report_composed)
  then show ?thesis
    by (simp add: info_server_step_def demo_send_def demo_connect_def demo_state_def demo_table_def init_clients_def
        send_to_all_def send_data_to_client_def)
qed

lemma demo_legal:
  "info_legal 3 demo_connect (demo_state init_clients {3} 0)" "info_legal 3 demo_send (demo_state (demo_table []) {3, 5} 0)"
  by (simp_all add: info_legal_def demo_connect_def demo_send_def demo_state_def demo_uts_def)

lemma demo_runs:
  "server_run (info_server_step 3) (info_legal 3) (demo_state init_clients {3} 0) [] (demo_state (demo_table []) {3, 5} 0)"
  "server_run (info_server_step 3) (info_legal 3) (demo_state (demo_table []) {3, 5} 0) [(5, demo_report)]
     (demo_state (demo_table demo_report) {3, 5} 6)"
  by (rule server_run_one, rule demo_legal, rule demo_connect_step, rule server_run_one, rule demo_legal, rule demo_send_step)

theorem info_table_only_grows_witness:
  "\<exists>fds new. map socket_fd (demo_table []) = taken_slots fds \<and> map socket_fd (demo_table demo_report) = taken_slots (fds @ new)
    \<and> map socket_fd (demo_table []) = 5 # replicate 9 (- 1)"
  using info_table_only_grows [OF demo_start demo_runs(1) demo_runs(2)]
  by (auto simp: demo_state_def demo_table_def init_clients_def)

theorem info_broadcasts_witness:
  "broadcast demo_send (demo_state (demo_table []) {3, 5} 0) = [(5, demo_report)]"
  using info_broadcasts [OF demo_start demo_runs(1) demo_legal(2) demo_send_step]
  by (simp add: demo_send_def demo_connect_def demo_state_def)

theorem info_client_prints_reports_witness:
  "info_client_main 2 5 0 [Some (take 20 demo_report), Some (drop 20 demo_report), None] =
    Inr [received (take 20 demo_report), received (drop 20 demo_report), ''Client disconnected.'' @ [newline]]"
  using info_client_prints_reports
    [OF demo_start server_run_trans [OF demo_runs(2) demo_runs(1)], of "[take 20 demo_report, drop 20 demo_report]" 5 2 5 0]
  by (simp add: demo_report_def)

end
