(* ===== verification/Info_Pacing.thy ===== *)
theory Info_Pacing
  imports Info_Server
begin

text \<open>
  When the server of \<^verbatim>\<open>system-info/info-server.c\<close> sends, over a run: at which iterations it is due to send
  depends on the times alone, two broadcasts are at least five seconds apart, and each client in the table
  is sent one report at each iteration that is due.
\<close>

section \<open>The schedule\<close>

text \<open>Which of the iterations at the times \<open>ts\<close> send, when the last message was sent at \<open>last_time\<close>.\<close>

fun due :: "int \<Rightarrow> int list \<Rightarrow> bool list" where
  "due last_time [] = []"
| "due last_time (t # ts) = (if 5 \<le> t - last_time then True # due t ts else False # due last_time ts)"

definition broadcast_times :: "info_kernel list \<Rightarrow> (int \<times> string) list list \<Rightarrow> int list" where
  "broadcast_times ks outs = map (\<lambda>(k, out). current_time k) (filter (\<lambda>(k, out). out \<noteq> []) (zip ks outs))"

definition report :: "info_kernel \<Rightarrow> string" where
  "report k = take 1023 (report_text (uname_info k) (sysinfo_info k) (ps_output k))"

lemma accept_loop_time:
  "accept_loop (\<lambda>client_fd s. s\<lparr>clients := add_client client_fd (clients s)\<rparr>) rs (s :: info_server) = Inr s'
    \<Longrightarrow> last_message_time s' = last_message_time s \<and> running s' = running s"
proof (induction rs arbitrary: s)
  case (Cons r rs)
  then show ?case by (cases r) (auto simp: Let_def dest!: Cons.IH split: if_splits)
qed simp

lemma handle_events_time:
  "handle_events server_fd k es s = Inr s' \<Longrightarrow> last_message_time s' = last_message_time s \<and> running s' = running s"
  by (induction es arbitrary: s)
    (auto simp: rbind_eq_Inr handle_new_connection_def dest!: accept_loop_time split: if_splits)

definition works :: "info_kernel \<Rightarrow> bool" where
  "works k \<longleftrightarrow> uname_ret k \<noteq> - 1 \<and> sysinfo_ret k \<noteq> - 1"

lemma step_time:
  assumes step: "info_server_step server_fd k s = Inr (s', out)"
  shows "if running s \<and> works k
    then running s' \<and> (if 5 \<le> current_time k - last_message_time s then last_message_time s' = current_time k
      else last_message_time s' = last_message_time s \<and> out = [])
    else last_message_time s' = last_message_time s \<and> out = []"
proof (cases "running s \<and> works k")
  case True
  let ?cs = "log_system_info (uname_info k) (sysinfo_info k) (ps_output k) (clients s)"
  obtain es u where "handle_events server_fd k es (s\<lparr>clients := ?cs\<rparr>) = Inr u"
    and res: "(s', out) = (if 5 \<le> current_time k - last_message_time u
        then (u\<lparr>clients := fst (send_to_all (send_ret k) (clients u)), last_message_time := current_time k\<rparr>,
              snd (send_to_all (send_ret k) (clients u))) else (u, []))"
    using step True
    by (auto simp: info_server_step_def works_def rbind_eq_Inr case_prod_unfold Let_def split: option.splits if_splits)
  from handle_events_time [OF this(1)] have "last_message_time u = last_message_time s" "running u" using True by simp_all
  then show ?thesis using res True by (simp split: if_splits)
next
  case False
  then have "last_message_time s' = last_message_time s \<and> out = []"
    using step by (auto simp: info_server_step_def works_def split: if_splits)
  then show ?thesis using False by auto
qed

section \<open>One client\<close>

lemma one_report:
  assumes "distinct (filter (\<lambda>x. x \<noteq> - 1) (map socket_fd cs))" and "fd \<noteq> - 1"
  shows "sent_to fd (map (\<lambda>c. (socket_fd c, r)) (filter connected cs)) = (if fd \<in> socket_fd ` set cs then [r] else [])"
  using assms by (induction cs) (auto simp: connected_def)

lemma slots_distinct: "distinct fds \<Longrightarrow> distinct (filter (\<lambda>x. x \<noteq> - 1) (taken_slots fds))"
  by (simp add: taken_slots_def)

lemma slots_stay: "fd \<in> set (taken_slots fds) \<Longrightarrow> fd \<noteq> - 1 \<Longrightarrow> fd \<in> set (taken_slots (fds @ new))"
  by (auto simp: taken_slots_def take_Cons' split: if_splits)

lemma holds_table: "info_holds server_fd fds s \<Longrightarrow> socket_fd ` set (clients s) = set (taken_slots fds)"
  by (metis info_holds_def list.set_map)

lemma broadcast_to:
  assumes "info_holds server_fd fds s" and "fd \<in> set (taken_slots fds)" and "fd \<noteq> - 1"
  shows "sent_to fd (broadcast k s) = (if 5 \<le> current_time k - last_message_time s then [report k] else [])"
  using one_report [of "clients s" fd "report k"] slots_distinct [of fds] holds_table [OF assms(1)] assms
  by (simp add: broadcast_def report_def info_holds_def)

lemma reports_scheduled:
  assumes "info_holds server_fd fds s" and "fd \<in> set (taken_slots fds)" and "fd \<noteq> - 1" and "running s"
    and "legal_steps (info_server_step server_fd) (info_legal server_fd) ks s"
    and "run_steps (info_server_step server_fd) ks s = Inr (s', outs)"
    and "list_all works ks"
  shows "map (sent_to fd) outs =
    map2 (\<lambda>d k. if d then [report k] else []) (due (last_message_time s) (map current_time ks)) ks"
  using assms
proof (induction ks arbitrary: s fds outs)
  case (Cons k ks)
  obtain s1 out outs' where step: "info_server_step server_fd k s = Inr (s1, out)"
    and rest: "run_steps (info_server_step server_fd) ks s1 = Inr (s', outs')" and outs: "outs = out # outs'"
    using Cons.prems(6) unfolding run_steps_Cons by blast
  have legal: "info_legal server_fd k s" "legal_steps (info_server_step server_fd) (info_legal server_fd) ks s1"
    using Cons.prems(5) step by simp_all
  have ok: "works k" "list_all works ks" using Cons.prems(7) by simp_all
  obtain new where holds: "info_holds server_fd (fds @ new) s1" and out: "out = broadcast k s"
    using info_step_lemma [OF Cons.prems(1) legal(1) step] Cons.prems(4) ok(1) by (auto simp: works_def)
  have "running s1" and time: "last_message_time s1 =
      (if 5 \<le> current_time k - last_message_time s then current_time k else last_message_time s)"
    using step_time [OF step] Cons.prems(4) ok(1) by (simp_all split: if_splits)
  then have "map (sent_to fd) outs' =
      map2 (\<lambda>d k. if d then [report k] else []) (due (last_message_time s1) (map current_time ks)) ks"
    using Cons.IH [OF holds slots_stay [OF Cons.prems(2,3)] Cons.prems(3) _ legal(2) rest ok(2)] by simp
  then show ?case
    using broadcast_to [OF Cons.prems(1-3), of k] time by (simp add: outs out)
qed simp

section \<open>The results\<close>

text \<open>C9: In every run, and even if the clock is set back, two broadcasts of the server are at least five seconds
  apart, and so are its start and its first broadcast.\<close>

theorem info_broadcasts_spaced:
  assumes "run_steps (info_server_step server_fd) ks s = Inr (s', outs)"
  shows "sorted_wrt (\<lambda>t u. t + 5 \<le> u) (last_message_time s # broadcast_times ks outs)"
  using assms
proof (induction ks arbitrary: s outs)
  case (Cons k ks)
  then obtain s1 out outs' where step: "info_server_step server_fd k s = Inr (s1, out)"
    and rest: "run_steps (info_server_step server_fd) ks s1 = Inr (s', outs')" and outs: "outs = out # outs'"
    unfolding run_steps_Cons by blast
  have "sorted_wrt (\<lambda>t u. t + 5 \<le> u) (last_message_time s1 # broadcast_times ks outs')" by (rule Cons.IH [OF rest])
  then show ?case using step_time [OF step] by (fastforce simp: broadcast_times_def outs split: if_splits)
qed (simp add: broadcast_times_def)

text \<open>C8: Every client that has a slot in the table is sent one report, that of the moment, at each later
  iteration that is due by the clock, and nothing at any other, whoever connects or leaves in between and
  whether or not its \<open>send\<close>s succeed.\<close>

theorem info_reports_on_schedule:
  assumes "info_server_start server_fd getfl setfl bind_ret listen_ret create_ret ctl_ret start_time = Inr s"
    and "server_run (info_server_step server_fd) (info_legal server_fd) s out t"
    and "running t" and "fd \<in> socket_fd ` set (clients t)" and "fd \<noteq> - 1"
    and "legal_steps (info_server_step server_fd) (info_legal server_fd) ks t"
    and "run_steps (info_server_step server_fd) ks t = Inr (u, outs)" and "list_all works ks"
  shows "map (sent_to fd) outs =
    map2 (\<lambda>d k. if d then [report k] else []) (due (last_message_time t) (map current_time ks)) ks"
proof -
  have "info_holds server_fd [] s" using info_server_start_starts [OF assms(1)] by (rule info_starts_holds)
  then obtain fds where holds: "info_holds server_fd fds t" using info_run_table [OF _ assms(2)] by blast
  then have "fd \<in> set (taken_slots fds)" using assms(4) holds_table by simp
  from reports_scheduled [OF holds this assms(5,3,6-8)] show ?thesis .
qed

section \<open>Two broadcasts\<close>

definition demo_at :: "int \<Rightarrow> info_kernel" where
  "demo_at t = demo_send\<lparr>current_time := t\<rparr>"

lemma demo_at_report: "report (demo_at t) = demo_report"
  using demo_report_composed
  by (simp add: report_def demo_at_def demo_send_def demo_connect_def compose_log_lemma)

lemma demo_at_step:
  "info_server_step 3 (demo_at t) (demo_state (demo_table d) {3, 5} t0) =
    (if 5 \<le> t - t0 then Inr (demo_state (demo_table demo_report) {3, 5} t, [(5, demo_report)])
     else Inr (demo_state (\<lparr>socket_fd = 5, outgoing_data = demo_report, data_ready = True\<rparr> # tl init_clients) {3, 5} t0, []))"
proof -
  have "log_system_info demo_uts demo_sysinfo None (demo_table d) =
      \<lparr>socket_fd = 5, outgoing_data = demo_report, data_ready = True\<rparr> # tl init_clients"
    by (simp add: log_system_info_def demo_table_def init_clients_def demo_report_composed)
  then show ?thesis
    by (simp add: info_server_step_def demo_at_def demo_send_def demo_connect_def demo_state_def demo_table_def init_clients_def
        send_to_all_def send_data_to_client_def)
qed

lemma demo_at_legal: "info_legal 3 (demo_at t) s"
  by (simp add: info_legal_def demo_at_def demo_send_def demo_connect_def demo_uts_def)

lemma demo_two_broadcasts:
  "run_steps (info_server_step 3) [demo_at 6, demo_at 12, demo_at 14] (demo_state (demo_table []) {3, 5} 0) =
    Inr (demo_state (\<lparr>socket_fd = 5, outgoing_data = demo_report, data_ready = True\<rparr> # tl init_clients) {3, 5} 12,
      [[(5, demo_report)], [(5, demo_report)], []])"
  by (simp add: demo_at_step)

theorem info_broadcasts_spaced_witness:
  "broadcast_times [demo_at 6, demo_at 12, demo_at 14] [[(5, demo_report)], [(5, demo_report)], []] = [6, 12]
    \<and> sorted_wrt (\<lambda>t u. t + 5 \<le> u) [0, 6, (12 :: int)]"
  using info_broadcasts_spaced [OF demo_two_broadcasts]
  by (simp add: broadcast_times_def demo_at_def demo_state_def)

theorem info_reports_on_schedule_witness:
  "map (sent_to 5) [[(5 :: int, demo_report)], [(5, demo_report)], []] =
    map2 (\<lambda>d k. if d then [report k] else []) (due 0 [6, 12, 14]) [demo_at 6, demo_at 12, demo_at 14]"
proof -
  have "legal_steps (info_server_step 3) (info_legal 3) [demo_at 6, demo_at 12, demo_at 14] (demo_state (demo_table []) {3, 5} 0)"
    by (simp add: demo_at_legal demo_at_step)
  moreover have "list_all works [demo_at 6, demo_at 12, demo_at 14]"
    by (simp add: works_def demo_at_def demo_send_def demo_connect_def)
  moreover have "map current_time [demo_at 6, demo_at 12, demo_at 14] = [6, 12, 14]" by (simp add: demo_at_def)
  ultimately show ?thesis
    using info_reports_on_schedule [OF demo_start demo_runs(1) _ _ _ _ demo_two_broadcasts, of 5]
    by (simp add: demo_state_def demo_table_def)
qed

end
