(* ===== verification/Sentences.thy ===== *)
theory Sentences
  imports C_Int C_String
begin

text \<open>
  The two programs of \<^verbatim>\<open>file-processing/sentence-generator\<close>: \<^verbatim>\<open>sentence-template.c\<close>, which prints all
  sentences of four templates over fixed words, and \<^verbatim>\<open>sentence-synthesis.c\<close>, which prints random ones.
  A program is a function to the sentences it prints; the numbers that \<open>rand\<close> returns are an argument.

  The results: both forms of the verb are the third person of English spelling and never overrun their
  buffer; the exhaustive program prints as many sentences as it says; the random one prints only sentences
  that the exhaustive one prints, and which requests it leaves out.
\<close>

section \<open>The words\<close>

definition names :: "string list" where
  "names = [''Reeshabh'', ''Richa'', ''Maithili'', ''Jaanki'', ''Hanuman'']"

definition verbs :: "string list" where
  "verbs = [''eat'', ''walk'', ''write'', ''talk'', ''play'', ''jump'', ''exercise'', ''read'', ''sleep'', ''code'']"

definition adverbs :: "string list" where
  "adverbs = [''slowly'', ''calmly'', ''mindfully'', ''fast'', ''anxiously'', ''wonderfully'', ''carefully'']"

definition pronouns :: "string list" where
  "pronouns = [''He'', ''She'', ''They'', ''People'', ''We'', ''I'', ''You'']"

definition adjectives :: "string list" where
  "adjectives = [''happy'', ''calm'', ''energetic'', ''thoughtful'', ''careful'', ''quick'', ''graceful'', ''noisy'',
     ''quiet'', ''hungry'']"

section \<open>Conjugation\<close>

text \<open>\<open>strcat\<close> to a string in an array of \<open>cap\<close> characters.\<close>

definition strcat_in :: "nat \<Rightarrow> string \<Rightarrow> string \<Rightarrow> c_error + string" where
  "strcat_in cap s t = (if length s + length t < cap then Inr (s @ t) else Inl Out_of_bounds)"

text \<open>The common part of both versions of the function: \<open>out\<close> is the copy of the verb, whose own
  characters are tested.  Without a character, the one before the verb is read.\<close>

definition add_suffix :: "nat \<Rightarrow> string \<Rightarrow> string \<Rightarrow> c_error + string" where
  "add_suffix out_size verb out =
    (let len = length out
     in if len = 0 then Inl Out_of_bounds
        else
          let c_last = tolower (verb ! (len - 1))
          in if c_last \<in> set ''osxz'' \<or> (2 \<le> len \<and> tolower (verb ! (len - 2)) = CHR ''c'' \<and> c_last = CHR ''h'')
                \<or> (2 \<le> len \<and> tolower (verb ! (len - 2)) = CHR ''s'' \<and> c_last = CHR ''h'')
             then strcat_in out_size out ''es''
             else if c_last = CHR ''y'' \<and> 1 < len \<and> tolower (verb ! (len - 2)) \<notin> set ''aeiou''
             then strcat_in out_size (take (len - 1) out) ''ies''
             else strcat_in out_size out ''s'')"

text \<open>The version of \<^verbatim>\<open>sentence-template.c\<close> and that of \<^verbatim>\<open>sentence-synthesis.c\<close>; for an array too small, the
  length given to \<open>strncpy\<close> wraps around.\<close>

definition conjugate_verb_third_person :: "string \<Rightarrow> nat \<Rightarrow> c_error + string" where
  "conjugate_verb_third_person verb out_size =
    (if out_size < 2 then Inl Out_of_bounds
     else
       let out = take (out_size - 2) verb
       in if out_size \<le> length out + 2 then strcat_in out_size out ''s'' else add_suffix out_size verb out)"

definition synthesis_conjugate_verb :: "string \<Rightarrow> nat \<Rightarrow> c_error + string" where
  "synthesis_conjugate_verb verb out_size =
    (if out_size < 3 then Inl Out_of_bounds else add_suffix out_size verb (take (out_size - 3) verb))"

definition is_third_person_singular :: "string \<Rightarrow> bool" where
  "is_third_person_singular pronoun \<longleftrightarrow> pronoun = ''He'' \<or> pronoun = ''She''"

section \<open>Templates\<close>

text \<open>The functions of both programs differ only in the version of the conjugation, their first argument.\<close>

definition three_words :: "string \<Rightarrow> string \<Rightarrow> string \<Rightarrow> string" where
  "three_words a b c = a @ '' '' @ b @ '' '' @ c @ ''.'' @ [newline]"

definition template_1 :: "(string \<Rightarrow> nat \<Rightarrow> c_error + string) \<Rightarrow> string \<Rightarrow> string \<Rightarrow> string \<Rightarrow> c_error + string list" where
  "template_1 conjugate pronoun verb adverb =
    (if is_third_person_singular pronoun
     then rbind (conjugate verb 30) (\<lambda>verb_s. Inr [three_words pronoun verb_s adverb])
     else Inr [three_words pronoun verb adverb])"

definition template_2 :: "(string \<Rightarrow> nat \<Rightarrow> c_error + string) \<Rightarrow> string \<Rightarrow> string \<Rightarrow> string \<Rightarrow> c_error + string list" where
  "template_2 conjugate pronoun verb adverb =
    (if is_third_person_singular pronoun
     then rbind (conjugate verb 30) (\<lambda>verb_s. Inr [three_words pronoun verb_s adverb])
     else Inr [])"

definition template_3 :: "(string \<Rightarrow> nat \<Rightarrow> c_error + string) \<Rightarrow> string \<Rightarrow> string \<Rightarrow> string \<Rightarrow> c_error + string list" where
  "template_3 conjugate name verb adverb =
    rbind (conjugate verb 30) (\<lambda>verb_s. Inr [three_words name verb_s adverb])"

definition template_4 :: "(string \<Rightarrow> nat \<Rightarrow> c_error + string) \<Rightarrow> string \<Rightarrow> string \<Rightarrow> string \<Rightarrow> string \<Rightarrow> c_error + string list" where
  "template_4 conjugate name adjective verb adverb =
    rbind (conjugate verb 30) (\<lambda>verb_s.
      Inr [name @ '' is '' @ adjective @ '' and '' @ verb_s @ '' '' @ adverb @ ''.'' @ [newline]])"

section \<open>The exhaustive program\<close>

text \<open>A \<open>for\<close> loop over an array, whose body returns the new state.\<close>

fun for_each :: "('a \<Rightarrow> 's \<Rightarrow> c_error + 's) \<Rightarrow> 'a list \<Rightarrow> 's \<Rightarrow> c_error + 's" where
  "for_each body [] s = Inr s"
| "for_each body (x # xs) s = rbind (body x s) (for_each body xs)"

text \<open>The state is the counter and what has been printed.\<close>

definition print_counted :: "bool \<Rightarrow> c_error + string list \<Rightarrow> int \<times> string list \<Rightarrow> c_error + int \<times> string list" where
  "print_counted count printed s =
    rbind printed (\<lambda>ls. rbind (if count then checked 64 (fst s + 1) else Inr (fst s)) (\<lambda>n. Inr (n, snd s @ ls)))"

definition apply_templates :: "string \<Rightarrow> string \<Rightarrow> string \<Rightarrow> string \<Rightarrow> string \<Rightarrow> int \<times> string list
    \<Rightarrow> c_error + int \<times> string list" where
  "apply_templates name verb adverb adjective pronoun s =
    rbind (print_counted True (template_1 conjugate_verb_third_person pronoun verb adverb) s) (\<lambda>s.
    rbind (print_counted (is_third_person_singular pronoun) (template_2 conjugate_verb_third_person pronoun verb adverb) s) (\<lambda>s.
    rbind (print_counted True (template_3 conjugate_verb_third_person name verb adverb) s)
      (print_counted True (template_4 conjugate_verb_third_person name adjective verb adverb))))"

definition template_main :: "c_error + int \<times> string list" where
  "template_main =
    for_each (\<lambda>name. for_each (\<lambda>verb. for_each (\<lambda>adverb. for_each (\<lambda>adjective. for_each (\<lambda>pronoun.
      apply_templates name verb adverb adjective pronoun) pronouns) adjectives) adverbs) verbs) names (0, [])"

section \<open>The random program\<close>

definition apply_template_1 :: "string \<Rightarrow> string \<Rightarrow> string \<Rightarrow> c_error + string list" where
  "apply_template_1 = template_1 synthesis_conjugate_verb"

definition apply_template_2 :: "string \<Rightarrow> string \<Rightarrow> string \<Rightarrow> c_error + string list" where
  "apply_template_2 = template_2 synthesis_conjugate_verb"

definition apply_template_3 :: "string \<Rightarrow> string \<Rightarrow> string \<Rightarrow> c_error + string list" where
  "apply_template_3 = template_3 synthesis_conjugate_verb"

definition apply_template_4 :: "string \<Rightarrow> string \<Rightarrow> string \<Rightarrow> string \<Rightarrow> c_error + string list" where
  "apply_template_4 = template_4 synthesis_conjugate_verb"

text \<open>\<open>ws[rand() % count]\<close>, for a result that is not negative.\<close>

definition pick :: "string list \<Rightarrow> int \<Rightarrow> string" where
  "pick ws r = ws ! nat (r mod int (length ws))"

text \<open>Six results of \<open>rand\<close> make a sentence, or none.\<close>

fun generate_random_sentence :: "int list \<Rightarrow> c_error + string list \<times> int list" where
  "generate_random_sentence (r0 # r1 # r2 # r3 # r4 # r5 # rands) =
    (let template_choice = r0 mod 4 + 1;
         name = pick names r1; verb = pick verbs r2; adverb = pick adverbs r3;
         adjective = pick adjectives r4; pronoun = pick pronouns r5
     in rbind (if template_choice = 1 then apply_template_1 pronoun verb adverb
               else if template_choice = 2 then apply_template_2 pronoun verb adverb
               else if template_choice = 3 then apply_template_3 name verb adverb
               else if template_choice = 4 then apply_template_4 name adjective verb adverb
               else Inr []) (\<lambda>ls. Inr (ls, rands)))"
| "generate_random_sentence _ = Inl Exhausted"

fun random_sentences :: "nat \<Rightarrow> int list \<Rightarrow> c_error + string list" where
  "random_sentences 0 rands = Inr []"
| "random_sentences (Suc count) rands =
    rbind (generate_random_sentence rands) (\<lambda>(ls, rands).
      rbind (random_sentences count rands) (\<lambda>rest. Inr (ls @ rest)))"

definition synthesis_main :: "string option \<Rightarrow> int list \<Rightarrow> c_error + string list" where
  "synthesis_main arg rands =
    rbind (case arg of
             None \<Rightarrow> Inr 10
           | Some a \<Rightarrow> rbind (checked 32 (case fst (scan_int a) of None \<Rightarrow> 0 | Some v \<Rightarrow> v)) (\<lambda>count.
               Inr (if count \<le> 0 then 10 else count)))
      (\<lambda>count. rbind (random_sentences (nat count) rands) (\<lambda>ls.
        Inr ((''Generating '' @ print_int count @ '' random sentences:'' @ [newline, newline]) # ls)))"

section \<open>The third person\<close>

text \<open>The rules of spelling: \<open>-es\<close> after a sibilant or \<open>o\<close>, \<open>-ies\<close> for a \<open>y\<close> after a consonant, else \<open>-s\<close>.\<close>

fun third_person_rev :: "string \<Rightarrow> string" where
  "third_person_rev [] = ''s''"
| "third_person_rev [c] = (if tolower c \<in> set ''osxz'' then ''se'' @ [c] else ''s'' @ [c])"
| "third_person_rev (c # b # w) =
    (if tolower c \<in> set ''osxz'' \<or> (tolower b \<in> set ''cs'' \<and> tolower c = CHR ''h'') then ''se'' @ c # b # w
     else if tolower c = CHR ''y'' \<and> tolower b \<notin> set ''aeiou'' then ''sei'' @ b # w
     else ''s'' @ c # b # w)"

definition third_person :: "string \<Rightarrow> string" where
  "third_person verb = rev (third_person_rev (rev verb))"

lemma third_person_simps:
  "third_person [c] = (if tolower c \<in> set ''osxz'' then [c] @ ''es'' else [c] @ ''s'')"
  "third_person (w @ [b, c]) =
    (if tolower c \<in> set ''osxz'' \<or> (tolower b \<in> set ''cs'' \<and> tolower c = CHR ''h'') then w @ [b, c] @ ''es''
     else if tolower c = CHR ''y'' \<and> tolower b \<notin> set ''aeiou'' then w @ [b] @ ''ies''
     else w @ [b, c] @ ''s'')"
  by (simp_all add: third_person_def)

lemma word_cases:
  obtains (Nil) "xs = []" | (one) c where "xs = [c]" | (more) w b c where "xs = w @ [b, c]"
proof (cases xs rule: rev_cases)
  case (snoc ys c)
  then show ?thesis using that by (cases ys rule: rev_cases) auto
qed (rule that)

lemma length_third_person: "length (third_person w) \<le> length w + 2"
  by (cases w rule: word_cases) (simp_all add: third_person_simps, simp add: third_person_def)

lemma add_suffix_third_person:
  assumes "out = take k verb" and "out \<noteq> []" and "length out + 2 < cap"
  shows "add_suffix cap verb out = Inr (third_person out)"
proof -
  have verb: "verb ! i = out ! i" if "i < length out" for i using that assms(1) by simp
  show ?thesis
  proof (cases out rule: word_cases)
    case (one c)
    have "verb ! 0 = c" using verb [of 0] one by simp
    then show ?thesis using assms(3) by (simp add: add_suffix_def third_person_simps strcat_in_def one)
  next
    case (more w b c)
    have "verb ! Suc (length w) = c" "verb ! length w = b"
      using verb [of "Suc (length w)"] verb [of "length w"] by (simp_all add: more nth_append)
    then show ?thesis using assms(3) by (simp add: add_suffix_def third_person_simps strcat_in_def more Let_def)
  qed (use assms(2) in simp)
qed

lemma conjugation_lemma:
  assumes "verb \<noteq> []" and "4 \<le> out_size"
  shows "conjugate_verb_third_person verb out_size =
      Inr (if length verb < out_size - 2 then third_person verb else take (out_size - 2) verb @ ''s'')"
    and "synthesis_conjugate_verb verb out_size = Inr (third_person (take (out_size - 3) verb))"
proof -
  show "synthesis_conjugate_verb verb out_size = Inr (third_person (take (out_size - 3) verb))"
    using assms by (auto simp: synthesis_conjugate_verb_def intro!: add_suffix_third_person)
  show "conjugate_verb_third_person verb out_size =
      Inr (if length verb < out_size - 2 then third_person verb else take (out_size - 2) verb @ ''s'')"
  proof (cases "length verb < out_size - 2")
    case True
    then have "add_suffix out_size verb verb = Inr (third_person verb)"
      using assms by (intro add_suffix_third_person [of _ "length verb"]) auto
    moreover have "\<not> out_size < 2" "\<not> out_size \<le> length verb + 2" "take (out_size - 2) verb = verb"
      using True by simp_all
    ultimately show ?thesis using True by (simp add: conjugate_verb_third_person_def)
  next
    case False
    obtain k where "out_size = 4 + k" using assms(2) le_Suc_ex by blast
    moreover from this have "length (take (out_size - 2) verb) = out_size - 2" using False by simp
    ultimately show ?thesis using False by (simp add: conjugate_verb_third_person_def strcat_in_def Let_def)
  qed
qed

section \<open>What is printed\<close>

definition agreeing :: "string \<Rightarrow> string \<Rightarrow> string" where
  "agreeing pronoun verb = (if is_third_person_singular pronoun then third_person verb else verb)"

definition sentence_4 :: "string \<Rightarrow> string \<Rightarrow> string \<Rightarrow> string \<Rightarrow> string" where
  "sentence_4 name adjective verb adverb =
    name @ '' is '' @ adjective @ '' and '' @ third_person verb @ '' '' @ adverb @ ''.'' @ [newline]"

text \<open>The sentences for one choice of words.\<close>

definition sentences_for :: "string \<Rightarrow> string \<Rightarrow> string \<Rightarrow> string \<Rightarrow> string \<Rightarrow> string list" where
  "sentences_for name verb adverb adjective pronoun =
    three_words pronoun (agreeing pronoun verb) adverb
    # (if is_third_person_singular pronoun then [three_words pronoun (third_person verb) adverb] else [])
    @ [three_words name (third_person verb) adverb, sentence_4 name adjective verb adverb]"

definition all_sentences :: "string list" where
  "all_sentences = concat (map (\<lambda>name. concat (map (\<lambda>verb. concat (map (\<lambda>adverb. concat (map (\<lambda>adjective.
     concat (map (\<lambda>pronoun. sentences_for name verb adverb adjective pronoun) pronouns)) adjectives)) adverbs)) verbs)) names)"

lemma verbs_short: "verb \<in> set verbs \<Longrightarrow> verb \<noteq> [] \<and> length verb \<le> 8"
  by (auto simp: verbs_def)

lemma conjugate_verbs:
  assumes "verb \<in> set verbs"
  shows "conjugate_verb_third_person verb 30 = Inr (third_person verb)"
    and "synthesis_conjugate_verb verb 30 = Inr (third_person verb)"
  using conjugation_lemma [of verb 30] verbs_short [OF assms] by simp_all

text \<open>A loop whose body prints \<open>printed x\<close> and counts it, while the counter cannot overflow.\<close>

definition counts :: "nat \<Rightarrow> (int \<times> string list \<Rightarrow> c_error + int \<times> string list) \<Rightarrow> string list \<Rightarrow> bool" where
  "counts k body ls \<longleftrightarrow> length ls \<le> k \<and>
    (\<forall>n out. 0 \<le> n \<and> n + int k < 9223372036854775808 \<longrightarrow> body (n, out) = Inr (n + int (length ls), out @ ls))"

lemma counts_for_each:
  assumes "\<And>x. x \<in> set xs \<Longrightarrow> counts k (body x) (printed x)"
  shows "counts (length xs * k) (for_each body xs) (concat (map printed xs))"
  using assms
proof (induction xs)
  case (Cons x xs)
  then have "counts k (body x) (printed x)" "counts (length xs * k) (for_each body xs) (concat (map printed xs))" by simp_all
  then have head: "0 \<le> n \<Longrightarrow> n + int k < 9223372036854775808 \<Longrightarrow>
        body x (n, out) = Inr (n + int (length (printed x)), out @ printed x)"
      and tail: "0 \<le> n \<Longrightarrow> n + int (length xs * k) < 9223372036854775808 \<Longrightarrow>
        for_each body xs (n, out) = Inr (n + int (length (concat (map printed xs))), out @ concat (map printed xs))"
      and len: "length (printed x) \<le> k" "length (concat (map printed xs)) \<le> length xs * k" for n out
    unfolding counts_def by blast+
  have "for_each body (x # xs) (n, out)
      = Inr (n + int (length (concat (map printed (x # xs)))), out @ concat (map printed (x # xs)))"
    if "0 \<le> n" "n + int (length (x # xs) * k) < 9223372036854775808" for n out
  proof -
    have "0 \<le> int (length xs * k)" by simp
    then have "n + int k < 9223372036854775808"
      using that(2) unfolding length_Cons mult_Suc of_nat_add by linarith
    moreover have "n + int (length (printed x)) + int (length xs * k) < 9223372036854775808"
      using that(2) len(1) unfolding length_Cons mult_Suc of_nat_add by linarith
    ultimately show ?thesis using head [of n out] tail [of "n + int (length (printed x))" "out @ printed x"] that(1)
      by (simp del: of_nat_mult)
  qed
  then show ?case using len by (simp add: counts_def)
qed (simp add: counts_def)

lemma counts_templates:
  assumes "verb \<in> set verbs"
  shows "counts 4 (apply_templates name verb adverb adjective pronoun) (sentences_for name verb adverb adjective pronoun)"
proof -
  have "fits 64 x" if "0 \<le> x" "x < 9223372036854775808" for x using that by (simp add: fits_64)
  then show ?thesis
    by (simp add: counts_def apply_templates_def print_counted_def template_1_def template_2_def template_3_def template_4_def
        conjugate_verbs [OF assms] sentences_for_def agreeing_def sentence_4_def)
qed

lemma template_main_counts:
  "counts (length names * (length verbs * (length adverbs * (length adjectives * (length pronouns * 4)))))
     (for_each (\<lambda>name. for_each (\<lambda>verb. for_each (\<lambda>adverb. for_each (\<lambda>adjective. for_each (\<lambda>pronoun.
      apply_templates name verb adverb adjective pronoun) pronouns) adjectives) adverbs) verbs) names) all_sentences"
  unfolding all_sentences_def by (intro counts_for_each counts_templates)

lemma counted_from_0: "counts k body ls \<Longrightarrow> int k < 9223372036854775808 \<Longrightarrow> body (0, []) = Inr (int (length ls), ls)"
  by (simp add: counts_def)

lemma template_main_eq: "template_main = Inr (int (length all_sentences), all_sentences)"
  unfolding template_main_def
  by (rule counted_from_0 [OF template_main_counts])
    (simp add: names_def verbs_def adverbs_def adjectives_def pronouns_def)

lemma all_sentences_length: "length all_sentences = 80500"
proof -
  have "length (concat (map (\<lambda>p. sentences_for n v a adj p) pronouns)) = 23" for n v a adj
    by (simp add: pronouns_def sentences_for_def is_third_person_singular_def)
  then have "length (concat (map (\<lambda>adj. concat (map (\<lambda>p. sentences_for n v a adj p) pronouns)) adjectives)) = 230" for n v a
    by (simp add: adjectives_def)
  then have "length (concat (map (\<lambda>a. concat (map (\<lambda>adj. concat (map (\<lambda>p. sentences_for n v a adj p) pronouns)) adjectives)) adverbs))
      = 1610" for n v
    by (simp add: adverbs_def)
  then show ?thesis by (simp add: all_sentences_def names_def verbs_def)
qed

lemma sentences_listed:
  assumes "name \<in> set names" and "verb \<in> set verbs" and "adverb \<in> set adverbs" and "adjective \<in> set adjectives"
    and "pronoun \<in> set pronouns"
  shows "set (sentences_for name verb adverb adjective pronoun) \<subseteq> set all_sentences"
  using assms unfolding all_sentences_def by fastforce

section \<open>Random sentences\<close>

lemma pick_word: "ws \<noteq> [] \<Longrightarrow> pick ws r \<in> set ws"
  unfolding pick_def by (intro nth_mem) (simp add: nat_less_iff)

text \<open>The requests that print nothing: the second template for a pronoun that is not singular.\<close>

definition silent :: "int list \<Rightarrow> nat \<Rightarrow> bool" where
  "silent rands i \<longleftrightarrow> rands ! (6 * i) mod 4 = 1 \<and> \<not> is_third_person_singular (pick pronouns (rands ! (6 * i + 5)))"

lemma generate_one:
  "\<exists>ls. generate_random_sentence (r0 # r1 # r2 # r3 # r4 # r5 # rands) = Inr (ls, rands)
    \<and> set ls \<subseteq> set all_sentences
    \<and> length ls = (if r0 mod 4 = 1 \<and> \<not> is_third_person_singular (pick pronouns r5) then 0 else 1)"
proof -
  define n v a adj p where "n = pick names r1" and "v = pick verbs r2" and "a = pick adverbs r3"
    and "adj = pick adjectives r4" and "p = pick pronouns r5"
  have v: "v \<in> set verbs" by (simp add: v_def pick_word verbs_def del: set_simps)
  have listed: "set (sentences_for n v a adj p) \<subseteq> set all_sentences"
    by (rule sentences_listed)
      (simp_all add: n_def v_def a_def adj_def p_def pick_word names_def verbs_def adverbs_def adjectives_def pronouns_def del: set_simps)
  have "r0 mod 4 = 0 \<or> r0 mod 4 = 1 \<or> r0 mod 4 = 2 \<or> r0 mod 4 = 3" by presburger
  then show ?thesis
    using listed
    by (auto simp: apply_template_1_def apply_template_2_def apply_template_3_def apply_template_4_def
        template_1_def template_2_def template_3_def template_4_def conjugate_verbs [OF v] sentences_for_def
        agreeing_def sentence_4_def simp flip: n_def v_def a_def adj_def p_def)
qed

lemma silent_Cons: "silent (r0 # r1 # r2 # r3 # r4 # r5 # rands) (Suc i) = silent rands i"
  by (simp add: silent_def eval_nat_numeral)

lemma random_sentences_lemma:
  assumes "6 * count \<le> length rands"
  shows "\<exists>ls. random_sentences count rands = Inr ls \<and> set ls \<subseteq> set all_sentences
    \<and> length ls + length (filter (silent rands) [0..<count]) = count"
  using assms
proof (induction count arbitrary: rands)
  case (Suc count)
  then obtain r0 r1 r2 r3 r4 r5 rest where rands: "rands = r0 # r1 # r2 # r3 # r4 # r5 # rest"
    by (auto simp: Suc_le_length_iff eval_nat_numeral)
  then have "6 * count \<le> length rest" using Suc.prems by simp
  then obtain ls where ls: "random_sentences count rest = Inr ls" "set ls \<subseteq> set all_sentences"
      "length ls + length (filter (silent rest) [0..<count]) = count"
    using Suc.IH by blast
  obtain xs where xs: "generate_random_sentence rands = Inr (xs, rest)" "set xs \<subseteq> set all_sentences"
      "length xs = (if r0 mod 4 = 1 \<and> \<not> is_third_person_singular (pick pronouns r5) then 0 else 1)"
    using generate_one [of r0 r1 r2 r3 r4 r5 rest] by (auto simp: rands)
  have "[0..<Suc count] = 0 # map Suc [0..<count]" by (simp add: upt_conv_Cons map_Suc_upt del: upt_Suc)
  moreover have "filter (silent rands) (map Suc [0..<count]) = map Suc (filter (silent rest) [0..<count])"
    by (simp add: filter_map comp_def rands silent_Cons)
  moreover have "silent rands 0 \<longleftrightarrow> r0 mod 4 = 1 \<and> \<not> is_third_person_singular (pick pronouns r5)"
    by (simp add: silent_def rands)
  ultimately have "length (xs @ ls) + length (filter (silent rands) [0..<Suc count]) = Suc count"
    using ls(3) xs(3) by (simp del: upt_Suc)
  moreover have "random_sentences (Suc count) rands = Inr (xs @ ls)" by (simp add: xs(1) ls(1))
  ultimately show ?case using ls(2) xs(2) by (metis Un_least set_append)
qed simp

section \<open>The results\<close>

text \<open>Conjugation: for every word that is not empty and every array of at least four characters both
  versions of the function return; the random program's is the third person of the part that fits,
  the exhaustive program's is the third person unless the word fills the array, where only an \<open>s\<close> is
  appended; and what is stored fits the array with its terminating zero.\<close>

theorem conjugation_correct:
  assumes "verb \<noteq> []" and "4 \<le> out_size"
  shows "synthesis_conjugate_verb verb out_size = Inr (third_person (take (out_size - 3) verb))
    \<and> conjugate_verb_third_person verb out_size =
        Inr (if length verb < out_size - 2 then third_person verb else take (out_size - 2) verb @ ''s'')
    \<and> list_all (\<lambda>r. \<forall>s. r = Inr s \<longrightarrow> length s < out_size)
        [synthesis_conjugate_verb verb out_size, conjugate_verb_third_person verb out_size]"
proof -
  have "length (third_person (take (out_size - 3) verb)) < out_size"
    using length_third_person [of "take (out_size - 3) verb"] assms(2) by (simp add: min_def split: if_splits)
  moreover have "length verb < out_size - 2 \<Longrightarrow> length (third_person verb) < out_size"
    using length_third_person [of verb] by linarith
  moreover have "Suc (out_size - 2) < out_size" using assms(2) by linarith
  ultimately show ?thesis using assms(2) by (simp add: conjugation_lemma [OF assms])
qed

theorem conjugation_correct_witness:
  "conjugate_verb_third_person ''carry'' 30 = Inr ''carries'' \<and> synthesis_conjugate_verb ''teach'' 30 = Inr ''teaches''"
proof -
  have "third_person ''carry'' = ''carries''" "third_person ''teach'' = ''teaches''"
    by (simp_all add: third_person_def tolower_def)
  then show ?thesis using conjugation_correct [of "''carry''" 30] conjugation_correct [of "''teach''" 30] by simp
qed

text \<open>C40: The exhaustive program prints, in the order of its loops, the sentences that grammar gives for
  every choice of words, and the total it reports is their number, 80500.\<close>

theorem template_main_correct:
  "template_main = Inr (80500, all_sentences) \<and> length all_sentences = 80500"
  using template_main_eq by (simp add: all_sentences_length)

text \<open>C36: The random program prints only sentences that the exhaustive program prints, at most one for each
  request; the requests that it announces and does not print are those for the second template and a
  pronoun that is not singular.\<close>

theorem synthesis_prints_template_sentences:
  assumes "case arg of None \<Rightarrow> n = 10 | Some a \<Rightarrow> fst (scan_int a) = Some n \<and> 0 < n \<and> fits 32 n"
    and "6 * nat n \<le> length rands"
  shows "\<exists>ls. synthesis_main arg rands = Inr ((''Generating '' @ print_int n @ '' random sentences:'' @ [newline, newline]) # ls)
    \<and> set ls \<subseteq> set (snd (projr template_main)) \<and> int (length ls) = n - int (length (filter (silent rands) [0..<nat n]))"
proof -
  obtain ls where ls: "random_sentences (nat n) rands = Inr ls" "set ls \<subseteq> set all_sentences"
      "length ls + length (filter (silent rands) [0..<nat n]) = nat n"
    using random_sentences_lemma [OF assms(2)] by blast
  have "0 \<le> n" using assms(1) by (simp split: option.splits)
  then have "int (length ls) = n - int (length (filter (silent rands) [0..<nat n]))" using ls(3) by linarith
  moreover have "synthesis_main arg rands
      = Inr ((''Generating '' @ print_int n @ '' random sentences:'' @ [newline, newline]) # ls)"
    using assms(1) ls(1) by (auto simp: synthesis_main_def split: option.splits)
  moreover have "snd (projr template_main) = all_sentences" by (simp add: template_main_eq)
  ultimately show ?thesis using ls(2) by auto
qed

theorem synthesis_prints_template_sentences_witness:
  "\<exists>ls. synthesis_main (Some ''2'') [0, 0, 0, 0, 0, 0, 1, 0, 0, 0, 0, 2] = Inr ((''Generating 2 random sentences:'' @ [newline, newline]) # ls)
    \<and> length ls = 1"
proof -
  have "scan_int ''2'' = (Some 2, [])"
    by (simp add: scan_int_def isdigit_def isspace_def nat_of_digits_def digit_value_def)
  moreover have "print_int 2 = ''2''" by (simp add: print_int_def print_nat.simps)
  moreover have "filter (silent [0, 0, 0, 0, 0, 0, 1, 0, 0, 0, 0, 2]) [0..<nat 2] = [1]"
    by (simp add: silent_def pick_def pronouns_def is_third_person_singular_def upt_rec)
  ultimately show ?thesis
    using synthesis_prints_template_sentences 
      [where arg = "Some ''2''" and n = 2 and rands = "[0, 0, 0, 0, 0, 0, 1, 0, 0, 0, 0, 2]"]
    by (auto simp: fits_32)
qed

end
