(* ===== verification/Email_Parser.thy ===== *)
theory Email_Parser
  imports C_String
begin

text \<open>
  \<^verbatim>\<open>file-processing/email-parsing/emailparser.c\<close>: every line of a file is cleaned, brought to the form of
  an address by 26 textual replacements, and searched for an address.  \<open>regcomp\<close> and \<open>regexec\<close> are
  arguments.  A replacement is repeated as long as its pattern occurs, so whether it returns is a
  question: the result \<open>None\<close> is a loop that does not end.

  The results: every replacement ends on every line, after a bounded number of rounds and for arrays of
  any size; for lines of up to 2730 characters the buffer of
  8192 characters is never overrun, for others it can be; which replacement never applies; and what the
  program prints.
\<close>

section \<open>Cleaning a line\<close>

definition starts :: "string \<Rightarrow> string \<Rightarrow> bool" where
  "starts p s \<longleftrightarrow> take (length p) s = p"

text \<open>The string without a first character among those given.\<close>

definition skip_one :: "string \<Rightarrow> string \<Rightarrow> string" where
  "skip_one cs s = (case s of [] \<Rightarrow> [] | c # r \<Rightarrow> if c \<in> set cs then r else s)"

text \<open>A character above 127 is negative where \<open>char\<close> is signed.  The standard does not define \<open>isspace\<close> and
  \<open>isdigit\<close> there; the usual C libraries have tables for such values and answer no, as is assumed here.\<close>

definition clean_content :: "string \<Rightarrow> string" where
  "clean_content file_content =
    (let ptr = dropWhile isspace file_content;
         ptr = (if ptr \<noteq> [] \<and> isdigit (hd ptr) then skip_one ''.)'' (dropWhile isdigit ptr) else ptr);
         ptr = (if starts ''Email:'' ptr \<or> starts ''Email:-'' ptr \<or> starts ''ID:'' ptr
                then skip_one '':'' (dropWhile (\<lambda>c. c \<noteq> CHR '':'') ptr) else ptr)
     in dropWhile (\<lambda>c. c = CHR ''-'' \<or> c = CHR '':'' \<or> isspace c) ptr)"

section \<open>Replacements\<close>

definition convert_to_lowercase :: "string \<Rightarrow> string" where
  "convert_to_lowercase s = map tolower s"

text \<open>Both \<open>buffer\<close> and the line have 8192 characters.\<close>

partial_function (option) replace_all :: "string \<Rightarrow> string \<Rightarrow> string \<Rightarrow> (c_error + string) option" where
  "replace_all old updated s =
    (case strstr s old of
       None \<Rightarrow> Some (Inr s)
     | Some i \<Rightarrow>
         let buffer = take i s @ updated @ drop (i + length old) s
         in if length buffer < 8192 then replace_all old updated buffer else Some (Inl Out_of_bounds))"

declare replace_all.simps [code]

text \<open>The calls of \<open>normalize\<close> in their order.\<close>

definition rules :: "(string \<times> string) list" where
  "rules =
    [(''_at_the_rate_'', ''@''), (''-at-the-rate-'', ''@''), ('' at the rate '', ''@''), (''attherate'', ''@''),
     (''(attherate)'', ''@''), (''(at)'', ''@''), (''[at]'', ''@''), ('' at '', ''@''), (''(@)'', ''@''),
     (''_dot_'', ''.''), ('' dot '', ''.''), (''(dot)'', ''.''), (''[dot]'', ''.''), ('' period '', ''.''),
     (''period '', ''.''), (''(period)'', ''.''),
     ('' underscore '', ''_''), (''underscore'', ''_''),
     ('' gml '', '' gmail ''), ('' gmai '', '' gmail ''), ('' google mail '', '' gmail ''), ('' gm '', '' gmail ''),
     (''gm '', ''gmail''),
     ('' @ '', ''@''), ('' . '', ''.''), ('' .com'', ''.com'')]"

fun apply_rules :: "(string \<times> string) list \<Rightarrow> string \<Rightarrow> (c_error + string) option" where
  "apply_rules [] s = Some (Inr s)"
| "apply_rules ((old, updated) # rs) s =
    (case replace_all old updated s of
       None \<Rightarrow> None
     | Some (Inl e) \<Rightarrow> Some (Inl e)
     | Some (Inr s) \<Rightarrow> apply_rules rs s)"

definition normalize_content :: "string \<Rightarrow> (c_error + string) option" where
  "normalize_content file_content = apply_rules rules (convert_to_lowercase file_content)"

section \<open>The program\<close>

datatype printed = Normalized string | Extracted string

text \<open>\<open>regexec text\<close> is the start and the end of the match, if there is one.\<close>

definition extract_email :: "int \<Rightarrow> (string \<Rightarrow> (nat \<times> nat) option) \<Rightarrow> string \<Rightarrow> c_error + printed list" where
  "extract_email regcomp regexec s =
    (if regcomp \<noteq> 0 then Inr []
     else case regexec s of
            None \<Rightarrow> Inr []
          | Some (b, e) \<Rightarrow>
              let len = e - b
              in if len < 8192 then Inr [Extracted (take len (drop b s))] else Inl Out_of_bounds)"

fun email_loop :: "int \<Rightarrow> (string \<Rightarrow> (nat \<times> nat) option) \<Rightarrow> string list \<Rightarrow> (c_error + printed list) option" where
  "email_loop regcomp regexec [] = Some (Inr [])"
| "email_loop regcomp regexec (l # ls) =
    (case normalize_content (clean_content l) of
       None \<Rightarrow> None
     | Some (Inl e) \<Rightarrow> Some (Inl e)
     | Some (Inr s) \<Rightarrow>
         if s = [] then email_loop regcomp regexec ls
         else case extract_email regcomp regexec s of
                Inl e \<Rightarrow> Some (Inl e)
              | Inr out \<Rightarrow>
                  (case email_loop regcomp regexec ls of
                     None \<Rightarrow> None
                   | Some (Inl e) \<Rightarrow> Some (Inl e)
                   | Some (Inr rest) \<Rightarrow> Some (Inr (Normalized s # out @ rest))))"

definition emailparser_main :: "int \<Rightarrow> (string \<Rightarrow> (nat \<times> nat) option) \<Rightarrow> string option \<Rightarrow> (c_error + printed list) option" where
  "emailparser_main regcomp regexec file =
    (case file of
       None \<Rightarrow> Some (Inl Exit_failure)
     | Some content \<Rightarrow> email_loop regcomp regexec (file_lines content))"

section \<open>The weight of a line\<close>

text \<open>
  Every replacement shortens the line, except four that turn \<open>gml\<close>, \<open>gmai\<close> and \<open>gm\<close> into \<open>gmail\<close>.
  Those remove one of the neighbours \<open>ml\<close>, \<open>i\<close> and space, or \<open>m\<close> and space, which are counted so that
  the weight of the line falls each time.
\<close>

definition glue :: "char \<Rightarrow> char \<Rightarrow> nat" where
  "glue a b = (if a = CHR ''m'' \<and> b = CHR ''l'' then 3 else if a = CHR ''i'' \<and> b = CHR '' '' then 2
     else if a = CHR ''m'' \<and> b = CHR '' '' then 4 else 0)"

fun weight :: "string \<Rightarrow> nat" where
  "weight [] = 0"
| "weight [a] = 1"
| "weight (a # b # s) = 1 + glue a b + weight (b # s)"

definition join :: "string \<Rightarrow> string \<Rightarrow> nat" where
  "join s t = (if s = [] \<or> t = [] then 0 else glue (last s) (hd t))"

lemma weight_append: "weight (s @ t) = weight s + join s t + weight t"
proof (induction s rule: weight.induct)
  case (2 a)
  then show ?case by (cases t) (simp_all add: join_def)
qed (simp_all add: join_def)

lemma length_le_weight: "length s \<le> weight s"
  by (induction s rule: weight.induct) simp_all

lemma weight_bound: "weight s \<le> 3 * length s"
proof (induction s rule: induct_list012)
  case (3 a b s)
  show ?case
  proof (cases s)
    case (Cons c r)
    have "glue a b = 0 \<or> glue b c = 0 \<and> glue a b \<le> 4" by (auto simp: glue_def)
    then show ?thesis using 3 Cons by auto
  qed (simp add: glue_def)
qed simp_all

text \<open>A replacement that makes every line lighter.\<close>

definition lighter :: "string \<times> string \<Rightarrow> bool" where
  "lighter r \<longleftrightarrow> (case r of (old, updated) \<Rightarrow>
     old \<noteq> [] \<and> updated \<noteq> [] \<and> weight updated < weight old
     \<and> (hd updated = hd old \<or> hd updated \<notin> set ''l '') \<and> (last updated = last old \<or> last updated \<notin> set ''mi''))"

lemma rules_lighter: "list_all lighter rules"
  by (simp add: rules_def lighter_def glue_def)

lemma replacement_lighter:
  assumes "lighter (old, updated)"
  shows "weight (us @ updated @ vs) < weight (us @ old @ vs)"
proof -
  have "old \<noteq> []" "updated \<noteq> []" "weight updated < weight old" using assms by (simp_all add: lighter_def)
  moreover have "glue (last us) (hd updated) \<le> glue (last us) (hd old)"
    using assms by (auto simp: lighter_def glue_def)
  moreover have "glue (last updated) (hd vs) \<le> glue (last old) (hd vs)"
    using assms by (auto simp: lighter_def glue_def)
  ultimately show ?thesis by (auto simp: weight_append join_def)
qed

lemma replace_all_step:
  "strstr s old = Some i \<Longrightarrow> replace_all old updated s =
    (if length (take i s @ updated @ drop (i + length old) s) < 8192
     then replace_all old updated (take i s @ updated @ drop (i + length old) s) else Some (Inl Out_of_bounds))"
  by (subst replace_all.simps) (simp add: Let_def)

text \<open>What is guaranteed of a line: a result, without an occurrence of the pattern, and no overrun for a
  line that is light enough.\<close>

lemma replace_all_lemma:
  assumes "lighter (old, updated)"
  shows "\<exists>r. replace_all old updated s = Some r \<and> (weight s < 8192 \<longrightarrow> (\<exists>t. r = Inr t \<and> weight t \<le> weight s))
    \<and> (\<forall>t. r = Inr t \<longrightarrow> strstr t old = None)"
proof (induction "weight s" arbitrary: s rule: less_induct)
  case less
  show ?case
  proof (cases "strstr s old")
    case None
    then have "replace_all old updated s = Some (Inr s)" by (simp add: replace_all.simps)
    then show ?thesis using None by auto
  next
    case (Some i)
    let ?b = "take i s @ updated @ drop (i + length old) s"
    have lt: "weight ?b < weight s"
      using replacement_lighter [OF assms, of "take i s" "drop (i + length old) s"] strstr_SomeD [OF Some] by metis
    have step: "replace_all old updated s = (if length ?b < 8192 then replace_all old updated ?b else Some (Inl Out_of_bounds))"
      using Some by (rule replace_all_step)
    show ?thesis
    proof (cases "length ?b < 8192")
      case True
      then show ?thesis using less [OF lt] lt by (auto simp: step)
    next
      case False
      then have "\<not> weight s < 8192" using lt length_le_weight [of ?b] by linarith
      then show ?thesis using False by (simp add: step)
    qed
  qed
qed

lemma apply_rules_lemma:
  "list_all lighter rs \<Longrightarrow>
    \<exists>r. apply_rules rs s = Some r \<and> (weight s < 8192 \<longrightarrow> (\<exists>t. r = Inr t \<and> weight t \<le> weight s))"
proof (induction rs arbitrary: s)
  case (Cons p rs)
  obtain old updated where p: "p = (old, updated)" by fastforce
  then obtain r where r: "replace_all old updated s = Some r"
      "weight s < 8192 \<longrightarrow> (\<exists>t. r = Inr t \<and> weight t \<le> weight s)"
    using replace_all_lemma [of old updated s] Cons.prems by auto
  show ?case
  proof (cases r)
    case (Inl e)
    then show ?thesis using r by (simp add: p)
  next
    case (Inr t)
    then show ?thesis using r Cons.IH [of t] Cons.prems by (fastforce simp: p)
  qed
qed simp

lemma apply_rules_append:
  "apply_rules (rs @ rs') s =
    (case apply_rules rs s of None \<Rightarrow> None | Some (Inl e) \<Rightarrow> Some (Inl e) | Some (Inr t) \<Rightarrow> apply_rules rs' t)"
  by (induction rs arbitrary: s) (auto split: option.splits sum.splits)

section \<open>Growing lines\<close>

text \<open>The occurrences of \<open>gm\<close> between spaces; two of them may share a space.\<close>

fun gm_words :: "string \<Rightarrow> nat" where
  "gm_words [] = 0"
| "gm_words (c # s) = (if starts '' gm '' (c # s) then 1 else 0) + gm_words s"

lemma gm_words_space: "gm_words (us @ CHR '' '' # vs) = gm_words (us @ '' '') + gm_words (CHR '' '' # vs)"
proof (induction us)
  case (Cons a us)
  have "starts '' gm '' (a # us @ CHR '' '' # vs) = starts '' gm '' (a # us @ '' '')"
    by (cases us; cases "tl us"; cases "tl (tl us)") (auto simp: starts_def)
  then show ?case using Cons by simp
qed (simp add: starts_def)

lemma gm_words_replaced: "gm_words (us @ '' gm '' @ vs) = Suc (gm_words (us @ '' gmail '' @ vs))"
  using gm_words_space [of us "''gm '' @ vs"] gm_words_space [of us "''gmail '' @ vs"] by (simp add: starts_def)

lemma gm_words_None: "strstr s '' gm '' = None \<Longrightarrow> gm_words s = 0"
proof (induction s)
  case (Cons c s)
  then have no: "c # s \<noteq> us @ '' gm '' @ vs" for us vs by (simp add: strstr_None_iff)
  then have "strstr s '' gm '' = None" unfolding strstr_None_iff by (metis append_Cons)
  moreover have "\<not> starts '' gm '' (c # s)"
    using no [of "[]"] unfolding starts_def by (metis append_take_drop_id append_Nil)
  ultimately show ?case using Cons.IH by simp
qed simp

text \<open>Each such word costs three characters, so the line grows by three times their number or overruns.\<close>

lemma gm_grows:
  "replace_all '' gm '' '' gmail '' s = Some (Inr t) \<Longrightarrow>
    length t = length s + 3 * gm_words s \<and> (length s < 8192 \<longrightarrow> length t < 8192)"
proof (induction "weight s" arbitrary: s rule: less_induct)
  case less
  let ?p = "'' gm ''" and ?q = "'' gmail ''"
  show ?case
  proof (cases "strstr s ?p")
    case None
    then show ?thesis using less.prems gm_words_None by (simp add: replace_all.simps)
  next
    case (Some i)
    define us vs where "us = take i s" and "vs = drop (i + length ?p) s"
    have s: "s = us @ ?p @ vs" using strstr_SomeD [OF Some] by (simp add: us_def vs_def)
    have step: "replace_all ?p ?q s = (if length (us @ ?q @ vs) < 8192 then replace_all ?p ?q (us @ ?q @ vs) else Some (Inl Out_of_bounds))"
      using replace_all_step [OF Some] by (simp only: us_def vs_def)
    then have len: "length (us @ ?q @ vs) < 8192" and rest: "replace_all ?p ?q (us @ ?q @ vs) = Some (Inr t)"
      using less.prems by (simp_all split: if_splits)
    have "lighter (?p, ?q)" by (simp add: lighter_def glue_def)
    then have "weight (us @ ?q @ vs) < weight s" unfolding s by (rule replacement_lighter)
    from less.hyps [OF this rest] len have "length t = length (us @ ?q @ vs) + 3 * gm_words (us @ ?q @ vs)" "length t < 8192"
      by blast+
    then show ?thesis unfolding s using gm_words_replaced [of us vs] by simp
  qed
qed

text \<open>A pattern with a character that the line does not have changes nothing.\<close>

lemma strstr_foreign: "c \<in> set p \<Longrightarrow> c \<notin> set s \<Longrightarrow> strstr s p = None"
  unfolding strstr_None_iff by (metis Un_iff set_append)

lemma apply_rules_foreign:
  assumes "list_all (\<lambda>(old, updated). \<exists>c \<in> set old. c \<notin> set s) rs"
  shows "apply_rules (rs @ rs') s = apply_rules rs' s"
  using assms
proof (induction rs)
  case (Cons p rs)
  obtain old updated where p: "p = (old, updated)" by fastforce
  then have "strstr s old = None" using Cons.prems strstr_foreign by auto
  then show ?case using Cons by (simp add: p replace_all.simps)
qed simp

definition gm_line :: "nat \<Rightarrow> string" where
  "gm_line n = concat (replicate n ''gm '')"

lemma gm_line_chars: "set (gm_line n) \<subseteq> set ''gm ''"
  by (auto simp: gm_line_def)

lemma length_gm_line: "length (gm_line n) = 3 * n"
  by (induction n) (simp_all add: gm_line_def)

lemma gm_words_line: "gm_words (gm_line (Suc n)) = n"
proof -
  have "gm_words (CHR '' '' # gm_line n) = n"
    by (induction n) (simp_all add: gm_line_def starts_def)
  then show ?thesis by (simp add: gm_line_def starts_def)
qed

lemma rules_split:
  "rules = take 21 rules @ ('' gm '', '' gmail '') # drop 22 rules"
  by (simp add: rules_def)

section \<open>A rule without effect\<close>

lemma contains_part:
  assumes "strstr s p = None"
  shows "strstr s (us @ p @ vs) = None"
  using assms unfolding strstr_None_iff by (metis append_assoc)

lemma attherate_twice:
  "apply_rules ((''attherate'', ''@'') # (''(attherate)'', ''@'') # rs) s = apply_rules ((''attherate'', ''@'') # rs) s"
proof -
  obtain r where r: "replace_all ''attherate'' ''@'' s = Some r" "\<forall>t. r = Inr t \<longrightarrow> strstr t ''attherate'' = None"
    using replace_all_lemma [of "''attherate''" "''@''" s] by (auto simp: lighter_def glue_def)
  show ?thesis
  proof (cases r)
    case (Inr t)
    then have "strstr t ''(attherate)'' = None" using r(2) contains_part [of t "''attherate''" "''(''" "'')''"] by simp
    then show ?thesis using r(1) Inr by (simp add: replace_all.simps [of "''(attherate)''"])
  qed (use r(1) in simp)
qed

lemma attherate_rule_idle:
  "normalize_content s = apply_rules (take 4 rules @ drop 5 rules) (convert_to_lowercase s)"
proof -
  have with_rule: "rules = take 3 rules @ (''attherate'', ''@'') # (''(attherate)'', ''@'') # drop 5 rules"
    and without: "take 4 rules @ drop 5 rules = take 3 rules @ (''attherate'', ''@'') # drop 5 rules"
    by (simp_all add: rules_def)
  have drop: "apply_rules (A @ (''attherate'', ''@'') # (''(attherate)'', ''@'') # R) t
      = apply_rules (A @ (''attherate'', ''@'') # R) t" for A R t
    by (simp only: apply_rules_append attherate_twice)
  show ?thesis
    unfolding normalize_content_def without by (subst with_rule) (rule drop)
qed

section \<open>A spelled-out address\<close>

lemma strstr_first:
  assumes "c \<notin> set u"
  shows "strstr (u @ (c # p) @ v) (c # p) = Some (length u)"
proof -
  have "take (length (c # p)) (drop i (u @ (c # p) @ v)) \<noteq> c # p" if "i < length u" for i
  proof
    assume "take (length (c # p)) (drop i (u @ (c # p) @ v)) = c # p"
    then have "hd (drop i (u @ (c # p) @ v)) = c"
      by (metis hd_append2 append_take_drop_id list.sel(1) list.distinct(1))
    moreover have "hd (drop i (u @ (c # p) @ v)) = u ! i" using that by (simp add: hd_drop_conv_nth nth_append)
    ultimately show False using assms that nth_mem by force
  qed
  then show ?thesis
    unfolding strstr_def find_Some_iff by (intro exI [of _ "length u"]) (auto simp: nth_append simp del: upt_Suc)
qed

lemma replace_first:
  assumes "c \<notin> set u" and "length (u @ updated @ v) < 8192"
  shows "replace_all (c # p) updated (u @ (c # p) @ v) = replace_all (c # p) updated (u @ updated @ v)"
  using assms(2) by (subst replace_all.simps) (simp add: strstr_first [OF assms(1), unfolded append_Cons] Let_def)

lemma replace_none: "strstr s old = None \<Longrightarrow> replace_all old updated s = Some (Inr s)"
  by (simp add: replace_all.simps)

definition address_word :: "string \<Rightarrow> bool" where
  "address_word w \<longleftrightarrow> w \<noteq> [] \<and> list_all (\<lambda>c. c \<in> set ''abcdefghijklmnopqrstuvwxyz0123456789'') w
     \<and> strstr w ''attherate'' = None \<and> strstr w ''underscore'' = None"

text \<open>A pattern that does not contain a character cannot lie across it.\<close>

lemma strstr_split:
  assumes "c \<notin> set p" and "strstr u p = None" and "strstr v p = None"
  shows "strstr (u @ c # v) p = None"
  unfolding strstr_None_iff
proof (intro allI notI)
  fix xs ys
  assume "u @ c # v = xs @ p @ ys"
  then consider r where "u = xs @ p @ r" | r where "v = r @ p @ ys"
    using assms(1) by (auto simp: append_eq_append_conv2 append_eq_Cons_conv Cons_eq_append_conv)
  then show False using assms(2,3) by cases (auto simp: strstr_None_iff)
qed

abbreviation blank :: "char \<Rightarrow> bool" where "blank \<equiv> \<lambda>c. c = CHR '' ''"

text \<open>A pattern between spaces occurs only as consecutive words with a word, maybe empty, on each side.\<close>

lemma strstr_blank_words:
  assumes "\<And>A B. A \<noteq> [] \<Longrightarrow> B \<noteq> [] \<Longrightarrow> split_at blank s \<noteq> A @ split_at blank p @ B"
  shows "strstr s ('' '' @ p @ '' '') = None"
  unfolding strstr_None_iff
proof (intro allI notI)
  fix xs ys
  assume "s = xs @ ('' '' @ p @ '' '') @ ys"
  then have "split_at blank s = split_at blank xs @ split_at blank p @ split_at blank ys"
    using split_at_separator [of blank "CHR '' ''" xs] split_at_separator [of blank "CHR '' ''" p ys] by simp
  then show False using assms split_at_nonempty by blast
qed

lemma split_at_word: "list_all (\<lambda>c. \<not> P c) w \<Longrightarrow> split_at P w = [w]"
  by (induction w) simp_all

lemma address_word_chars:
  assumes "address_word w"
  shows "c \<notin> set ''abcdefghijklmnopqrstuvwxyz0123456789'' \<Longrightarrow> c \<notin> set w" and "map tolower w = w"
    and "split_at blank w = [w]" and "strstr w ''attherate'' = None" and "strstr w ''underscore'' = None"
proof -
  have *: "\<forall>c \<in> set w. c \<in> set ''abcdefghijklmnopqrstuvwxyz0123456789''"
    using assms by (simp add: address_word_def list_all_iff del: list.set)
  show "c \<notin> set ''abcdefghijklmnopqrstuvwxyz0123456789'' \<Longrightarrow> c \<notin> set w" using * by blast
  have "\<forall>c \<in> set ''abcdefghijklmnopqrstuvwxyz0123456789''. tolower c = c" by (simp add: tolower_def)
  then show "map tolower w = w" using * by (intro map_idI) blast
  have "CHR '' '' \<notin> set ''abcdefghijklmnopqrstuvwxyz0123456789''" by simp
  then have "list_all (\<lambda>c. c \<noteq> CHR '' '') w" using * unfolding list_all_iff by blast
  then show "split_at blank w = [w]" by (induction w) simp_all
  show "strstr w ''attherate'' = None" "strstr w ''underscore'' = None" using assms by (simp_all add: address_word_def)
qed

lemma apply_rules_none:
  "list_all (\<lambda>r. strstr s (fst r) = None) rs \<Longrightarrow> apply_rules (rs @ rs') s = apply_rules rs' s"
proof (induction rs)
  case (Cons r rs)
  then show ?case by (cases r) (simp add: replace_none)
qed simp

definition spelled :: "string \<Rightarrow> string \<Rightarrow> string \<Rightarrow> string" where
  "spelled u d t = u @ '' at '' @ d @ '' dot '' @ t"

lemma rules_by_stage:
  "rules = take 7 rules @ ('' at '', ''@'') # [(''(@)'', ''@''), (''_dot_'', ''.'')] @ ('' dot '', ''.'') # drop 11 rules"
  by (simp add: rules_def)

lemma spelled_chars:
  assumes "address_word u" and "address_word d" and "address_word t"
    and "c \<notin> set ''abcdefghijklmnopqrstuvwxyz0123456789 ''"
  shows "c \<notin> set (spelled u d t)"
proof -
  have "c \<notin> set ''abcdefghijklmnopqrstuvwxyz0123456789''" "c \<notin> set '' at ''" "c \<notin> set '' dot ''" using assms(4) by auto
  then show ?thesis using address_word_chars(1) assms(1-3) unfolding spelled_def by simp
qed

lemma spelled_stage_1:
  assumes "address_word u" and "address_word d" and "address_word t"
  shows "list_all (\<lambda>r. strstr (spelled u d t) (fst r) = None) (take 7 rules)"
proof -
  have parts: "strstr (spelled u d t) ''attherate'' = None"
  proof -
    have "strstr ''at'' ''attherate'' = None" "strstr ''dot'' ''attherate'' = None" by (simp_all add: strstr_def)
    then have "strstr (u @ CHR '' '' # ''at'' @ CHR '' '' # d @ CHR '' '' # ''dot'' @ CHR '' '' # t) ''attherate'' = None"
      using address_word_chars(4) assms by (intro strstr_split) simp_all
    then show ?thesis by (simp add: spelled_def)
  qed
  have "split_at blank (spelled u d t) = [u, ''at'', d, ''dot'', t]"
    using split_at_separator [of blank "CHR '' ''" u "''at '' @ d @ '' dot '' @ t"]
      split_at_separator [of blank "CHR '' ''" d "''dot '' @ t"]
    by (simp add: spelled_def address_word_chars(3) assms)
  then have "strstr (spelled u d t) ('' '' @ ''at the rate'' @ '' '') = None"
    by (intro strstr_blank_words) (auto simp: Cons_eq_append_conv)
  moreover have "strstr (spelled u d t) p = None" if "c \<in> set p" "c \<notin> set ''abcdefghijklmnopqrstuvwxyz0123456789 ''" for c p
    by (rule strstr_foreign [OF that(1) spelled_chars [OF assms that(2)]])
  note foreign = this [of "CHR ''_''"] this [of "CHR ''-''"] this [of "CHR ''(''"] this [of "CHR ''[''"]
  ultimately show ?thesis using parts by (simp add: rules_def foreign)
qed

lemma spelled_stage_2:
  assumes "address_word u" and "address_word d" and "address_word t" and "length (u @ d @ t) \<le> 8181"
  shows "replace_all '' at '' ''@'' (spelled u d t) = Some (Inr (u @ ''@'' @ d @ '' dot '' @ t))"
proof -
  let ?s = "u @ ''@'' @ d @ '' dot '' @ t"
  note no = address_word_chars(1) [OF assms(1), of "CHR '' ''"] address_word_chars(1) [OF assms(2), of "CHR '' ''"]
  have "list_all (\<lambda>c. c \<noteq> CHR '' '') (u @ ''@'' @ d)" using no by (auto simp: list_all_iff)
  then have "split_at blank (u @ ''@'' @ d) = [u @ ''@'' @ d]" by (rule split_at_word)
  then have "split_at blank ?s = [u @ ''@'' @ d, ''dot'', t]"
    using split_at_separator [of blank "CHR '' ''" "u @ ''@'' @ d" "''dot '' @ t"]
    by (simp add: address_word_chars(3) assms)
  then have "strstr ?s ('' '' @ ''at'' @ '' '') = None" by (intro strstr_blank_words) (auto simp: Cons_eq_append_conv)
  moreover have "replace_all '' at '' ''@'' (spelled u d t) = replace_all '' at '' ''@'' ?s"
    using replace_first [of "CHR '' ''" u "''@''" "d @ '' dot '' @ t" "''at ''"] no(1) assms(4) by (simp add: spelled_def)
  ultimately show ?thesis by (simp add: replace_none)
qed

lemma address_words:
  assumes "address_word u" and "address_word d" and "address_word t" and "length (u @ d @ t) \<le> 8181"
  shows "apply_rules [(''(@)'', ''@''), (''_dot_'', ''.'')] (u @ ''@'' @ d @ '' dot '' @ t) = Some (Inr (u @ ''@'' @ d @ '' dot '' @ t))"
    and "replace_all '' dot '' ''.'' (u @ ''@'' @ d @ '' dot '' @ t) = Some (Inr (u @ ''@'' @ d @ ''.'' @ t))"
    and "apply_rules (drop 11 rules) (u @ ''@'' @ d @ ''.'' @ t) = Some (Inr (u @ ''@'' @ d @ ''.'' @ t))"
proof -
  let ?s = "u @ ''@'' @ d @ '' dot '' @ t" and ?r = "u @ ''@'' @ d @ ''.'' @ t"
  have chars: "c \<notin> set u \<and> c \<notin> set d \<and> c \<notin> set t" if "c \<notin> set ''abcdefghijklmnopqrstuvwxyz0123456789''" for c
    using address_word_chars(1) [OF assms(1) that] address_word_chars(1) [OF assms(2) that] address_word_chars(1) [OF assms(3) that]
    by blast
  have no: "CHR ''('' \<notin> set ?s" "CHR ''_'' \<notin> set ?s" "CHR '' '' \<notin> set ?r" "CHR ''('' \<notin> set ?r" "CHR ''['' \<notin> set ?r"
    using chars [of "CHR ''(''"] chars [of "CHR ''_''"] chars [of "CHR '' ''"] chars [of "CHR ''[''"] by simp_all
  show "apply_rules [(''(@)'', ''@''), (''_dot_'', ''.'')] ?s = Some (Inr ?s)"
    using strstr_foreign [of "CHR ''(''" "''(@)''" ?s] strstr_foreign [of "CHR ''_''" "''_dot_''" ?s] no
    by (simp add: replace_none)
  have "strstr ?r p = None" if "CHR '' '' \<in> set p" for p using strstr_foreign [OF that no(3)] .
  note blanks = this
  have "replace_all '' dot '' ''.'' ?s = replace_all '' dot '' ''.'' ?r"
    using replace_first [of "CHR '' ''" "u @ ''@'' @ d" "''.''" t "''dot ''"] chars [of "CHR '' ''"] assms(4) by simp
  also have "\<dots> = Some (Inr ?r)" by (rule replace_none [OF blanks]) simp
  finally show "replace_all '' dot '' ''.'' ?s = Some (Inr ?r)" .
  have "strstr (u @ CHR ''@'' # d @ CHR ''.'' # t) ''underscore'' = None"
    using address_word_chars(5) assms by (intro strstr_split) simp_all
  then have under: "strstr ?r ''underscore'' = None" by simp
  have "list_all (\<lambda>r. strstr ?r (fst r) = None) (drop 11 rules)"
    using strstr_foreign [OF _ no(4), of "''(dot)''"] strstr_foreign [OF _ no(5), of "''[dot]''"]
      strstr_foreign [OF _ no(4), of "''(period)''"] under
    unfolding rules_def by (simp add: blanks del: append.simps)
  then show "apply_rules (drop 11 rules) ?r = Some (Inr ?r)" using apply_rules_none [of ?r "drop 11 rules" "[]"] by simp
qed

text \<open>The only failure is an overrun.\<close>

lemma replace_all_overrun:
  assumes "lighter (old, updated)" and "replace_all old updated s = Some (Inl e)"
  shows "e = Out_of_bounds"
  using assms(2)
proof (induction "weight s" arbitrary: s rule: less_induct)
  case less
  show ?case
  proof (cases "strstr s old")
    case (Some i)
    let ?b = "take i s @ updated @ drop (i + length old) s"
    have "weight ?b < weight s"
      using replacement_lighter [OF assms(1), of "take i s" "drop (i + length old) s"] strstr_SomeD [OF Some] by metis
    then show ?thesis using less.hyps [of ?b] less.prems replace_all_step [OF Some] by (simp split: if_splits)
  qed (use less.prems in \<open>simp add: replace_all.simps\<close>)
qed

section \<open>The number of rounds\<close>

text \<open>The line after \<open>n\<close> rounds of the loop of \<open>replace_all\<close>, if the arrays had room for every line.\<close>

primrec rounds :: "string \<Rightarrow> string \<Rightarrow> nat \<Rightarrow> string \<Rightarrow> string" where
  "rounds old updated 0 s = s"
| "rounds old updated (Suc n) s =
    (case strstr s old of
       None \<Rightarrow> s
     | Some i \<Rightarrow> rounds old updated n (take i s @ updated @ drop (i + length old) s))"

lemma rounds_end:
  assumes "lighter (old, updated)"
  shows "\<exists>n \<le> weight s. strstr (rounds old updated n s) old = None
    \<and> (replace_all old updated s = Some (Inr (rounds old updated n s))
       \<or> replace_all old updated s = Some (Inl Out_of_bounds) \<and> (\<exists>m \<le> n. 8192 \<le> length (rounds old updated m s)))"
proof (induction "weight s" arbitrary: s rule: less_induct)
  case less
  show ?case
  proof (cases "strstr s old")
    case None
    then show ?thesis by (intro exI [of _ 0]) (simp add: replace_all.simps)
  next
    case (Some i)
    let ?b = "take i s @ updated @ drop (i + length old) s"
    have lt: "weight ?b < weight s"
      using replacement_lighter [OF assms, of "take i s" "drop (i + length old) s"] strstr_SomeD [OF Some] by metis
    obtain n where n: "n \<le> weight ?b" "strstr (rounds old updated n ?b) old = None"
      and r: "replace_all old updated ?b = Some (Inr (rounds old updated n ?b))
        \<or> replace_all old updated ?b = Some (Inl Out_of_bounds) \<and> (\<exists>m \<le> n. 8192 \<le> length (rounds old updated m ?b))"
      using less [OF lt] by blast
    have next_round: "rounds old updated (Suc m) s = rounds old updated m ?b" for m using Some by simp
    have "replace_all old updated s = Some (Inr (rounds old updated (Suc n) s))
        \<or> replace_all old updated s = Some (Inl Out_of_bounds) \<and> (\<exists>m \<le> Suc n. 8192 \<le> length (rounds old updated m s))"
    proof (cases "length ?b < 8192")
      case True
      then have "replace_all old updated s = replace_all old updated ?b" using replace_all_step [OF Some] by simp
      then show ?thesis using r unfolding next_round by (metis Suc_le_mono next_round)
    next
      case False
      then have "replace_all old updated s = Some (Inl Out_of_bounds)" using replace_all_step [OF Some] by simp
      moreover have "8192 \<le> length (rounds old updated (Suc 0) s)" using False next_round [of 0] by simp
      ultimately show ?thesis by (intro disjI2 conjI exI [of _ "Suc 0"]) simp_all
    qed
    then show ?thesis using n lt next_round [of n] by (intro exI [of _ "Suc n"]) simp
  qed
qed

lemma rules_end:
  assumes "(old, updated) \<in> set rules"
  shows "\<exists>n \<le> 3 * length s. strstr (rounds old updated n s) old = None
    \<and> (replace_all old updated s = Some (Inr (rounds old updated n s))
       \<or> replace_all old updated s = Some (Inl Out_of_bounds) \<and> (\<exists>m \<le> n. 8192 \<le> length (rounds old updated m s)))"
proof -
  have "lighter (old, updated)" using rules_lighter assms unfolding list_all_iff by blast
  from rounds_end [OF this, of s] show ?thesis using weight_bound [of s] by (meson le_trans)
qed

section \<open>The program returns\<close>

lemma email_loop_returns: "\<exists>r. email_loop regcomp regexec ls = Some r"
proof (induction ls)
  case (Cons l ls)
  then obtain rest where rest: "email_loop regcomp regexec ls = Some rest" by blast
  obtain r where "normalize_content (clean_content l) = Some r"
    using apply_rules_lemma [OF rules_lighter] unfolding normalize_content_def by blast
  then show ?case using rest by (auto split: sum.splits)
qed simp

lemma length_skip_one: "length (skip_one cs s) \<le> length s"
  by (simp add: skip_one_def split: list.split)

lemma length_clean: "length (clean_content l) \<le> length l"
proof -
  have "length (dropWhile P x) \<le> n" if "length x \<le> n" for P n and x :: string
    using that length_dropWhile_le le_trans by blast
  moreover have "length (skip_one cs x) \<le> n" if "length x \<le> n" for cs n x
    using that length_skip_one le_trans by blast
  ultimately show ?thesis by (simp add: clean_content_def Let_def)
qed

lemma normalize_short:
  assumes "length s \<le> 2730"
  shows "\<exists>t. normalize_content s = Some (Inr t) \<and> length t \<le> 3 * length s"
proof -
  let ?s = "convert_to_lowercase s"
  have w: "weight ?s \<le> 3 * length s" using weight_bound [of ?s] by (simp add: convert_to_lowercase_def)
  then have "weight ?s < 8192" using assms by linarith
  then obtain t where "normalize_content s = Some (Inr t)" "weight t \<le> weight ?s"
    using apply_rules_lemma [OF rules_lighter, of ?s] unfolding normalize_content_def by blast
  then show ?thesis using w length_le_weight [of t] by (auto intro: le_trans)
qed

section \<open>Addresses\<close>

text \<open>The pattern \<open>[a-z0-9._%+-]+@[a-z0-9.-]+\.[a-z]{2,}\<close>, without regard to case.\<close>

definition local_char :: "char \<Rightarrow> bool" where
  "local_char c \<longleftrightarrow> tolower c \<in> set ''abcdefghijklmnopqrstuvwxyz0123456789._%+-''"

definition domain_char :: "char \<Rightarrow> bool" where
  "domain_char c \<longleftrightarrow> tolower c \<in> set ''abcdefghijklmnopqrstuvwxyz0123456789.-''"

definition letter :: "char \<Rightarrow> bool" where
  "letter c \<longleftrightarrow> tolower c \<in> set ''abcdefghijklmnopqrstuvwxyz''"

definition is_domain :: "string \<Rightarrow> bool" where
  "is_domain r \<longleftrightarrow> list_ex (\<lambda>k. 0 < k \<and> list_all domain_char (take k r) \<and> r ! k = CHR ''.''
     \<and> 2 \<le> length (drop (Suc k) r) \<and> list_all letter (drop (Suc k) r)) [0..<length r]"

definition is_email :: "string \<Rightarrow> bool" where
  "is_email e \<longleftrightarrow> (let l = takeWhile (\<lambda>c. c \<noteq> CHR ''@'') e; r = drop (length l) e
     in l \<noteq> [] \<and> list_all local_char l \<and> r \<noteq> [] \<and> is_domain (tl r))"

text \<open>\<open>regexec\<close> returns the bounds of a part of the text that matches.\<close>

definition matcher :: "(string \<Rightarrow> (nat \<times> nat) option) \<Rightarrow> bool" where
  "matcher regexec \<longleftrightarrow>
    (\<forall>s b e. regexec s = Some (b, e) \<longrightarrow> b \<le> e \<and> e \<le> length s \<and> is_email (take (e - b) (drop b s)))"

text \<open>What may be printed for the lines: addresses that are part of a normalized line.\<close>

definition address_in :: "string list \<Rightarrow> string \<Rightarrow> bool" where
  "address_in ls e \<longleftrightarrow> is_email e \<and>
     (\<exists>l \<in> set ls. \<exists>t us vs. normalize_content (clean_content l) = Some (Inr t) \<and> t = us @ e @ vs)"

definition normal_form_of :: "string list \<Rightarrow> string \<Rightarrow> bool" where
  "normal_form_of ls t \<longleftrightarrow> t \<noteq> [] \<and> (\<exists>l \<in> set ls. normalize_content (clean_content l) = Some (Inr t))"

lemma address_in_mono: "address_in ls e \<Longrightarrow> address_in (l # ls) e"
  unfolding address_in_def by (meson list.set_intros(2))

lemma extract_email_lemma:
  assumes "matcher regexec" and "length t < 8192"
  shows "\<exists>out. extract_email regcomp regexec t = Inr out \<and> (\<forall>x. Normalized x \<notin> set out)
    \<and> (\<forall>e. Extracted e \<in> set out \<longrightarrow> is_email e \<and> (\<exists>us vs. t = us @ e @ vs))"
proof (cases "regcomp \<noteq> 0 \<or> regexec t = None")
  case False
  then obtain b e where m: "regcomp = 0" "regexec t = Some (b, e)" by auto
  then have "b \<le> e" "e \<le> length t" "is_email (take (e - b) (drop b t))"
    using assms(1) unfolding matcher_def by blast+
  moreover have "t = take b t @ take (e - b) (drop b t) @ drop (e - b) (drop b t)"
    by (metis append_take_drop_id)
  ultimately show ?thesis using m assms(2) by (auto simp: extract_email_def Let_def)
qed (auto simp: extract_email_def)

lemma email_loop_prints:
  assumes "matcher regexec" and "list_all (\<lambda>l. length l \<le> 2730) ls"
  shows "\<exists>out. email_loop regcomp regexec ls = Some (Inr out)
    \<and> (\<forall>e. Extracted e \<in> set out \<longrightarrow> address_in ls e) \<and> (\<forall>t. Normalized t \<in> set out \<longleftrightarrow> normal_form_of ls t)"
  using assms(2)
proof (induction ls)
  case Nil
  show ?case by (simp add: normal_form_of_def)
next
  case (Cons l ls)
  then obtain rest where rest: "email_loop regcomp regexec ls = Some (Inr rest)"
    and old: "\<And>e. Extracted e \<in> set rest \<Longrightarrow> address_in (l # ls) e"
    and norm: "\<And>t. Normalized t \<in> set rest \<longleftrightarrow> normal_form_of ls t"
    using address_in_mono by auto
  have len: "length (clean_content l) \<le> 2730" using Cons.prems length_clean [of l] by simp
  then obtain t where t: "normalize_content (clean_content l) = Some (Inr t)" "length t \<le> 3 * length (clean_content l)"
    using normalize_short by blast
  have forms: "normal_form_of (l # ls) x \<longleftrightarrow> (x = t \<and> t \<noteq> []) \<or> normal_form_of ls x" for x
    using t(1) by (auto simp: normal_form_of_def)
  show ?case
  proof (cases "t = []")
    case True
    then show ?thesis using rest t(1) old norm forms by simp
  next
    case False
    have "length t < 8192" using t(2) len by linarith
    from extract_email_lemma [OF assms(1) this, of regcomp] obtain out where out: "extract_email regcomp regexec t = Inr out"
      "\<And>x. Normalized x \<notin> set out" "\<And>e. Extracted e \<in> set out \<Longrightarrow> is_email e \<and> (\<exists>us vs. t = us @ e @ vs)" by blast
    have loop: "email_loop regcomp regexec (l # ls) = Some (Inr (Normalized t # out @ rest))"
      using t(1) out(1) rest False by simp
    have new: "Extracted e \<in> set out \<Longrightarrow> address_in (l # ls) e" for e
      using out(3) [of e] t(1) by (auto simp: address_in_def)
    show ?thesis unfolding loop using new old norm forms out(2) False by auto
  qed
qed

lemma apply_spelled:
  assumes "address_word u" and "address_word d" and "address_word t" and "length (u @ d @ t) \<le> 8181"
  shows "normalize_content (u @ '' at '' @ d @ '' dot '' @ t) = Some (Inr (u @ ''@'' @ d @ ''.'' @ t))"
proof -
  have "convert_to_lowercase (spelled u d t) = spelled u d t"
    using assms by (simp add: convert_to_lowercase_def spelled_def address_word_chars(2) tolower_def)
  moreover have "apply_rules rules (spelled u d t) = apply_rules ([('' at '', ''@'')] @ [(''(@)'', ''@''), (''_dot_'', ''.'')]
      @ [('' dot '', ''.'')] @ drop 11 rules) (spelled u d t)"
    unfolding append_Cons append_Nil
    by (subst rules_by_stage, unfold append_Cons append_Nil) (rule apply_rules_none [OF spelled_stage_1 [OF assms(1-3)]])
  ultimately have "normalize_content (spelled u d t) = apply_rules ([('' at '', ''@'')] @ [(''(@)'', ''@''), (''_dot_'', ''.'')]
      @ [('' dot '', ''.'')] @ drop 11 rules) (spelled u d t)"
    by (simp only: normalize_content_def)
  then show ?thesis
    unfolding apply_rules_append using spelled_stage_2 [OF assms] address_words [OF assms] by (simp add: spelled_def)
qed

section \<open>The results\<close>

text \<open>An address spelled out with \<open>at\<close> and \<open>dot\<close> between words of letters and digits (which do not
  themselves contain \<open>attherate\<close> or \<open>underscore\<close>) is recovered.\<close>

theorem spelled_address_recovered:
  assumes "address_word u" and "address_word d" and "address_word t" and "length (u @ d @ t) \<le> 8181"
  shows "normalize_content (u @ '' at '' @ d @ '' dot '' @ t) = Some (Inr (u @ ''@'' @ d @ ''.'' @ t))"
  by (rule apply_spelled [OF assms])

theorem spelled_address_recovered_witness:
  "normalize_content ''jaanki at mail dot in'' = Some (Inr ''jaanki@mail.in'')"
proof -
  have "address_word ''jaanki'' \<and> address_word ''mail'' \<and> address_word ''in''"
    by (simp add: address_word_def strstr_def)
  then show ?thesis using spelled_address_recovered [of "''jaanki''" "''mail''" "''in''"] by simp
qed

text \<open>C31: The program ends for every file, whatever the regular expression matcher does.  None of its 26
  replacements feeds itself: even if the arrays had room for every line, its loop would end, after at
  most three rounds for each character of the line, with a line in which the pattern does not occur; the
  code computes this line, unless one of the lines on the way does not fit into its 8192 characters.\<close>

theorem email_program_returns:
  "(\<exists>r. emailparser_main regcomp regexec file = Some r)
    \<and> (\<forall>(old, updated) \<in> set rules. \<exists>n \<le> 3 * length s. strstr (rounds old updated n s) old = None
         \<and> (replace_all old updated s = Some (Inr (rounds old updated n s))
            \<or> replace_all old updated s = Some (Inl Out_of_bounds) \<and> (\<exists>m \<le> n. 8192 \<le> length (rounds old updated m s))))"
proof
  show "\<exists>r. emailparser_main regcomp regexec file = Some r"
    using email_loop_returns by (auto simp: emailparser_main_def split: option.split)
qed (use rules_end in blast)

theorem email_program_returns_witness:
  "strstr (rounds ''gm '' ''gmail'' 2 ''gm gm '') ''gm '' = None \<and> (\<exists>n \<le> 18. strstr (rounds ''gm '' ''gmail'' n ''gm gm '') ''gm '' = None)"
proof -
  have rule: "(''gm '', ''gmail'') \<in> set rules" by (simp add: rules_def)
  have bound: "3 * length ''gm gm '' = 18" by simp
  have "\<exists>n \<le> 3 * length ''gm gm ''. strstr (rounds ''gm '' ''gmail'' n ''gm gm '') ''gm '' = None"
    using email_program_returns [of 0 "\<lambda>_. None" None "''gm gm ''"] rule by blast
  moreover have "strstr (rounds ''gm '' ''gmail'' 2 ''gm gm '') ''gm '' = None"
    by (simp add: numeral_2_eq_2 strstr_def)
  ultimately show ?thesis unfolding bound by blast
qed

text \<open>C34: For a file whose lines have at most 2730 characters and a matcher that finds what matches, no
  buffer is overrun; the program prints the normalized form of exactly the lines that are not empty
  then, and everything it prints as extracted is an address and a part of such a form.\<close>

theorem email_program_prints_addresses:
  assumes "matcher regexec" and "list_all (\<lambda>l. length l \<le> 2730) (file_lines content)"
  shows "\<exists>out. emailparser_main regcomp regexec (Some content) = Some (Inr out)
    \<and> (\<forall>e. Extracted e \<in> set out \<longrightarrow> address_in (file_lines content) e)
    \<and> (\<forall>t. Normalized t \<in> set out \<longleftrightarrow> normal_form_of (file_lines content) t)"
  using email_loop_prints [OF assms] by (simp add: emailparser_main_def)

text \<open>The leftmost longest match, as a function.\<close>

definition first_match :: "string \<Rightarrow> (nat \<times> nat) option" where
  "first_match s = List.find (\<lambda>(b, e). is_email (take (e - b) (drop b s)))
    (concat (map (\<lambda>b. map (\<lambda>e. (b, e)) (rev [b..<Suc (length s)])) [0..<length s]))"

lemma first_match_matcher: "matcher first_match"
  unfolding matcher_def first_match_def by (auto simp: find_Some_iff in_set_conv_nth [symmetric] dest!: nth_mem)

theorem email_program_prints_addresses_witness:
  "\<exists>out. emailparser_main 0 first_match (Some (''a at b dot in'' @ [newline])) = Some (Inr out) \<and> Normalized ''a@b.in'' \<in> set out"
proof -
  have lines: "file_lines (''a at b dot in'' @ [newline]) = [''a at b dot in'']"
    using file_lines_line [of "''a at b dot in''" "[]"] by simp
  have "address_word ''a'' \<and> address_word ''b'' \<and> address_word ''in''" by (simp add: address_word_def strstr_def)
  then have "normalize_content ''a at b dot in'' = Some (Inr ''a@b.in'')"
    using apply_spelled [of "''a''" "''b''" "''in''"] by simp
  moreover have "clean_content ''a at b dot in'' = ''a at b dot in''"
    by (simp add: clean_content_def starts_def isspace_def isdigit_def)
  ultimately show ?thesis
    using email_program_prints_addresses [OF first_match_matcher, of "''a at b dot in'' @ [newline]" 0]
    by (auto simp: lines [simplified] normal_form_of_def)
qed

text \<open>C35: A line of at most 8191 characters can overrun the buffer of \<open>replace_all\<close>: 1366 times the word
  \<open>gm\<close>, as each of these is expanded to \<open>gmail\<close>.\<close>

theorem normalize_overruns:
  assumes "1366 \<le> n" and "n \<le> 2730"
  shows "length (gm_line n) \<le> 8191 \<and> normalize_content (gm_line n) = Some (Inl Out_of_bounds)"
proof -
  let ?s = "gm_line n" and ?p = "'' gm ''" and ?q = "'' gmail ''"
  obtain m where m: "n = Suc m" using assms(1) by (cases n) auto
  have chars: "\<And>c. c \<notin> set ''gm '' \<Longrightarrow> c \<notin> set ?s" using gm_line_chars by blast
  have "list_all (\<lambda>(old, updated). \<exists>c \<in> set old. c \<notin> set ''gm '') (take 21 rules)" by (simp add: rules_def)
  then have "list_all (\<lambda>(old, updated). \<exists>c \<in> set old. c \<notin> set ?s) (take 21 rules)"
    unfolding list_all_iff using chars by fast
  then have skip: "apply_rules rules ?s = apply_rules ((?p, ?q) # drop 22 rules) ?s"
    by (subst rules_split) (rule apply_rules_foreign)
  have "\<forall>c \<in> set ''gm ''. tolower c = c" by (simp add: tolower_def)
  then have "convert_to_lowercase ?s = ?s"
    unfolding convert_to_lowercase_def using gm_line_chars by (intro map_idI) blast
  moreover have "replace_all ?p ?q ?s = Some (Inl Out_of_bounds)"
  proof -
    have light: "lighter (?p, ?q)" by (simp add: lighter_def glue_def)
    obtain r where r: "replace_all ?p ?q ?s = Some r" using replace_all_lemma [OF light] by blast
    show ?thesis
    proof (cases r)
      case (Inl e)
      then show ?thesis using r replace_all_overrun [OF light] by simp
    next
      case (Inr t)
      then have "length t = 3 * n + 3 * m \<and> length t < 8192"
        using gm_grows [of ?s t] r length_gm_line [of n] gm_words_line [of m] assms(2) m by simp
      then show ?thesis using assms(1) m by simp
    qed
  qed
  ultimately show ?thesis using length_gm_line [of n] assms(2) by (simp add: normalize_content_def skip)
qed

theorem normalize_overruns_witness:
  "normalize_content (gm_line 2000) = Some (Inl Out_of_bounds)"
  using normalize_overruns [of 2000] by simp

end
