(* ===== verification/Spec2Isabelle.thy ===== *)
theory Spec2Isabelle
  imports AES_SBox Block_Display RSA Sum_Session Routing_Updates Http_Session Doc_Summary Ftp_Session Info_Pacing Sentences Email_Parser
begin

text \<open>
  A verification library for the C programs of this repository: AES and RSA, six servers with
  their clients, and five programs that process text.  Every program is translated,
  function by function, into HOL functions of its inputs; what it takes from outside (the answers of
  the kernel, \<open>rand()\<close>, a regular expression matcher, the text typed or read from a file) is an argument.

  \<^bold>\<open>How C is read.\<close>

  \<^item> \<open>C_Prelude\<close>: failing code is \<open>c_error + 'a\<close>, where every \<open>exit\<close> and every step that
    C leaves undefined (an access outside an object, an indeterminate value, a null pointer, signed
    overflow) is a value of \<open>c_error\<close>; counting loops are \<open>for_to\<close>; bytes are \<open>8 word\<close>.
  \<^item> \<open>C_Int\<close>: signed integers are \<open>int\<close> with \<open>checked w\<close> on every operation that may overflow.
  \<^item> \<open>C_String\<close>: zero-terminated strings and the parts of the standard library that the programs use
    (\<open>strstr\<close>, \<open>strtok\<close>, \<open>fgets\<close>, \<open>sscanf\<close>, \<open>printf\<close> of numbers), with the lemmas on cutting a text at
    separators and on printing and reading numbers that the parsers share.

  \<^bold>\<open>Cryptography\<close> (\<^verbatim>\<open>cryptography\<close>).

  \<^item> \<open>AES_Field\<close> (\<open>xtime\<close>, \<open>mul\<close>), \<open>AES_Key\<close> (\<^verbatim>\<open>key_expansion.c\<close>, repeated in \<^verbatim>\<open>aes_encrypt.c\<close>), \<open>AES_SBox\<close>,
    \<open>AES_Cipher\<close> (\<^verbatim>\<open>aes_encrypt.c\<close>), \<open>AES_Inverse\<close> (\<^verbatim>\<open>aes_decrypt.c\<close>), \<open>AES_Programs\<close> (padding, hexadecimal
    input, the block loops, the \<open>main\<close> functions, \<^verbatim>\<open>key_gen.c\<close>), \<open>Block_Display\<close> (\<^verbatim>\<open>string_input_processing.c\<close>, whose
    padding is in \<open>AES_Programs\<close>).  Results: the
    multiplication is that of GF(2^8), the table is the affine image of the inverses, the key schedule is
    the only solution of its recurrence, decryption undoes encryption and encryption decryption (the
    locales \<open>block_cipher\<close> and \<open>block_permutation\<close>, interpreted by the two ciphers), the programs are
    inverse to each other on every line whose length is not a multiple of 16, and where the decrypting
    program reads too far.
  \<^item> \<open>RSA\<close> (\<^verbatim>\<open>RSA.c\<close>): primality, the greatest common divisor, the inverse and the power against their
    mathematical definitions, without overflow, and the whole program.

  \<^bold>\<open>Servers\<close>.  A server's state is a record of its globals; an iteration of its endless loop is a step
  function of a record of the kernel's answers.  \<open>Server_Loop\<close> has the run of a server as an inductive
  relation and, in the locale \<open>server\<close>, the facts that follow from an invariant; it is interpreted by
  three servers.  \<open>run_steps\<close> is the same run as a function, with what each iteration sends.

  \<^item> \<open>Fd_Set\<close> (the array of monitored descriptors, with the locale \<open>fd_monitor\<close>), \<open>Int_Message\<close>, \<open>Sum_Server\<close>
    (\<^verbatim>\<open>multiplex/server.c\<close>): refinement of an abstract server with one sum for each client, and the sum of a
    client over any run.  \<open>Basic_Server\<close> (\<^verbatim>\<open>basic-server\<close>): the server with any clients, and the client.
    \<open>Sum_Session\<close>: this client connects to the socket of the server of \<^verbatim>\<open>multiplex\<close> and not to that of the
    server beside it (lemma \<open>sockets\<close>), so its session is proved with the former, among other clients.
  \<^item> \<open>Routing_Table\<close> (the locale \<open>bounded_list\<close>), \<open>Routing_Server\<close> (\<^verbatim>\<open>multiplex-routinginfo\<close>): the table as a
    list, the effect of a request, and the update client's requests read back.  \<open>Routing_History\<close>: over any
    run the server is a log of routes for its clients, each of which has last been sent the current table,
    and the listening client prints what it is sent.  \<open>Routing_Updates\<close>: a session of the update client, from the
    lines typed to the table and the listings that every client is sent.  The client waits for an answer to
    each request; when the table is full there is none, and it waits for ever.
  \<^item> \<open>Epoll\<close> (non-blocking sockets and the accept loop that two servers share, with the locale
    \<open>accept_handler\<close>), \<open>Http_Request\<close>, \<open>Http_Server\<close>, \<open>Http_Client\<close> (\<^verbatim>\<open>http-setup\<close>): the parser, the response
    to every message, the type of a parsed request, the buffers, and the descriptors between any
    two moments of a run.
    \<open>Http_Iteration\<close>: one iteration for any number of clients, and
    over any run the answers that each client gets to its own requests.  \<open>Http_Session\<close>: the client among
    any others.
  \<^item> \<open>Info_Server\<close> (\<^verbatim>\<open>system-info\<close>): the report, who is sent it and when, the table of clients over any run, and
    what a client prints.  \<open>Info_Pacing\<close>: which iterations send, by the clock alone, and that each client is sent
    one report at each of them.  \<open>Stream_Client\<close>: the loop of a client that only listens, as the locale \<open>stream_client\<close>
    that the clients of \<^verbatim>\<open>system-info\<close> and \<^verbatim>\<open>multiplex-routinginfo\<close> interpret.
  \<^item> \<open>Ftp\<close> (\<^verbatim>\<open>FTP\<close>): the transcript of every session, and the session of the client with the
    server.  \<open>Ftp_Threads\<close>: the process of the server as a step relation over the memory in which \<open>main\<close> hands
    each thread its socket, the open sockets and the threads.  In every interleaving a thread serves
    the connection it was created for, as \<open>handle_client\<close> serves it alone (the locale \<open>thread_relation\<close>,
    interpreted by relations between a thread and the messages on its socket), a listing needs the
    log-in of its own client, and it is stated exactly what ends the process, \<open>SIGPIPE\<close> included.
    \<open>Ftp_Session\<close>: the client with its thread among any others.

  \<^bold>\<open>Text\<close> (\<^verbatim>\<open>file-processing\<close>).

  \<^item> \<open>Tokenizer\<close> and \<open>Doc_Summary\<close>: the tokens are the fields of the text, the counts are right, and any
    sorting algorithm gives the same table (the order is an instance of \<open>linorder\<close>).
  \<^item> \<open>Sentences\<close>: the third person of verbs, the number of sentences, and the sentences of the random program.
  \<^item> \<open>Email_Parser\<close>: the repeated replacements end after a bounded number of rounds whatever the size of the
    buffer, which lines overrun it, and what is printed.

  \<^bold>\<open>Termination and fuel.\<close>  Loops that end are recursive functions with a measure, or recursion over the
  list of results of a system call; a list that is used up before the loop ends gives \<open>Inl Exhausted\<close>, and
  the theorems say which lists are long enough.  The loop of \<open>replace_all\<close>, which need not end for every
  pattern, is a partial function, shown to return for the patterns of the program.  The endless loops of
  the servers are runs of any finite length.

  \<^bold>\<open>Not modelled.\<close>  Console messages of the servers, clocks and network addresses; memory exhaustion where
  the code does not check for it; signals outside the FTP server (a \<open>send\<close> of another server to a client
  that has gone can raise \<open>SIGPIPE\<close>); what the threads of \<^verbatim>\<open>ftp_simple_server.c\<close> do between two \<open>read\<close>s in
  smaller steps (there they use only their local variables and sockets); shifts of a byte into the sign
  bit (\<open>AES_Key\<close>) and character classes of negative characters (\<open>Email_Parser\<close>), which C leaves undefined and
  which are given their usual values; code after the endless loops; functions that are never called.  The POSIX regular expressions, OpenSSL's \<open>RAND_bytes\<close> and the
  system calls are parameters.
\<close>

end
